(* ===== verification/Prelude.thy ===== *)
theory Prelude
  imports "HOL-Library.Word" "HOL-Library.Char_ord" "HOL-Library.Sublist"
begin

text \<open>
  Shared vocabulary of the development: the machine types of the sources
  (\<open>std::uint64_t\<close>, \<open>std::uint8_t\<close>, ...), the part of \<open>std::string\<close> the sources
  use (searching, trimming, decimal printing), byte slices, and the generic
  lemmas on words, lists and characters that the component proofs share.

  The collection \<open>u64_simps\<close> turns comparisons and non-wrapping arithmetic on
  64-bit words into statements on natural numbers; \<open>char_simps\<close> does the same
  for character classes.
\<close>

named_theorems u64_simps "64-bit word comparisons and arithmetic as facts on nat"
named_theorems char_simps "character classes as inequalities on character codes"

type_synonym u8 = "8 word"
type_synonym u32 = "32 word"
type_synonym u64 = "64 word"
type_synonym bytes = "u8 list"

section \<open>64-bit words\<close>

definition u64_max :: u64 where
  "u64_max = - 1"

lemma unat_u64_max [simp]: "unat u64_max = 18446744073709551615"
  by (simp add: u64_max_def unsigned_minus_1_eq_mask mask_eq_exp_minus_1)

lemma unat_u64_less [simp]: "unat (x :: u64) < 18446744073709551616"
  using unsigned_less [of x] by simp

lemma unat_u64_le [simp]: "unat (x :: u64) \<le> 18446744073709551615"
  using unat_u64_less [of x] by linarith

declare word_le_nat_alt [u64_simps] word_less_nat_alt [u64_simps]
  word_unat_eq_iff [u64_simps] unat_sub_if' [u64_simps]

lemma unat_u64_add:
  fixes x y :: u64
  assumes "unat x + unat y < 2 ^ 64"
  shows "unat (x + y) = unat x + unat y"
  using assms by (simp add: unat_word_ariths)

lemma unat_u64_sub:
  fixes x y :: u64
  assumes "y \<le> x"
  shows "unat (x - y) = unat x - unat y"
  using assms by (simp add: unat_sub word_le_nat_alt)

lemma unat_u64_mult:
  fixes x y :: u64
  assumes "unat x * unat y < 2 ^ 64"
  shows "unat (x * y) = unat x * unat y"
  using assms by (simp add: unat_word_ariths)

lemma unat_of_nat_u64 [simp]:
  assumes "n < 2 ^ 64"
  shows "unat (of_nat n :: u64) = n"
  using assms by (simp add: unat_of_nat)

lemma u64_add_overflow_iff:
  fixes x y :: u64
  shows "u64_max - y < x \<longleftrightarrow> 2 ^ 64 \<le> unat x + unat y"
proof -
  have "unat (u64_max - y) = 2 ^ 64 - 1 - unat y"
    by (subst unat_u64_sub) (simp_all add: u64_simps)
  then show ?thesis
    using unat_u64_le [of y] by (simp add: word_less_nat_alt less_diff_conv2) linarith
qed

lemma unat_u64_0 [simp]: "unat (x :: u64) = 0 \<longleftrightarrow> x = 0"
  by (simp add: word_unat_eq_iff)

lemma u64_pos_iff: "0 < unat (x :: u64) \<longleftrightarrow> x \<noteq> 0"
  by (simp add: unat_gt_0)

lemma unat_ucast_u32_u64 [simp]: "unat (ucast (x :: u32) :: u64) = unat x"
proof -
  have "unat x < 2 ^ LENGTH(32)" by (rule unsigned_less)
  then have "unat x < 2 ^ 64" by simp
  then show ?thesis by (simp add: unsigned_ucast_eq take_bit_nat_eq_self)
qed

lemma unat_u32_less [simp]: "unat (x :: u32) < 4294967296"
proof -
  have "unat x < 2 ^ LENGTH(32)" by (rule unsigned_less)
  then show ?thesis by simp
qed

lemma unat_ucast_u32:
  fixes y :: u64
  assumes "unat y < 2 ^ 32"
  shows "unat (ucast y :: u32) = unat y"
  using assms by (simp add: unsigned_ucast_eq take_bit_nat_eq_self)

section \<open>Slices of lists\<close>

definition segment :: "'a list \<Rightarrow> nat \<Rightarrow> nat \<Rightarrow> 'a list" where
  "segment xs off n = take n (drop off xs)"

lemma length_segment [simp]: "length (segment xs off n) = min n (length xs - off)"
  by (simp add: segment_def min.commute)

lemma segment_0 [simp]: "segment xs off 0 = []"
  by (simp add: segment_def)

lemma segment_past [simp]: "length xs \<le> off \<Longrightarrow> segment xs off n = []"
  by (simp add: segment_def)

lemma segment_append: "segment xs off n @ segment xs (off + n) m = segment xs off (n + m)"
  by (simp add: segment_def take_add add.commute [of n off])

lemma segment_segment: "segment (segment xs off n) i m = segment xs (off + i) (min m (n - i))"
  by (simp add: segment_def drop_take add.commute)

lemma segment_all: "length xs \<le> n \<Longrightarrow> segment xs 0 n = xs"
  by (simp add: segment_def)

lemma segment_clip: "segment xs off (min n (length xs - off)) = segment xs off n"
  by (simp add: segment_def min_def)

lemma nth_segment: "i < n \<Longrightarrow> off + i < length xs \<Longrightarrow> segment xs off n ! i = xs ! (off + i)"
  by (simp add: segment_def)

lemma take_segment: "take m (segment xs off n) = segment xs off (min m n)"
  by (simp add: segment_def)

lemma drop_segment: "drop m (segment xs off n) = segment xs (off + m) (n - m)"
  by (simp add: segment_def drop_take add.commute)

section \<open>Searching in strings\<close>

text \<open>
  \<^term>\<open>find_index P s\<close> is \<open>std::string::find\<close> and \<open>find_first_of\<close>: the least position
  whose character satisfies \<open>P\<close>, with \<open>None\<close> for \<open>npos\<close>. \<open>rfind_index\<close> is the greatest one
  and \<open>find_sub\<close> is \<open>find\<close> of a string.
\<close>

fun find_index :: "('a \<Rightarrow> bool) \<Rightarrow> 'a list \<Rightarrow> nat option" where
  "find_index P [] = None"
| "find_index P (x # xs) = (if P x then Some 0 else map_option Suc (find_index P xs))"

fun rfind_index :: "('a \<Rightarrow> bool) \<Rightarrow> 'a list \<Rightarrow> nat option" where
  "rfind_index P [] = None"
| "rfind_index P (x # xs) =
    (case rfind_index P xs of Some i \<Rightarrow> Some (Suc i) | None \<Rightarrow> if P x then Some 0 else None)"

fun find_sub :: "'a list \<Rightarrow> 'a list \<Rightarrow> nat option" where
  "find_sub pat [] = (if pat = [] then Some 0 else None)"
| "find_sub pat (x # xs) =
    (if take (length pat) (x # xs) = pat then Some 0 else map_option Suc (find_sub pat xs))"

lemma find_index_None: "find_index P xs = None \<longleftrightarrow> (\<forall>x\<in>set xs. \<not> P x)"
  by (induction xs) auto

lemma find_index_NoneI [simp]: "\<forall>x\<in>set xs. \<not> P x \<Longrightarrow> find_index P xs = None"
  by (simp add: find_index_None)

lemma find_index_append:
  assumes "\<forall>x\<in>set xs. \<not> P x" and "P y"
  shows "find_index P (xs @ y # ys) = Some (length xs)"
  using assms by (induction xs) auto

lemma find_index_SomeD:
  assumes "find_index P xs = Some i"
  shows "i < length xs" "P (xs ! i)" "\<forall>x\<in>set (take i xs). \<not> P x"
  using assms by (induction xs arbitrary: i) (auto split: if_splits)

lemma find_index_Some_split:
  assumes "find_index P xs = Some i"
  obtains ys y zs where "xs = ys @ y # zs" "length ys = i" "\<forall>x\<in>set ys. \<not> P x" "P y"
proof
  show "xs = take i xs @ xs ! i # drop (Suc i) xs"
    using find_index_SomeD(1) [OF assms] by (simp add: id_take_nth_drop)
qed (use find_index_SomeD [OF assms] in \<open>auto simp: min_def\<close>)

lemma rfind_index_None: "rfind_index P xs = None \<longleftrightarrow> (\<forall>x\<in>set xs. \<not> P x)"
  by (induction xs) (auto split: option.splits)

lemma rfind_index_NoneI [simp]: "\<forall>x\<in>set xs. \<not> P x \<Longrightarrow> rfind_index P xs = None"
  by (simp add: rfind_index_None)

lemma rfind_index_append:
  assumes "\<forall>x\<in>set ys. \<not> P x" and "P y"
  shows "rfind_index P (xs @ y # ys) = Some (length xs)"
proof (induction xs)
  case Nil
  show ?case using assms by simp
qed simp

lemma rfind_index_SomeD:
  assumes "rfind_index P xs = Some i"
  shows "i < length xs" "P (xs ! i)" "\<forall>x\<in>set (drop (Suc i) xs). \<not> P x"
  using assms by (induction xs arbitrary: i) (auto simp: rfind_index_None split: if_splits option.splits)

lemma find_sub_append:
  assumes "\<forall>x\<in>set xs. x \<noteq> p"
  shows "find_sub (p # ps) (xs @ (p # ps) @ ys) = Some (length xs)"
  using assms by (induction xs) auto

lemma find_sub_SomeD:
  "find_sub pat s = Some i \<Longrightarrow> \<exists>pre rest. s = pre @ pat @ rest \<and> length pre = i"
proof (induction s arbitrary: i)
  case (Cons x s)
  show ?case
  proof (cases "take (length pat) (x # s) = pat")
    case True
    then have "x # s = [] @ pat @ drop (length pat) (x # s)"
      using append_take_drop_id [of "length pat" "x # s"] by simp
    moreover have "i = 0" using True Cons.prems by simp
    ultimately show ?thesis by (metis list.size(3))
  next
    case False
    then obtain j where j: "i = Suc j" "find_sub pat s = Some j" using Cons.prems by auto
    then obtain pre rest where "s = pre @ pat @ rest" "length pre = j" using Cons.IH by blast
    then have "x # s = (x # pre) @ pat @ rest \<and> length (x # pre) = i" using j by simp
    then show ?thesis by blast
  qed
qed (simp split: if_splits)

section \<open>Characters\<close>

definition ord :: "char \<Rightarrow> nat" where
  "ord c = of_char c"

lemma ord_less [simp]: "ord c < 256"
  by (simp add: ord_def)

lemma ord_inject [simp]: "ord c = ord d \<longleftrightarrow> c = d"
  by (simp add: ord_def)

lemma char_le_ord [char_simps]: "c \<le> d \<longleftrightarrow> ord c \<le> ord d"
  by (simp add: ord_def less_eq_char_def)

lemma ord_char_of [simp]: "n < 256 \<Longrightarrow> ord (char_of n) = n"
  by (simp add: ord_def)

lemma char_of_ord [simp]: "char_of (ord c) = c"
  by (simp add: ord_def)

lemma char_eq_ord: "c = d \<longleftrightarrow> ord c = ord d"
  by simp

definition is_lower :: "char \<Rightarrow> bool" where
  "is_lower c \<longleftrightarrow> CHR ''a'' \<le> c \<and> c \<le> CHR ''z''"

definition is_upper :: "char \<Rightarrow> bool" where
  "is_upper c \<longleftrightarrow> CHR ''A'' \<le> c \<and> c \<le> CHR ''Z''"

definition is_digit :: "char \<Rightarrow> bool" where
  "is_digit c \<longleftrightarrow> CHR ''0'' \<le> c \<and> c \<le> CHR ''9''"

definition to_lower :: "char \<Rightarrow> char" where
  "to_lower c = (if is_upper c then char_of (ord c + 32) else c)"

lemma is_lower_ord [char_simps]: "is_lower c \<longleftrightarrow> 97 \<le> ord c \<and> ord c \<le> 122"
  by (simp add: is_lower_def char_simps) (simp add: ord_def)

lemma is_upper_ord [char_simps]: "is_upper c \<longleftrightarrow> 65 \<le> ord c \<and> ord c \<le> 90"
  by (simp add: is_upper_def char_simps) (simp add: ord_def)

lemma is_digit_ord [char_simps]: "is_digit c \<longleftrightarrow> 48 \<le> ord c \<and> ord c \<le> 57"
  by (simp add: is_digit_def char_simps) (simp add: ord_def)

lemma ord_to_lower [char_simps]:
  "ord (to_lower c) = (if 65 \<le> ord c \<and> ord c \<le> 90 then ord c + 32 else ord c)"
  by (simp add: to_lower_def is_upper_ord)

lemma to_lower_idem [simp]: "to_lower (to_lower c) = to_lower c"
  by (simp add: char_eq_ord char_simps del: ord_inject)

section \<open>Decimal numbers\<close>

definition digit_char :: "nat \<Rightarrow> char" where
  "digit_char n = char_of (48 + n)"

definition digit_val :: "char \<Rightarrow> nat" where
  "digit_val c = ord c - 48"

text \<open>\<open>std::to_string\<close> of an unsigned number.\<close>

fun to_dec :: "nat \<Rightarrow> string" where
  "to_dec n = (if n < 10 then [digit_char n] else to_dec (n div 10) @ [digit_char (n mod 10)])"

declare to_dec.simps [simp del]

definition dec_value :: "string \<Rightarrow> nat" where
  "dec_value s = foldl (\<lambda>acc c. acc * 10 + digit_val c) 0 s"

lemma ord_digit_char [simp]: "n < 10 \<Longrightarrow> ord (digit_char n) = 48 + n"
  by (simp add: digit_char_def)

lemma digit_val_digit_char [simp]: "n < 10 \<Longrightarrow> digit_val (digit_char n) = n"
  by (simp add: digit_val_def)

lemma is_digit_digit_char [simp]: "n < 10 \<Longrightarrow> is_digit (digit_char n)"
  by (simp add: is_digit_ord)

lemma digit_val_less: "is_digit c \<Longrightarrow> digit_val c < 10"
  by (auto simp: digit_val_def is_digit_ord)

lemma dec_value_snoc [simp]: "dec_value (s @ [c]) = dec_value s * 10 + digit_val c"
  by (simp add: dec_value_def)

lemma dec_value_Nil [simp]: "dec_value [] = 0"
  by (simp add: dec_value_def)

lemma dec_value_to_dec [simp]: "dec_value (to_dec n) = n"
proof (induction n rule: to_dec.induct)
  case (1 n)
  show ?case
  proof (cases "n < 10")
    case True
    then show ?thesis by (simp add: to_dec.simps [of n] dec_value_def)
  next
    case False
    then show ?thesis by (simp add: to_dec.simps [of n] 1)
  qed
qed

lemma to_dec_inject [simp]: "to_dec m = to_dec n \<longleftrightarrow> m = n"
  by (metis dec_value_to_dec)

lemma to_dec_digits: "c \<in> set (to_dec n) \<Longrightarrow> is_digit c"
proof (induction n rule: to_dec.induct)
  case (1 n)
  then show ?case
    by (cases "n < 10") (auto simp: to_dec.simps [of n])
qed

lemma to_dec_not_Nil [simp]: "to_dec n \<noteq> []"
  by (simp add: to_dec.simps [of n])

lemma foldl_dec_mono: "a \<le> foldl (\<lambda>acc c. acc * 10 + digit_val c) a cs"
proof (induction cs arbitrary: a)
  case (Cons c cs)
  show ?case using Cons [of "a * 10 + digit_val c"] by simp
qed simp

lemma digit_char_digit_val [simp]: "is_digit c \<Longrightarrow> digit_char (digit_val c) = c"
  by (simp add: digit_char_def digit_val_def is_digit_ord)

lemma digit_char_is_0: "n < 10 \<Longrightarrow> digit_char n = CHR ''0'' \<longleftrightarrow> n = 0"
  unfolding char_eq_ord [of "digit_char n"] by (simp add: ord_def [of "CHR ''0''"])

lemma to_dec_dec_value:
  "ds \<noteq> [] \<Longrightarrow> \<forall>c\<in>set ds. is_digit c \<Longrightarrow> length ds > 1 \<longrightarrow> hd ds \<noteq> CHR ''0'' \<Longrightarrow> to_dec (dec_value ds) = ds"
proof (induction ds rule: rev_induct)
  case (snoc d xs)
  have d: "digit_val d < 10" "digit_char (digit_val d) = d" using snoc.prems by (simp_all add: digit_val_less)
  show ?case
  proof (cases "xs = []")
    case True
    then show ?thesis using d by (simp add: dec_value_def to_dec.simps)
  next
    case False
    have xs: "to_dec (dec_value xs) = xs" "hd xs \<noteq> CHR ''0''" using snoc False by (auto simp: hd_append)
    have "dec_value xs \<noteq> 0"
    proof
      assume "dec_value xs = 0"
      then have "xs = [digit_char 0]" using xs(1) by (simp add: to_dec.simps [of 0])
      then show False using xs(2) by (simp add: digit_char_is_0)
    qed
    then show ?thesis using d xs(1) by (subst to_dec.simps) simp
  qed
qed simp

lemma to_dec_canonical: "length (to_dec n) > 1 \<Longrightarrow> hd (to_dec n) \<noteq> CHR ''0''"
proof (induction n rule: to_dec.induct)
  case (1 n)
  show ?case
  proof (cases "n < 10")
    case False
    note eq = to_dec.simps [of n]
    show ?thesis
    proof (cases "n div 10 < 10")
      case True
      then have "hd (to_dec n) = digit_char (n div 10)" using False by (simp add: eq to_dec.simps [of "n div 10"])
      moreover have "n div 10 \<noteq> 0" using False by simp
      ultimately show ?thesis using True by (simp add: digit_char_is_0)
    next
      case nd: False
      then have "length (to_dec (n div 10)) > 1" by (subst to_dec.simps) simp
      then show ?thesis using 1(1) [OF False] False by (simp add: eq hd_append)
    qed
  qed (use 1(2) in \<open>simp add: to_dec.simps [of n]\<close>)
qed

lemma length_to_dec: "n < 10 ^ k \<Longrightarrow> 0 < k \<Longrightarrow> length (to_dec n) \<le> k"
proof (induction k arbitrary: n)
  case (Suc k)
  show ?case
  proof (cases "n < 10")
    case False
    then have "0 < k" using Suc.prems by (cases k) auto
    moreover have "n div 10 < 10 ^ k" using Suc.prems(1) by (simp add: less_mult_imp_div_less mult.commute)
    ultimately show ?thesis using Suc.IH False by (subst to_dec.simps) simp
  qed (simp add: to_dec.simps [of n])
qed simp

section \<open>Trimming\<close>

definition trim_by :: "('a \<Rightarrow> bool) \<Rightarrow> 'a list \<Rightarrow> 'a list" where
  "trim_by P s = rev (dropWhile P (rev (dropWhile P s)))"

lemma trim_by_Nil [simp]: "trim_by P [] = []"
  by (simp add: trim_by_def)

lemma trim_by_id: "s = [] \<or> \<not> P (hd s) \<and> \<not> P (last s) \<Longrightarrow> trim_by P s = s"
proof -
  assume s: "s = [] \<or> \<not> P (hd s) \<and> \<not> P (last s)"
  then have "dropWhile P s = s" by (cases s) auto
  moreover have "dropWhile P (rev s) = rev s" using s by (cases s rule: rev_cases) auto
  ultimately show ?thesis by (simp add: trim_by_def)
qed

lemma trim_by_all: "\<forall>c\<in>set s. P c \<Longrightarrow> trim_by P s = []"
  by (auto simp: trim_by_def dest: set_dropWhileD)

lemma trim_by_cons [simp]: "P c \<Longrightarrow> trim_by P (c # s) = trim_by P s"
  by (simp add: trim_by_def)

lemma trim_by_snoc [simp]: "P c \<Longrightarrow> trim_by P (s @ [c]) = trim_by P s"
proof (induction s)
  case (Cons x xs)
  then show ?case by (cases "P x") (simp_all add: trim_by_def)
qed simp

lemma trim_by_ends: "trim_by P s \<noteq> [] \<Longrightarrow> \<not> P (hd (trim_by P s)) \<and> \<not> P (last (trim_by P s))"
proof -
  let ?d = "dropWhile P s" and ?e = "dropWhile P (rev (dropWhile P s))"
  assume ne: "trim_by P s \<noteq> []"
  then have e: "?e \<noteq> []" by (auto simp: trim_by_def)
  then have "\<not> P (hd ?e)" by (rule hd_dropWhile)
  moreover have "hd (trim_by P s) = hd ?d"
    using e takeWhile_dropWhile_id [of P "rev ?d"]
    by (metis hd_append2 rev_append rev_is_Nil_conv rev_rev_ident trim_by_def)
  moreover have "?d \<noteq> []" using e by (metis dropWhile.simps(1) rev.simps(1))
  ultimately show ?thesis using e hd_dropWhile [of P s] by (auto simp: trim_by_def last_rev)
qed

lemma trim_by_idem [simp]: "trim_by P (trim_by P s) = trim_by P s"
  by (cases "trim_by P s = []") (auto intro: trim_by_id dest: trim_by_ends)

lemma set_trim_by: "set (trim_by P s) \<subseteq> set s"
  by (auto simp: trim_by_def dest!: set_dropWhileD)

end
