(* ===== verification/Destination.thy ===== *)
theory Destination
  imports Prelude
begin

text \<open>
  \<open>libs/usd-asset-http\<close>: the destination policy (\<open>Destination.cpp\<close>, and the policy type of
  \<open>HttpAssetReader.h\<close>). An address is its bytes in network order, a list of 4 or 16 octets. The
  parsers return \<open>None\<close> where the source returns false. The lemmas show that the classifier
  is the CIDR table of the documentation, that an IPv6 address that carries an IPv4 one has
  the class of the latter, and that the dotted-quad parser accepts the canonical spelling of
  each address and nothing else.
\<close>

unbundle bit_operations_syntax

type_synonym u16 = "16 word"

datatype AddressClass = Public | Private | Loopback | LinkLocal | Metadata

primrec AddressClassName :: "AddressClass \<Rightarrow> string" where
  "AddressClassName Public = ''public''"
| "AddressClassName Private = ''private''"
| "AddressClassName Loopback = ''loopback''"
| "AddressClassName LinkLocal = ''link-local''"
| "AddressClassName Metadata = ''metadata''"

record DestinationPolicy =
  dp_publicAddresses :: bool
  dp_privateNetworks :: bool
  dp_loopback :: bool
  dp_linkLocal :: bool
  dp_metadata :: bool

definition DestinationPolicy_default :: DestinationPolicy where
  "DestinationPolicy_default = \<lparr>dp_publicAddresses = True, dp_privateNetworks = True, dp_loopback = True,
     dp_linkLocal = False, dp_metadata = False\<rparr>"

primrec Permits :: "DestinationPolicy \<Rightarrow> AddressClass \<Rightarrow> bool" where
  "Permits p Public = dp_publicAddresses p"
| "Permits p Private = dp_privateNetworks p"
| "Permits p Loopback = dp_loopback p"
| "Permits p LinkLocal = dp_linkLocal p"
| "Permits p Metadata = dp_metadata p"

definition Covers :: "DestinationPolicy \<Rightarrow> DestinationPolicy \<Rightarrow> bool" where
  "Covers p other \<longleftrightarrow>
     (dp_publicAddresses p \<or> \<not> dp_publicAddresses other) \<and> (dp_privateNetworks p \<or> \<not> dp_privateNetworks other) \<and>
     (dp_loopback p \<or> \<not> dp_loopback other) \<and> (dp_linkLocal p \<or> \<not> dp_linkLocal other) \<and>
     (dp_metadata p \<or> \<not> dp_metadata other)"

definition DestinationPolicy_eq :: "DestinationPolicy \<Rightarrow> DestinationPolicy \<Rightarrow> bool" where
  "DestinationPolicy_eq p other \<longleftrightarrow>
     dp_publicAddresses p = dp_publicAddresses other \<and> dp_privateNetworks p = dp_privateNetworks other \<and>
     dp_loopback p = dp_loopback other \<and> dp_linkLocal p = dp_linkLocal other \<and> dp_metadata p = dp_metadata other"

section \<open>Classification\<close>

definition TrailingIPv4 :: "u8 list \<Rightarrow> u8 list" where
  "TrailingIPv4 address = [address ! 12, address ! 13, address ! 14, address ! 15]"

definition AllZero :: "u8 list \<Rightarrow> nat \<Rightarrow> nat \<Rightarrow> bool" where
  "AllZero address first end \<longleftrightarrow> list_all (\<lambda>i. address ! i = 0) [first..<end]"

definition kKnown :: "u8 list list" where
  "kKnown = [[169, 254, 169, 254], [169, 254, 170, 2], [169, 254, 170, 23], [169, 254, 0, 23],
     [100, 100, 100, 200], [168, 63, 129, 16]]"

definition IsMetadataIPv4 :: "u8 list \<Rightarrow> bool" where
  "IsMetadataIPv4 address \<longleftrightarrow>
     (\<exists>known\<in>set kKnown. address ! 0 = known ! 0 \<and> address ! 1 = known ! 1 \<and>
        address ! 2 = known ! 2 \<and> address ! 3 = known ! 3)"

definition IsMetadataIPv6 :: "u8 list \<Rightarrow> bool" where
  "IsMetadataIPv6 address \<longleftrightarrow>
     \<not> (address ! 0 \<noteq> 0xfd \<or> address ! 1 \<noteq> 0x00 \<or> address ! 2 \<noteq> 0x0e \<or> address ! 3 \<noteq> 0xc2 \<or> \<not> AllZero address 4 14) \<and>
     (address ! 14 = 0x02 \<and> address ! 15 = 0x54 \<or> address ! 14 = 0x00 \<and> address ! 15 = 0x23)"

definition ClassifyIPv4 :: "u8 list \<Rightarrow> AddressClass" where
  "ClassifyIPv4 address =
    (if IsMetadataIPv4 address then Metadata
     else if address ! 0 = 127 \<or> address ! 0 = 0 then Loopback
     else if address ! 0 = 169 \<and> address ! 1 = 254 then LinkLocal
     else if address ! 0 = 10 then Private
     else if address ! 0 = 172 \<and> address ! 1 AND 0xf0 = 0x10 then Private
     else if address ! 0 = 192 \<and> address ! 1 = 168 then Private
     else if address ! 0 = 100 \<and> address ! 1 AND 0xc0 = 0x40 then Private
     else Public)"

definition ClassifyIPv6 :: "u8 list \<Rightarrow> AddressClass" where
  "ClassifyIPv6 address =
    (if AllZero address 0 12 then
       (if address ! 12 = 0 \<and> address ! 13 = 0 \<and> address ! 14 = 0 \<and> (address ! 15 = 0 \<or> address ! 15 = 1) then Loopback
        else ClassifyIPv4 (TrailingIPv4 address))
     else if AllZero address 0 10 \<and> address ! 10 = 0xff \<and> address ! 11 = 0xff then ClassifyIPv4 (TrailingIPv4 address)
     else if address ! 0 = 0x00 \<and> address ! 1 = 0x64 \<and> address ! 2 = 0xff \<and> address ! 3 = 0x9b \<and> AllZero address 4 12
     then ClassifyIPv4 (TrailingIPv4 address)
     else if IsMetadataIPv6 address then Metadata
     else if address ! 0 = 0xfe \<and> address ! 1 AND 0xc0 = 0x80 then LinkLocal
     else if address ! 0 = 0xfe \<and> address ! 1 AND 0xc0 = 0xc0 then Private
     else if address ! 0 AND 0xfe = 0xfc then Private
     else Public)"

section \<open>Parsing\<close>

text \<open>The digits of one part: the value, how many there were, and what follows them.\<close>

fun ipv4_digits :: "nat \<Rightarrow> nat \<Rightarrow> string \<Rightarrow> (nat \<times> nat \<times> string) option" where
  "ipv4_digits v digits [] = Some (v, digits, [])"
| "ipv4_digits v digits (c # cs) =
    (if is_digit c then
       let v' = v * 10 + digit_val c in if v' > 255 then None else ipv4_digits v' (digits + 1) cs
     else Some (v, digits, c # cs))"

definition ipv4_part :: "string \<Rightarrow> (u8 \<times> string) option" where
  "ipv4_part str =
    (case ipv4_digits 0 0 str of
       None \<Rightarrow> None
     | Some (v, digits, rest) \<Rightarrow>
         if digits = 0 \<or> digits > 3 then None
         else if digits > 1 \<and> hd str = CHR ''0'' then None
         else Some (of_nat v, rest))"

function ipv4_parts :: "nat \<Rightarrow> string \<Rightarrow> (u8 list \<times> string) option" where
  "ipv4_parts part str =
    (if part \<ge> 4 then Some ([], str)
     else if part > 0 \<and> (str = [] \<or> hd str \<noteq> CHR ''.'') then None
     else case ipv4_part (if part > 0 then tl str else str) of
            None \<Rightarrow> None
          | Some (b, rest) \<Rightarrow>
              (case ipv4_parts (part + 1) rest of None \<Rightarrow> None | Some (bs, rest') \<Rightarrow> Some (b # bs, rest')))"
  by pat_completeness auto
termination by (relation "measure (\<lambda>(part, str). 4 - part)") auto

declare ipv4_parts.simps [simp del]

definition ParseIPv4 :: "string \<Rightarrow> u8 list option" where
  "ParseIPv4 str = (case ipv4_parts 0 str of Some (bs, []) \<Rightarrow> Some bs | _ \<Rightarrow> None)"

definition HexValue :: "char \<Rightarrow> nat option" where
  "HexValue c =
    (if is_digit c then Some (ord c - 48)
     else if CHR ''a'' \<le> c \<and> c \<le> CHR ''f'' then Some (ord c - 97 + 10)
     else if CHR ''A'' \<le> c \<and> c \<le> CHR ''F'' then Some (ord c - 65 + 10)
     else None)"

fun hex_group :: "nat \<Rightarrow> string \<Rightarrow> nat option" where
  "hex_group v [] = Some v"
| "hex_group v (c # cs) = (case HexValue c of None \<Rightarrow> None | Some d \<Rightarrow> hex_group (v * 16 + d) cs)"

text \<open>The groups written so far are \<open>acc\<close>, so the source's \<open>count\<close> is its length.\<close>

function group_loop :: "nat \<Rightarrow> bool \<Rightarrow> u16 list \<Rightarrow> string \<Rightarrow> u16 list option" where
  "group_loop capacity allowTrailingIPv4 acc str =
    (let colon = find_index (\<lambda>c. c = CHR '':'') str;
         part = (case colon of None \<Rightarrow> str | Some i \<Rightarrow> take i str)
     in if find_index (\<lambda>c. c = CHR ''.'') part \<noteq> None then
          (if \<not> allowTrailingIPv4 \<or> colon \<noteq> None then None
           else case ParseIPv4 part of
                  None \<Rightarrow> None
                | Some v4 \<Rightarrow>
                    if length acc + 2 > capacity then None
                    else Some (acc @ [push_bit 8 (ucast (v4 ! 0)) OR ucast (v4 ! 1), push_bit 8 (ucast (v4 ! 2)) OR ucast (v4 ! 3)]))
        else if part = [] \<or> length part > 4 \<or> length acc + 1 > capacity then None
        else case hex_group 0 part of
               None \<Rightarrow> None
             | Some v \<Rightarrow>
                 (case colon of
                    None \<Rightarrow> Some (acc @ [of_nat v])
                  | Some i \<Rightarrow> group_loop capacity allowTrailingIPv4 (acc @ [of_nat v]) (drop (i + 1) str)))"
  by pat_completeness auto
termination
proof (relation "measure (\<lambda>(capacity, allow, acc, str). length str)", goal_cases)
  case (2 capacity allow acc str colon part v i)
  then have "i < length str" using find_index_SomeD(1) by metis
  then show ?case by simp
qed simp

declare group_loop.simps [simp del]

definition ParseGroups :: "string \<Rightarrow> nat \<Rightarrow> bool \<Rightarrow> u16 list option" where
  "ParseGroups str capacity allowTrailingIPv4 =
    (if str = [] then Some [] else group_loop capacity allowTrailingIPv4 [] str)"

definition group_bytes :: "u16 list \<Rightarrow> u8 list" where
  "group_bytes groups = concat (map (\<lambda>g. [ucast (drop_bit 8 g), ucast (g AND 0xff)]) groups)"

definition ParseIPv6 :: "string \<Rightarrow> u8 list option" where
  "ParseIPv6 str =
    (case find_sub ''::'' str of
       None \<Rightarrow>
         (case ParseGroups str 8 True of
            None \<Rightarrow> None
          | Some heads \<Rightarrow> if length heads \<noteq> 8 then None else Some (group_bytes heads))
     | Some gap \<Rightarrow>
         if find_sub ''::'' (drop (gap + 1) str) \<noteq> None then None
         else case (ParseGroups (take gap str) 8 False, ParseGroups (drop (gap + 2) str) 8 True) of
                (Some heads, Some tails) \<Rightarrow>
                  if length heads + length tails > 7 then None
                  else Some (group_bytes (heads @ replicate (8 - length tails - length heads) 0 @ tails))
              | _ \<Rightarrow> None)"

definition ClassifyHostLiteral :: "string \<Rightarrow> AddressClass option" where
  "ClassifyHostLiteral host =
    (if host \<noteq> [] \<and> hd host = CHR ''['' then
       (if length host < 2 \<or> last host \<noteq> CHR '']'' then None
        else let inner = butlast (tl host);
                 inner = (case find_index (\<lambda>c. c = CHR ''%'') inner of None \<Rightarrow> inner | Some zone \<Rightarrow> take zone inner)
             in map_option ClassifyIPv6 (ParseIPv6 inner))
     else let quad = (if host \<noteq> [] \<and> last host = CHR ''.'' then butlast host else host)
          in map_option ClassifyIPv4 (ParseIPv4 quad))"

section \<open>Policies\<close>

lemma Covers_iff: "Covers p other \<longleftrightarrow> (\<forall>c. Permits other c \<longrightarrow> Permits p c)"
proof -
  have "(\<forall>c. P c) \<longleftrightarrow> P Public \<and> P Private \<and> P Loopback \<and> P LinkLocal \<and> P Metadata" for P
    by (metis AddressClass.exhaust)
  then show ?thesis by (auto simp: Covers_def)
qed

lemma DestinationPolicy_eq_iff [simp]: "DestinationPolicy_eq p q \<longleftrightarrow> p = q"
  by (cases p; cases q) (auto simp: DestinationPolicy_eq_def)

section \<open>The table of address ranges\<close>

text \<open>The address a quad denotes, and membership in a network of the given prefix length.\<close>

definition ip4 :: "u8 list \<Rightarrow> nat" where
  "ip4 q = unat (q ! 0) * 2 ^ 24 + unat (q ! 1) * 2 ^ 16 + unat (q ! 2) * 2 ^ 8 + unat (q ! 3)"

definition in_net :: "nat \<Rightarrow> u8 list \<Rightarrow> nat \<Rightarrow> bool" where
  "in_net v base len \<longleftrightarrow> v div 2 ^ (32 - len) = ip4 base div 2 ^ (32 - len)"

definition class_table :: "nat \<Rightarrow> AddressClass" where
  "class_table v =
    (if v \<in> ip4 ` {[169, 254, 169, 254], [169, 254, 170, 2], [169, 254, 170, 23], [169, 254, 0, 23],
                    [100, 100, 100, 200], [168, 63, 129, 16]} then Metadata
     else if in_net v [127, 0, 0, 0] 8 \<or> in_net v [0, 0, 0, 0] 8 then Loopback
     else if in_net v [169, 254, 0, 0] 16 then LinkLocal
     else if in_net v [10, 0, 0, 0] 8 \<or> in_net v [172, 16, 0, 0] 12 \<or> in_net v [192, 168, 0, 0] 16 \<or>
             in_net v [100, 64, 0, 0] 10 then Private
     else Public)"

lemma unat_u8_less [simp]: "unat (x :: u8) < 256"
  using unsigned_less [of x] by simp

lemma unat_high_bits: "unat ((x :: u8) AND NOT (mask n)) = unat x div 2 ^ n * 2 ^ n"
proof -
  have eq: "x AND NOT (mask n) = push_bit n (drop_bit n x)"
    by (rule bit_word_eqI) (auto simp: bit_simps)
  have "unat x div 2 ^ n * 2 ^ n < 2 ^ 8"
    by (rule le_less_trans [OF div_times_less_eq_dividend]) (use unsigned_less [of x] in simp)
  then show ?thesis
    unfolding eq unsigned_push_bit_eq unat_drop_bit_eq by (simp add: drop_bit_eq_div push_bit_eq_mult take_bit_eq_mod)
qed

lemma u8_masks:
  "(x :: u8) AND 0xf0 = 0x10 \<longleftrightarrow> unat x div 16 = 1" "x AND 0xc0 = 0x40 \<longleftrightarrow> unat x div 64 = 1"
proof -
  have m: "(0xf0 :: u8) = NOT (mask 4)" "(0xc0 :: u8) = NOT (mask 6)"
    by (simp_all add: mask_eq_exp_minus_1)
  show "x AND 0xf0 = 0x10 \<longleftrightarrow> unat x div 16 = 1" "x AND 0xc0 = 0x40 \<longleftrightarrow> unat x div 64 = 1"
   unfolding m word_unat_eq_iff unat_high_bits by simp_all
qed

lemma quotient: "n = k * m + r \<Longrightarrow> r < (m :: nat) \<Longrightarrow> n div m = k"
  by simp

lemma small_base_eq:
  assumes "x < k" "y < (k :: nat)"
  shows "m * k + x = n * k + y \<longleftrightarrow> m = n \<and> x = y"
proof
  assume eq: "m * k + x = n * k + y"
  have "(m * k + x) div k = m" "(n * k + y) div k = n" using assms by simp_all
  then have "m = n" using eq by simp
  then show "m = n \<and> x = y" using eq by simp
qed simp

lemma ip4_inject: "ip4 q = ip4 r \<longleftrightarrow> q ! 0 = r ! 0 \<and> q ! 1 = r ! 1 \<and> q ! 2 = r ! 2 \<and> q ! 3 = r ! 3"
proof -
  have horner: "ip4 x = ((unat (x ! 0) * 256 + unat (x ! 1)) * 256 + unat (x ! 2)) * 256 + unat (x ! 3)" for x
    by (simp add: ip4_def)
  show ?thesis unfolding horner by (simp only: small_base_eq [OF unat_u8_less unat_u8_less] word_unat_eq_iff conj_assoc)
qed

lemma digits_256_div:
  assumes "b < 256" "c < 256" "d < (256 :: nat)"
  shows "(a * 16777216 + b * 65536 + c * 256 + d) div 16777216 = a"
    "(a * 16777216 + b * 65536 + c * 256 + d) div 4194304 = a * 4 + b div 64"
    "(a * 16777216 + b * 65536 + c * 256 + d) div 1048576 = a * 16 + b div 16"
    "(a * 16777216 + b * 65536 + c * 256 + d) div 65536 = a * 256 + b"
proof -
  have part: "(a * 16777216 + (x * k + y) * 65536 + c * 256 + d) div (k * 65536) = a * l + x" if "y < k" "k * l = 256" for x y k l
  proof -
    have "a * 16777216 = a * l * (k * 65536)" using that(2) by (simp add: algebra_simps)
    moreover have "y * 65536 + c * 256 + d < k * 65536" using that(1) assms by linarith
    ultimately show ?thesis by (intro quotient [of _ _ _ "y * 65536 + c * 256 + d"]) (simp_all add: algebra_simps)
  qed
  show "(a * 16777216 + b * 65536 + c * 256 + d) div 16777216 = a" using part [of b 256 1 0] assms by simp
  show "(a * 16777216 + b * 65536 + c * 256 + d) div 4194304 = a * 4 + b div 64" using part [of "b mod 64" 64 4 "b div 64"] by simp
  show "(a * 16777216 + b * 65536 + c * 256 + d) div 1048576 = a * 16 + b div 16" using part [of "b mod 16" 16 16 "b div 16"] by simp
  show "(a * 16777216 + b * 65536 + c * 256 + d) div 65536 = a * 256 + b" using part [of 0 1 256 b] by simp
qed

lemma ip4_div:
  "ip4 q div 2 ^ 24 = unat (q ! 0)" "ip4 q div 2 ^ 22 = unat (q ! 0) * 4 + unat (q ! 1) div 64"
  "ip4 q div 2 ^ 20 = unat (q ! 0) * 16 + unat (q ! 1) div 16" "ip4 q div 2 ^ 16 = unat (q ! 0) * 256 + unat (q ! 1)"
  using digits_256_div [of "unat (q ! 1)" "unat (q ! 2)" "unat (q ! 3)" "unat (q ! 0)"] by (simp_all add: ip4_def)

lemma in_net_octets:
  "in_net (ip4 q) b 8 \<longleftrightarrow> q ! 0 = b ! 0"
  "in_net (ip4 q) b 16 \<longleftrightarrow> q ! 0 = b ! 0 \<and> q ! 1 = b ! 1"
  "in_net (ip4 q) b 12 \<longleftrightarrow> q ! 0 = b ! 0 \<and> unat (q ! 1) div 16 = unat (b ! 1) div 16"
  "in_net (ip4 q) b 10 \<longleftrightarrow> q ! 0 = b ! 0 \<and> unat (q ! 1) div 64 = unat (b ! 1) div 64"
proof -
  have e: "(32 :: nat) - 8 = 24" "(32 :: nat) - 16 = 16" "(32 :: nat) - 12 = 20" "(32 :: nat) - 10 = 22" by simp_all
  have d: "unat (x :: u8) div 16 < 16" "unat x div 64 < 4" for x
    using unat_u8_less [of x] by (simp_all add: less_mult_imp_div_less)
  show "in_net (ip4 q) b 8 \<longleftrightarrow> q ! 0 = b ! 0" unfolding in_net_def e ip4_div word_unat_eq_iff ..
  show "in_net (ip4 q) b 16 \<longleftrightarrow> q ! 0 = b ! 0 \<and> q ! 1 = b ! 1"
    unfolding in_net_def e ip4_div word_unat_eq_iff small_base_eq [OF unat_u8_less unat_u8_less] ..
  show "in_net (ip4 q) b 12 \<longleftrightarrow> q ! 0 = b ! 0 \<and> unat (q ! 1) div 16 = unat (b ! 1) div 16"
    unfolding in_net_def e ip4_div word_unat_eq_iff small_base_eq [OF d(1) d(1)] ..
  show "in_net (ip4 q) b 10 \<longleftrightarrow> q ! 0 = b ! 0 \<and> unat (q ! 1) div 64 = unat (b ! 1) div 64"
    unfolding in_net_def e ip4_div word_unat_eq_iff small_base_eq [OF d(2) d(2)] ..
qed

text \<open>
  The class of an IPv4 address is the one its ranges give: the six metadata addresses
  by value, then loopback, link-local and private networks by prefix, and public otherwise.
\<close>

theorem ClassifyIPv4_table: "ClassifyIPv4 q = class_table (ip4 q)"
proof -
  have meta: "ip4 q \<in> ip4 ` {[169, 254, 169, 254], [169, 254, 170, 2], [169, 254, 170, 23], [169, 254, 0, 23],
      [100, 100, 100, 200], [168, 63, 129, 16]} \<longleftrightarrow> IsMetadataIPv4 q"
    unfolding image_iff ip4_inject by (auto simp: IsMetadataIPv4_def kKnown_def)
  have nets: "in_net (ip4 q) [127, 0, 0, 0] 8 \<longleftrightarrow> q ! 0 = 127" "in_net (ip4 q) [0, 0, 0, 0] 8 \<longleftrightarrow> q ! 0 = 0"
    "in_net (ip4 q) [10, 0, 0, 0] 8 \<longleftrightarrow> q ! 0 = 10" "in_net (ip4 q) [169, 254, 0, 0] 16 \<longleftrightarrow> q ! 0 = 169 \<and> q ! 1 = 254"
    "in_net (ip4 q) [192, 168, 0, 0] 16 \<longleftrightarrow> q ! 0 = 192 \<and> q ! 1 = 168"
    "in_net (ip4 q) [172, 16, 0, 0] 12 \<longleftrightarrow> q ! 0 = 172 \<and> q ! 1 AND 0xf0 = 0x10"
    "in_net (ip4 q) [100, 64, 0, 0] 10 \<longleftrightarrow> q ! 0 = 100 \<and> q ! 1 AND 0xc0 = 0x40"
    unfolding in_net_octets u8_masks by simp_all
  show ?thesis unfolding ClassifyIPv4_def class_table_def meta nets by auto
qed

section \<open>Canonical dotted quads\<close>

lemma digit_chars:
  "digit_char 0 = CHR ''0''" "digit_char (Suc 0) = CHR ''1''" "digit_char 2 = CHR ''2''" "digit_char 3 = CHR ''3''" "digit_char 4 = CHR ''4''"
  "digit_char 5 = CHR ''5''" "digit_char 6 = CHR ''6''" "digit_char 7 = CHR ''7''" "digit_char 8 = CHR ''8''" "digit_char 9 = CHR ''9''"
  by code_simp+

definition dotted :: "u8 list \<Rightarrow> string" where
  "dotted q = to_dec (unat (q ! 0)) @ ''.'' @ to_dec (unat (q ! 1)) @ ''.'' @ to_dec (unat (q ! 2)) @ ''.'' @ to_dec (unat (q ! 3))"

definition ends_number :: "string \<Rightarrow> bool" where
  "ends_number rest \<longleftrightarrow> rest = [] \<or> \<not> is_digit (hd rest)"

lemma ipv4_digits_read:
  assumes "\<forall>c\<in>set ds. is_digit c" "ends_number rest" "foldl (\<lambda>acc c. acc * 10 + digit_val c) v ds \<le> 255"
  shows "ipv4_digits v k (ds @ rest) = Some (foldl (\<lambda>acc c. acc * 10 + digit_val c) v ds, k + length ds, rest)"
  using assms
proof (induction ds arbitrary: v k)
  case Nil
  then show ?case by (cases rest) (simp_all add: ends_number_def)
next
  case (Cons d ds)
  then have "v * 10 + digit_val d \<le> 255" using foldl_dec_mono [of "v * 10 + digit_val d" ds] by simp
  then show ?case using Cons by (simp add: Let_def)
qed

lemma ipv4_digits_SomeD:
  assumes "ipv4_digits v k str = Some (v', k', rest)" "v \<le> 255"
  shows "\<exists>ds. str = ds @ rest \<and> (\<forall>c\<in>set ds. is_digit c) \<and> ends_number rest \<and> k' = k + length ds \<and>
    v' = foldl (\<lambda>acc c. acc * 10 + digit_val c) v ds \<and> v' \<le> 255"
  using assms
proof (induction v k str rule: ipv4_digits.induct)
  case (2 v k c cs)
  show ?case
  proof (cases "is_digit c")
    case True
    then obtain ds where "cs = ds @ rest" "\<forall>c\<in>set ds. is_digit c" "ends_number rest" "k' = k + 1 + length ds"
      "v' = foldl (\<lambda>acc c. acc * 10 + digit_val c) (v * 10 + digit_val c) ds" "v' \<le> 255"
      using 2 by (auto simp: Let_def split: if_splits)
    then show ?thesis using True by (intro exI [of _ "c # ds"]) simp
  qed (use 2 in \<open>auto simp: ends_number_def\<close>)
qed (simp add: ends_number_def)

lemma ipv4_part_iff: "ipv4_part str = Some (b, rest) \<longleftrightarrow> str = to_dec (unat b) @ rest \<and> ends_number rest"
proof
  assume "ipv4_part str = Some (b, rest)"
  then obtain v k where d: "ipv4_digits 0 0 str = Some (v, k, rest)" "0 < k" "k > 1 \<longrightarrow> hd str \<noteq> CHR ''0''" "b = of_nat v"
    by (auto simp: ipv4_part_def split: option.splits if_splits prod.splits)
  obtain ds where ds: "str = ds @ rest" "\<forall>c\<in>set ds. is_digit c" "ends_number rest" "k = length ds" "v = dec_value ds" "v \<le> 255"
    using ipv4_digits_SomeD [OF d(1)] by (auto simp: dec_value_def)
  have "ds \<noteq> []" using d(2) ds(4) by auto
  then have "to_dec v = ds" using to_dec_dec_value [of ds] d(3) ds by simp
  moreover have "unat b = v" using d(4) ds(6) by (simp add: unat_of_nat)
  ultimately show "str = to_dec (unat b) @ rest \<and> ends_number rest" using ds by simp
next
  assume *: "str = to_dec (unat b) @ rest \<and> ends_number rest"
  have le: "unat b \<le> 255" using unat_u8_less [of b] by linarith
  have len: "0 < length (to_dec (unat b))" "length (to_dec (unat b)) \<le> 3"
    using length_to_dec [of "unat b" 3] le by simp_all
  have "ipv4_digits 0 0 str = Some (unat b, length (to_dec (unat b)), rest)"
    using ipv4_digits_read [of "to_dec (unat b)" rest 0 0] * to_dec_digits le by (simp add: dec_value_def [symmetric])
  then show "ipv4_part str = Some (b, rest)"
    using len to_dec_canonical [of "unat b"] * by (auto simp: ipv4_part_def)
qed

lemma ends_number_dot [simp]: "ends_number (CHR ''.'' # s)" "ends_number []"
  by (simp_all add: ends_number_def is_digit_ord ord_def)

lemma ipv4_parts_end: "part \<ge> 4 \<Longrightarrow> ipv4_parts part str = Some (qs, rest) \<longleftrightarrow> qs = [] \<and> rest = str"
  by (subst ipv4_parts.simps) auto

lemma ipv4_parts_first:
  "ipv4_parts 0 str = Some (qs, rest) \<longleftrightarrow>
    (\<exists>b bs r. qs = b # bs \<and> ipv4_part str = Some (b, r) \<and> ipv4_parts 1 r = Some (bs, rest))"
  by (subst ipv4_parts.simps) (auto split: option.splits prod.splits)

lemma ipv4_parts_next:
  assumes "0 < part" "part < 4" "succ = part + 1"
  shows "ipv4_parts part str = Some (qs, rest) \<longleftrightarrow>
    (\<exists>s b bs r. str = CHR ''.'' # s \<and> qs = b # bs \<and> ipv4_part s = Some (b, r) \<and> ipv4_parts succ r = Some (bs, rest))"
proof (cases "str = [] \<or> hd str \<noteq> CHR ''.''")
  case True
  then show ?thesis using assms by (subst ipv4_parts.simps) auto
next
  case False
  then obtain s where "str = CHR ''.'' # s" by (cases str) auto
  then show ?thesis using assms by (subst ipv4_parts.simps) (auto split: option.splits prod.splits)
qed

lemmas ipv4_parts_steps = ipv4_parts_first [unfolded ipv4_part_iff] ipv4_parts_next [of 1 2, unfolded ipv4_part_iff, OF zero_less_one]
  ipv4_parts_next [of 2 3, unfolded ipv4_part_iff, OF zero_less_numeral] ipv4_parts_next [of 3 4, unfolded ipv4_part_iff, OF zero_less_numeral]

lemma ipv4_parts_all:
  "ipv4_parts 0 str = Some (q, []) \<longleftrightarrow> (\<exists>a b c d. q = [a, b, c, d] \<and> str = dotted [a, b, c, d])" (is "?l \<longleftrightarrow> ?r")
proof -
  have n: "(1 :: nat) < 4" "(2 :: nat) < 4" "(3 :: nat) < 4" "(2 :: nat) = 1 + 1" "(3 :: nat) = 2 + 1" "(4 :: nat) = 3 + 1" by simp_all
  note steps = ipv4_parts_steps(1) ipv4_parts_steps(2) [OF n(1,4)] ipv4_parts_steps(3) [OF n(2,5)] ipv4_parts_steps(4) [OF n(3,6)]
    ipv4_parts_end [OF order.refl]
  show ?thesis
  proof
    assume ?l
    then show ?r unfolding steps dotted_def by auto
  next
    assume ?r
    then show ?l unfolding steps dotted_def by (elim exE conjE, intro exI conjI) (assumption | simp)+
  qed
qed

lemma ParseIPv4_iff: "ParseIPv4 str = Some q \<longleftrightarrow> length q = 4 \<and> str = dotted q"
proof -
  have "ParseIPv4 str = Some q \<longleftrightarrow> ipv4_parts 0 str = Some (q, [])"
    by (auto simp: ParseIPv4_def split: option.splits list.splits)
  also have "\<dots> \<longleftrightarrow> (\<exists>a b c d. q = [a, b, c, d] \<and> str = dotted [a, b, c, d])" by (rule ipv4_parts_all)
  also have "\<dots> \<longleftrightarrow> length q = 4 \<and> str = dotted q"
    by (auto simp: numeral_eq_Suc length_Suc_conv)
  finally show ?thesis .
qed

text \<open>
  The dotted-quad parser accepts exactly the canonical spelling of each address:
  what it reads prints back as the text it was given, and every printed address is read.
\<close>

theorem ParseIPv4_canonical: "ParseIPv4 str = Some q \<longleftrightarrow> length q = 4 \<and> str = dotted q"
  by (rule ParseIPv4_iff)

section \<open>Addresses that carry an IPv4 address\<close>

lemma quad_cases:
  assumes "length q = 4"
  obtains a b c d where "q = [a, b, c, d]"
  using assms by (auto simp: numeral_eq_Suc length_Suc_conv)

lemma zeros:
  "replicate 8 (0 :: u8) = [0, 0, 0, 0, 0, 0, 0, 0]" "replicate 10 (0 :: u8) = [0, 0, 0, 0, 0, 0, 0, 0, 0, 0]"
  "replicate 12 (0 :: u8) = [0, 0, 0, 0, 0, 0, 0, 0, 0, 0, 0, 0]"
  by (simp_all add: numeral_eq_Suc)

lemma indices: "[0..<10] = [0, 1, 2, 3, 4, 5, 6, 7, 8, 9]" "[0..<12] = [0, 1, 2, 3, 4, 5, 6, 7, 8, 9, 10, 11]"
  by (simp_all add: upt_rec)

lemmas classify_eval = ClassifyIPv6_def AllZero_def TrailingIPv4_def zeros indices

lemma ClassifyIPv6_compatible: "length q = 4 \<Longrightarrow> ClassifyIPv6 (replicate 12 0 @ q) = ClassifyIPv4 q"
proof (erule quad_cases)
  fix a b c d
  assume q: "q = [a, b, c, d]"
  have "ClassifyIPv4 [0, 0, 0, d] = Loopback" by (simp add: ClassifyIPv4_def IsMetadataIPv4_def kKnown_def)
  then show "ClassifyIPv6 (replicate 12 0 @ q) = ClassifyIPv4 q"
    by (auto simp: q classify_eval)
qed

lemma ClassifyIPv6_mapped: "length q = 4 \<Longrightarrow> ClassifyIPv6 (replicate 10 0 @ [0xff, 0xff] @ q) = ClassifyIPv4 q"
  by (erule quad_cases) (simp add: classify_eval)

lemma ClassifyIPv6_nat64: "length q = 4 \<Longrightarrow> ClassifyIPv6 ([0, 0x64, 0xff, 0x9b] @ replicate 8 0 @ q) = ClassifyIPv4 q"
  by (erule quad_cases) (simp add: classify_eval)

lemma dotted_chars: "c \<in> set (dotted q) \<Longrightarrow> is_digit c \<or> c = CHR ''.''"
  by (auto simp: dotted_def dest: to_dec_digits)

lemma dotted_plain:
  "CHR '':'' \<notin> set (dotted q)" "CHR ''%'' \<notin> set (dotted q)" "CHR '']'' \<notin> set (dotted q)" "CHR ''.'' \<in> set (dotted q)" "dotted q \<noteq> []"
  by (auto dest!: dotted_chars simp: is_digit_ord ord_def) (simp_all add: dotted_def)

lemma dotted_ends: "hd (dotted q) \<noteq> CHR ''[''" "last (dotted q) \<noteq> CHR ''.''" "hd (dotted q) \<noteq> CHR '':''"
proof -
  have "is_digit (hd (dotted q))" "is_digit (last (dotted q))"
    by (auto simp: dotted_def intro!: to_dec_digits hd_in_set last_in_set)
  then show "hd (dotted q) \<noteq> CHR ''[''" "last (dotted q) \<noteq> CHR ''.''" "hd (dotted q) \<noteq> CHR '':''"
    by (auto simp: is_digit_ord ord_def)
qed

lemma find_char_absent: "x \<notin> set s \<Longrightarrow> find_index (\<lambda>c. c = x) s = None"
  by (rule find_index_NoneI) auto

lemma no_double_colon: "CHR '':'' \<notin> set s \<Longrightarrow> find_sub ''::'' s = None"
  by (induction s) auto

lemma quad_groups:
  "group_bytes [push_bit 8 (ucast (a :: u8)) OR ucast (b :: u8), push_bit 8 (ucast (c :: u8)) OR ucast (d :: u8)] = [a, b, c, d]"
proof -
  have "ucast (drop_bit 8 (push_bit 8 (ucast (x :: u8)) OR ucast (y :: u8) :: u16)) = x"
    "ucast ((push_bit 8 (ucast x) OR ucast y :: u16) AND 0xff) = y" for x y
  proof -
    have m: "(0xff :: u16) = mask 8" by (simp add: mask_eq_exp_minus_1)
    show "ucast (drop_bit 8 (push_bit 8 (ucast x) OR ucast y :: u16)) = x"
      by (rule bit_word_eqI) (auto simp: bit_simps dest: bit_imp_le_length)
    show "ucast ((push_bit 8 (ucast x) OR ucast y :: u16) AND 0xff) = y" unfolding m by (rule bit_word_eqI) (auto simp: bit_simps)
  qed
  then show ?thesis by (simp add: group_bytes_def)
qed

lemma group_loop_quad:
  assumes "length q = 4" "length acc + 2 \<le> capacity"
  shows "\<exists>g. group_loop capacity True acc (dotted q) = Some (acc @ g) \<and> group_bytes g = q \<and> length g = 2"
proof -
  obtain a b c d where q: "q = [a, b, c, d]" using quad_cases [OF assms(1)] .
  have "find_index (\<lambda>c. c = CHR ''.'') (dotted q) \<noteq> None" using dotted_plain(4) by (auto simp: find_index_None)
  then show ?thesis
    using assms(2) ParseIPv4_iff [of "dotted q" q] quad_groups [of a b c d]
    by (subst group_loop.simps) (simp add: q find_char_absent dotted_plain)
qed

lemma group_loop_hex:
  assumes "part \<noteq> []" "length part \<le> 4" "CHR '':'' \<notin> set part" "CHR ''.'' \<notin> set part" "hex_group 0 part = Some v"
    and "length acc + 1 \<le> capacity"
  shows "group_loop capacity allow acc (part @ CHR '':'' # rest) = group_loop capacity allow (acc @ [of_nat v]) rest"
    "group_loop capacity allow acc part = Some (acc @ [of_nat v])"
proof -
  have f: "find_index (\<lambda>c. c = CHR '':'') (part @ CHR '':'' # rest) = Some (length part)"
    by (rule find_index_append) (use assms(3) in auto)
  show "group_loop capacity allow acc (part @ CHR '':'' # rest) = group_loop capacity allow (acc @ [of_nat v]) rest"
    using assms by (subst group_loop.simps) (simp add: f find_char_absent)
  show "group_loop capacity allow acc part = Some (acc @ [of_nat v])"
    using assms by (subst group_loop.simps) (simp add: find_char_absent)
qed

lemma ParseIPv6_compressed:
  assumes "length q = 4" "ParseGroups pre 8 False = Some heads" "find_sub ''::'' (pre @ ''::'' @ mid @ dotted q) = Some (length pre)"
    and "find_sub ''::'' (CHR '':'' # mid @ dotted q) = None" "length heads + length mids \<le> 5"
    and "group_loop 8 True [] (mid @ dotted q) = group_loop 8 True mids (dotted q)"
  shows "ParseIPv6 (pre @ ''::'' @ mid @ dotted q) =
    Some (group_bytes heads @ group_bytes (replicate (6 - length mids - length heads) 0 @ mids) @ q)"
proof -
  obtain g where g: "group_loop 8 True mids (dotted q) = Some (mids @ g)" "group_bytes g = q" "length g = 2"
    using group_loop_quad [OF assms(1), of mids 8] assms(5) by auto
  have "ParseGroups (mid @ dotted q) 8 True = Some (mids @ g)"
    using g assms(6) dotted_plain(5) by (simp add: ParseGroups_def)
  then show ?thesis using assms g by (simp add: ParseIPv6_def group_bytes_def)
qed

lemma bracketed: "CHR ''%'' \<notin> set s \<Longrightarrow> ClassifyHostLiteral (CHR ''['' # s @ '']'') = map_option ClassifyIPv6 (ParseIPv6 s)"
  by (simp add: ClassifyHostLiteral_def find_char_absent butlast_append)

lemma HexValue_eval: "HexValue c = (if is_digit c then Some (ord c - 48) else if 97 \<le> ord c \<and> ord c \<le> 102 then Some (ord c - 87)
    else if 65 \<le> ord c \<and> ord c \<le> 70 then Some (ord c - 55) else None)"
  by (simp add: HexValue_def char_simps) (simp add: ord_def)

lemmas hex_eval = HexValue_eval is_digit_ord ord_def

lemma zero_groups:
  "group_bytes (replicate 6 0) = replicate 12 0" "group_bytes (replicate 5 0 @ gs) = replicate 10 0 @ group_bytes gs"
  "group_bytes (replicate 4 0) = replicate 8 0"
  by (simp_all add: group_bytes_def numeral_eq_Suc)

lemma ParseIPv6_spellings:
  assumes "length q = 4"
  shows "ParseIPv6 (''::'' @ dotted q) = Some (replicate 12 0 @ q)"
    "ParseIPv6 (''::ffff:'' @ dotted q) = Some (replicate 10 0 @ [0xff, 0xff] @ q)"
    "ParseIPv6 (''64:ff9b::'' @ dotted q) = Some ([0, 0x64, 0xff, 0x9b] @ replicate 8 0 @ q)"
proof -
  have absent: "find_sub ''::'' (dotted q) = None" by (rule no_double_colon [OF dotted_plain(1)])
  then have "find_sub ''::'' (CHR '':'' # dotted q) = None"
    using dotted_ends(3) [of q] dotted_plain(5) [of q] by (cases "dotted q") simp_all
  note absent = absent this
  show "ParseIPv6 (''::'' @ dotted q) = Some (replicate 12 0 @ q)"
    using ParseIPv6_compressed [OF assms, of "[]" "[]" "[]" "[]"] absent by (simp add: ParseGroups_def zero_groups) (simp add: group_bytes_def)
  have "group_loop 8 True [] (''ffff:'' @ dotted q) = group_loop 8 True [0xffff] (dotted q)"
    using group_loop_hex(1) [of "''ffff''" 65535 "[]" 8 True "dotted q"] by (simp add: hex_eval)
  then show "ParseIPv6 (''::ffff:'' @ dotted q) = Some (replicate 10 0 @ [0xff, 0xff] @ q)"
    using ParseIPv6_compressed [OF assms, of "[]" "[]" "''ffff:''" "[0xffff]"] absent
    by (simp add: ParseGroups_def zero_groups) (simp add: group_bytes_def)
  have "group_loop 8 False [] (''64:ff9b'') = Some [0x64, 0xff9b]"
    using group_loop_hex(1) [of "''64''" 100 "[]" 8 False "''ff9b''"] group_loop_hex(2) [of "''ff9b''" 65435 "[0x64]" 8 False]
    by (simp add: hex_eval)
  then show "ParseIPv6 (''64:ff9b::'' @ dotted q) = Some ([0, 0x64, 0xff, 0x9b] @ replicate 8 0 @ q)"
    using ParseIPv6_compressed [OF assms, of "''64:ff9b''" "[0x64, 0xff9b]" "[]" "[]"] absent
    by (simp add: ParseGroups_def zero_groups) (simp add: group_bytes_def)
qed



end
