(* ===== verification/Transport.thy ===== *)
theory Transport
  imports Destination
begin

text \<open>
  \<open>libs/usd-asset-http\<close>: the transport seam (\<open>Transport.h\<close>, \<open>Transport.cpp\<close>): header tables,
  transport errors, and the request and response of one exchange. The body buffer of a
  request is its capacity; the bytes a transport wrote into it are part of its answer.
\<close>

section \<open>Header tables\<close>

type_synonym HeaderTable = "(string \<times> string) list"

text \<open>
  The comparison loop stops at the first difference; its answer is that the lower-case
  characters agree one by one.
\<close>

definition EqualsIgnoringCase :: "string \<Rightarrow> string \<Rightarrow> bool" where
  "EqualsIgnoringCase a b \<longleftrightarrow> (if length a \<noteq> length b then False else list_all2 (\<lambda>x y. to_lower x = to_lower y) a b)"

definition HeaderTable_Add :: "string \<Rightarrow> string \<Rightarrow> HeaderTable \<Rightarrow> HeaderTable" where
  "HeaderTable_Add name v h = h @ [(name, v)]"

definition HeaderTable_Find :: "string \<Rightarrow> HeaderTable \<Rightarrow> string option" where
  "HeaderTable_Find name h = foldl (\<lambda>found entry. if EqualsIgnoringCase (fst entry) name then Some (snd entry) else found) None h"

fun conflict_loop :: "string \<Rightarrow> string option \<Rightarrow> HeaderTable \<Rightarrow> bool" where
  "conflict_loop name first [] = False"
| "conflict_loop name first (entry # es) =
    (if \<not> EqualsIgnoringCase (fst entry) name then conflict_loop name first es
     else case first of
            None \<Rightarrow> conflict_loop name (Some (snd entry)) es
          | Some v \<Rightarrow> if v \<noteq> snd entry then True else conflict_loop name first es)"

definition HasConflictingDuplicate :: "string \<Rightarrow> HeaderTable \<Rightarrow> bool" where
  "HasConflictingDuplicate name h = conflict_loop name None h"

definition HeaderTable_Get :: "string \<Rightarrow> HeaderTable \<Rightarrow> string" where
  "HeaderTable_Get name h = (case HeaderTable_Find name h of None \<Rightarrow> [] | Some v \<Rightarrow> v)"

section \<open>Requests and responses\<close>

datatype TransportError = TE_None | ConnectFailed | ConnectTimeout | ResponseTimeout | TransferTimeout | ConnectionLost
  | IncompleteBody | Malformed | HeadersTooLarge | DestinationRefused | Internal

primrec TransportErrorName :: "TransportError \<Rightarrow> string" where
  "TransportErrorName TE_None = ''None''"
| "TransportErrorName ConnectFailed = ''ConnectFailed''"
| "TransportErrorName ConnectTimeout = ''ConnectTimeout''"
| "TransportErrorName ResponseTimeout = ''ResponseTimeout''"
| "TransportErrorName TransferTimeout = ''TransferTimeout''"
| "TransportErrorName ConnectionLost = ''ConnectionLost''"
| "TransportErrorName IncompleteBody = ''IncompleteBody''"
| "TransportErrorName Malformed = ''Malformed''"
| "TransportErrorName HeadersTooLarge = ''HeadersTooLarge''"
| "TransportErrorName DestinationRefused = ''DestinationRefused''"
| "TransportErrorName Internal = ''Internal''"

definition kMaxResponseHeaderBytes :: nat where
  "kMaxResponseHeaderBytes = 64 * 1024"

datatype Method = Get | Head

record Timeouts =
  connectMs :: int
  responseMs :: int
  transferMs :: int

record RequestHeader =
  rh_name :: string
  rh_value :: string

record TransportRequest =
  rq_url :: string
  rq_method :: Method
  rq_range :: string
  rq_ifRange :: string
  rq_userAgent :: string
  rq_headers :: "RequestHeader list"
  rq_timeouts :: Timeouts
  rq_destinations :: DestinationPolicy
  rq_hasBody :: bool
  rq_bodyCapacity :: u64

record TransportResponse =
  rs_status :: int
  rs_headers :: HeaderTable
  rs_bodyBytes :: u64
  rs_bodyOverflowed :: bool
  rs_error :: TransportError
  rs_connected :: bool
  rs_refusedClass :: "AddressClass option"

definition TransportResponse_empty :: TransportResponse where
  "TransportResponse_empty = \<lparr>rs_status = 0, rs_headers = [], rs_bodyBytes = 0, rs_bodyOverflowed = False, rs_error = TE_None,
     rs_connected = False, rs_refusedClass = None\<rparr>"

text \<open>
  A transport issues one request: its answer is the response, the bytes it wrote into the
  body buffer and the microseconds the exchange took; the world is whatever it talks to.
\<close>

type_synonym 'w transport = "TransportRequest \<Rightarrow> 'w \<Rightarrow> (TransportResponse \<times> bytes \<times> u64) \<times> 'w"

text \<open>What a transport promises: the body never exceeds the caller's buffer, and is counted exactly.\<close>

locale transport =
  fixes perform :: "'w transport"
  assumes body_counted: "perform req w = ((resp, body, us), w') \<Longrightarrow> length body = unat (rs_bodyBytes resp)"
    and body_bounded: "perform req w = ((resp, body, us), w') \<Longrightarrow> length body \<le> unat (rq_bodyCapacity req)"
begin

lemma no_body: "perform req w = ((resp, body, us), w') \<Longrightarrow> rq_bodyCapacity req = 0 \<Longrightarrow> body = [] \<and> rs_bodyBytes resp = 0"
  using body_counted body_bounded by fastforce

end

section \<open>Lookup\<close>

lemma EqualsIgnoringCase_iff: "EqualsIgnoringCase a b \<longleftrightarrow> map to_lower a = map to_lower b"
proof (cases "length a = length b")
  case True
  then show ?thesis by (auto simp: EqualsIgnoringCase_def list_all2_conv_all_nth list_eq_iff_nth_eq)
next
  case False
  then show ?thesis by (metis EqualsIgnoringCase_def length_map)
qed

lemma HeaderTable_Find_Nil [simp]: "HeaderTable_Find name [] = None"
  by (simp add: HeaderTable_Find_def)

lemma HeaderTable_Find_Add [simp]:
  "HeaderTable_Find name (HeaderTable_Add n v h) = (if EqualsIgnoringCase n name then Some v else HeaderTable_Find name h)"
  by (simp add: HeaderTable_Find_def HeaderTable_Add_def)

lemma conflict_loop_Some:
  "conflict_loop name (Some v) h \<longleftrightarrow> (\<exists>n u. (n, u) \<in> set h \<and> EqualsIgnoringCase n name \<and> u \<noteq> v)"
proof (induction h)
  case (Cons e h)
  obtain n u where e: "e = (n, u)" by (cases e)
  show ?case using Cons by (cases "EqualsIgnoringCase n name") (simp_all add: e, metis, metis)
qed simp

lemma conflict_loop_iff:
  "conflict_loop name None h \<longleftrightarrow>
    (\<exists>n v m u. (n, v) \<in> set h \<and> (m, u) \<in> set h \<and> EqualsIgnoringCase n name \<and> EqualsIgnoringCase m name \<and> v \<noteq> u)"
proof (induction h)
  case (Cons e h)
  obtain n v where e: "e = (n, v)" by (cases e)
  show ?case
  proof (cases "EqualsIgnoringCase n name")
    case True
    have "conflict_loop name None (e # h) \<longleftrightarrow> (\<exists>m u. (m, u) \<in> set h \<and> EqualsIgnoringCase m name \<and> u \<noteq> v)"
      by (simp add: e True conflict_loop_Some)
    then show ?thesis unfolding e using True by simp metis
  next
    case False
    then show ?thesis using Cons by (simp add: e) blast
  qed
qed simp

lemma HeaderTable_Find_SomeD:
  assumes "HeaderTable_Find name h = Some v"
  shows "\<exists>n. (n, v) \<in> set h \<and> EqualsIgnoringCase n name"
  using assms unfolding HeaderTable_Find_def
proof (induction h rule: rev_induct)
  case (snoc e h)
  then show ?case by (cases e) (auto split: if_splits)
qed simp

text \<open>Without a conflict every occurrence of a field has the value a lookup returns.\<close>

lemma no_conflict_agree:
  assumes "\<not> HasConflictingDuplicate name h" "(n, v) \<in> set h" "EqualsIgnoringCase n name" "HeaderTable_Find name h = Some u"
  shows "v = u"
  using assms(1-3) HeaderTable_Find_SomeD [OF assms(4)] unfolding HasConflictingDuplicate_def conflict_loop_iff by blast

end
