(* ===== verification/Validator.thy ===== *)
theory Validator
  imports Prelude
begin

text \<open>
  \<open>libs/usd-asset-io\<close>: the validator value types (\<open>Validator.h\<close>, \<open>Validator.cpp\<close>).
  \<open>operator==\<close> on validators is equality of all three fields, which is equality
  of the record.
\<close>

datatype ValidatorKind = VK_None | EntityTag | HttpDate | Derived

datatype ValidatorStrength = VS_None | Weak | Strong

datatype IdentityStability = Stable | Unstable | Unavailable

record Validator =
  v_value :: string
  v_kind :: ValidatorKind
  v_strength :: ValidatorStrength

definition Validator_none :: Validator where
  "Validator_none = \<lparr>v_value = '''', v_kind = VK_None, v_strength = VS_None\<rparr>"

definition IsUsable :: "Validator \<Rightarrow> bool" where
  "IsUsable v \<longleftrightarrow> v_kind v \<noteq> VK_None"

definition Validator_eq :: "Validator \<Rightarrow> Validator \<Rightarrow> bool" where
  "Validator_eq lhs rhs \<longleftrightarrow>
     v_kind lhs = v_kind rhs \<and> v_strength lhs = v_strength rhs \<and> v_value lhs = v_value rhs"

definition ClassifyStability :: "Validator \<Rightarrow> IdentityStability" where
  "ClassifyStability validator =
    (if \<not> IsUsable validator then Unavailable
     else case v_strength validator of
        Strong \<Rightarrow> Stable
      | Weak \<Rightarrow> Unstable
      | VS_None \<Rightarrow> Unavailable)"

fun ValidatorKindName :: "ValidatorKind \<Rightarrow> string" where
  "ValidatorKindName VK_None = ''None''"
| "ValidatorKindName EntityTag = ''EntityTag''"
| "ValidatorKindName HttpDate = ''HttpDate''"
| "ValidatorKindName Derived = ''Derived''"

fun ValidatorStrengthName :: "ValidatorStrength \<Rightarrow> string" where
  "ValidatorStrengthName VS_None = ''None''"
| "ValidatorStrengthName Weak = ''Weak''"
| "ValidatorStrengthName Strong = ''Strong''"

fun IdentityStabilityName :: "IdentityStability \<Rightarrow> string" where
  "IdentityStabilityName Stable = ''Stable''"
| "IdentityStabilityName Unstable = ''Unstable''"
| "IdentityStabilityName Unavailable = ''Unavailable''"

lemma Validator_eq_iff [simp]: "Validator_eq v w \<longleftrightarrow> v = w"
  by (cases v; cases w) (auto simp: Validator_eq_def)

lemma ClassifyStability_Stable:
  "ClassifyStability v = Stable \<longleftrightarrow> IsUsable v \<and> v_strength v = Strong"
  by (simp add: ClassifyStability_def split: ValidatorStrength.split)

end
