(* ===== verification/Framing.thy ===== *)
theory Framing
  imports Transport Validator
begin

text \<open>
  \<open>libs/usd-asset-http\<close>: response framing (\<open>Framing.h\<close>, \<open>Framing.cpp\<close>): decimal lengths that
  refuse to wrap, \<open>Content-Range\<close>, the advertised range unit, and the validator a response
  carries. A parser returns \<open>None\<close> where the source returns false; what it left in its output
  argument is then never read.
\<close>

definition IsSpace :: "char \<Rightarrow> bool" where
  "IsSpace c \<longleftrightarrow> c = CHR '' '' \<or> c = CHR 0x09"

definition Trim :: "string \<Rightarrow> string" where
  "Trim str = trim_by IsSpace str"

fun unsigned_loop :: "u64 \<Rightarrow> string \<Rightarrow> u64 option" where
  "unsigned_loop v [] = Some v"
| "unsigned_loop v (c # cs) =
    (if \<not> is_digit c then None
     else let digit = of_nat (digit_val c)
          in if v > (u64_max - digit) div 10 then None else unsigned_loop (v * 10 + digit) cs)"

definition ParseUnsigned :: "string \<Rightarrow> u64 option" where
  "ParseUnsigned str = (if str = [] then None else unsigned_loop 0 str)"

function ListContainsToken :: "string \<Rightarrow> string \<Rightarrow> bool" where
  "ListContainsToken items token =
    (let comma = find_index (\<lambda>c. c = CHR '','') items;
         item = Trim (case comma of None \<Rightarrow> items | Some i \<Rightarrow> take i items)
     in if EqualsIgnoringCase item token then True
        else case comma of None \<Rightarrow> False | Some i \<Rightarrow> ListContainsToken (drop (i + 1) items) token)"
  by pat_completeness auto
termination
proof (relation "measure (\<lambda>(items, token). length items)", goal_cases)
  case (2 items token comma item i)
  then have "i < length items" using find_index_SomeD(1) by metis
  then show ?case by simp
qed simp

declare ListContainsToken.simps [simp del]

record ContentRange =
  cr_unsatisfied :: bool
  cr_first :: u64
  cr_last :: u64
  cr_hasCompleteLength :: bool
  cr_completeLength :: u64

definition ContentRange_Length :: "ContentRange \<Rightarrow> u64" where
  "ContentRange_Length cr = cr_last cr - cr_first cr + 1"

definition ContentRange_empty :: ContentRange where
  "ContentRange_empty = \<lparr>cr_unsatisfied = False, cr_first = 0, cr_last = 0, cr_hasCompleteLength = False, cr_completeLength = 0\<rparr>"

text \<open>The complete length after the slash: unknown, or a number.\<close>

definition complete_length :: "string \<Rightarrow> ContentRange option" where
  "complete_length complete =
    (if complete = ''*'' then Some (ContentRange_empty\<lparr>cr_hasCompleteLength := False\<rparr>)
     else case ParseUnsigned complete of
            None \<Rightarrow> None
          | Some n \<Rightarrow> Some (ContentRange_empty\<lparr>cr_completeLength := n, cr_hasCompleteLength := True\<rparr>))"

text \<open>The range before the slash.\<close>

definition range_spec :: "string \<Rightarrow> ContentRange \<Rightarrow> ContentRange option" where
  "range_spec spec out =
    (if spec = ''*'' then (if \<not> cr_hasCompleteLength out then None else Some (out\<lparr>cr_unsatisfied := True\<rparr>))
     else case find_index (\<lambda>c. c = CHR ''-'') spec of
            None \<Rightarrow> None
          | Some dash \<Rightarrow>
              (case (ParseUnsigned (take dash spec), ParseUnsigned (drop (dash + 1) spec)) of
                 (Some a, Some b) \<Rightarrow>
                   if b < a then None
                   else if cr_hasCompleteLength out \<and> b \<ge> cr_completeLength out then None
                   else Some (out\<lparr>cr_first := a, cr_last := b\<rparr>)
               | _ \<Rightarrow> None))"

definition ParseContentRange :: "string \<Rightarrow> ContentRange option" where
  "ParseContentRange value0 =
    (let v = Trim value0; kUnit = ''bytes''
     in if length v \<le> length kUnit then None
        else if take (length kUnit) v \<noteq> kUnit then None
        else if \<not> IsSpace (v ! length kUnit) then None
        else let v = Trim (drop (length kUnit) v)
             in case find_index (\<lambda>c. c = CHR ''/'') v of
                  None \<Rightarrow> None
                | Some slash \<Rightarrow>
                    let spec = Trim (take slash v); complete = Trim (drop (slash + 1) v)
                    in case complete_length complete of None \<Rightarrow> None | Some out \<Rightarrow> range_spec spec out)"

definition ParseContentLength :: "string \<Rightarrow> u64 option" where
  "ParseContentLength v = ParseUnsigned (Trim v)"

definition AdvertisesByteRanges :: "HeaderTable \<Rightarrow> bool" where
  "AdvertisesByteRanges headers =
    (case HeaderTable_Find ''Accept-Ranges'' headers of None \<Rightarrow> False | Some v \<Rightarrow> ListContainsToken v ''bytes'')"

record CapturedValidator =
  cv_validator :: Validator
  cv_ifRangeValue :: string

definition kEtag :: string where "kEtag = ''ETag''"

definition kLastModified :: string where "kLastModified = ''Last-Modified''"

definition trimmed_field :: "string \<Rightarrow> HeaderTable \<Rightarrow> string" where
  "trimmed_field name headers = (case HeaderTable_Find name headers of None \<Rightarrow> [] | Some v \<Rightarrow> Trim v)"

definition CaptureValidator :: "HeaderTable \<Rightarrow> CapturedValidator" where
  "CaptureValidator headers =
    (let etag = trimmed_field kEtag headers; modified = trimmed_field kLastModified headers
     in if etag \<noteq> [] then
          (let weak = (length etag \<ge> 2 \<and> etag ! 0 = CHR ''W'' \<and> etag ! 1 = CHR ''/'')
           in \<lparr>cv_validator = \<lparr>v_value = etag, v_kind = EntityTag, v_strength = (if weak then Weak else Strong)\<rparr>,
               cv_ifRangeValue = (if weak then [] else etag)\<rparr>)
        else if modified \<noteq> [] then
          \<lparr>cv_validator = \<lparr>v_value = modified, v_kind = HttpDate, v_strength = Weak\<rparr>, cv_ifRangeValue = modified\<rparr>
        else \<lparr>cv_validator = Validator_none, cv_ifRangeValue = []\<rparr>)"

definition ContradictsCapturedValidator :: "HeaderTable \<Rightarrow> Validator \<Rightarrow> bool" where
  "ContradictsCapturedValidator headers captured =
    (if \<not> IsUsable captured then False
     else if v_kind captured = EntityTag then
       (case HeaderTable_Find kEtag headers of None \<Rightarrow> False | Some etag \<Rightarrow> Trim etag \<noteq> v_value captured)
     else if v_kind captured = HttpDate then
       (case HeaderTable_Find kLastModified headers of None \<Rightarrow> False | Some modified \<Rightarrow> Trim modified \<noteq> v_value captured)
     else False)"

definition FormatByteRange :: "u64 \<Rightarrow> u64 \<Rightarrow> string" where
  "FormatByteRange offset len = ''bytes='' @ to_dec (unat offset) @ ''-'' @ to_dec (unat (offset + len - 1))"

section \<open>Decimal lengths\<close>

lemma overflow_guard:
  assumes "d < 10"
  shows "v > (u64_max - of_nat d) div 10 \<longleftrightarrow> 2 ^ 64 \<le> unat v * 10 + d"
proof -
  have "unat (u64_max - of_nat d :: u64) = 2 ^ 64 - 1 - d"
    using assms by (subst unat_u64_sub) (simp_all add: word_le_nat_alt)
  then have "unat ((u64_max - of_nat d) div 10 :: u64) = (2 ^ 64 - 1 - d) div 10"
    by (simp add: unat_div)
  then have "v > (u64_max - of_nat d) div 10 \<longleftrightarrow> (2 ^ 64 - 1 - d) div 10 < unat v" by (simp add: word_less_nat_alt)
  also have "\<dots> \<longleftrightarrow> 2 ^ 64 \<le> unat v * 10 + d" using assms by (simp add: div_less_iff_less_mult) linarith
  finally show ?thesis .
qed

lemma unsigned_loop_spec:
  "unsigned_loop v str = Some n \<longleftrightarrow> (\<forall>c\<in>set str. is_digit c) \<and>
     foldl (\<lambda>acc c. acc * 10 + digit_val c) (unat v) str < 2 ^ 64 \<and>
     unat n = foldl (\<lambda>acc c. acc * 10 + digit_val c) (unat v) str"
proof (induction v str rule: unsigned_loop.induct)
  case (1 v)
  show ?case by (auto simp: word_unat_eq_iff)
next
  case (2 v c cs)
  show ?case
  proof (cases "is_digit c")
    case True
    note d = digit_val_less [OF True]
    show ?thesis
    proof (cases "2 ^ 64 \<le> unat v * 10 + digit_val c")
      case over: True
      then show ?thesis using foldl_dec_mono [of "unat v * 10 + digit_val c" cs] by (simp add: True overflow_guard [OF d])
    next
      case False
      then have "unat (v * 10 + of_nat (digit_val c)) = unat v * 10 + digit_val c"
        using d by (subst unat_u64_add) (simp_all add: unat_u64_mult)
      then show ?thesis using 2 [OF _ refl] True False overflow_guard [OF d, of v] by simp
    qed
  qed simp
qed

lemma ParseUnsigned_iff:
  "ParseUnsigned str = Some n \<longleftrightarrow> str \<noteq> [] \<and> (\<forall>c\<in>set str. is_digit c) \<and> dec_value str < 2 ^ 64 \<and> unat n = dec_value str"
  by (auto simp: ParseUnsigned_def unsigned_loop_spec dec_value_def)

lemma ParseUnsigned_to_dec [simp]: "ParseUnsigned (to_dec (unat n)) = Some n"
  using to_dec_digits by (auto simp: ParseUnsigned_iff)

text \<open>
  A decimal length is accepted exactly when it is a non-empty run of digits whose
  value fits in 64 bits, and then it is read as that value: no length wraps.
\<close>

theorem ParseUnsigned_exact:
  "ParseUnsigned str = Some n \<longleftrightarrow> str \<noteq> [] \<and> list_all is_digit str \<and> dec_value str < 2 ^ 64 \<and> unat n = dec_value str"
  by (simp add: ParseUnsigned_iff list_all_iff)

section \<open>Content ranges\<close>

definition range_text :: "u64 \<Rightarrow> u64 \<Rightarrow> u64 option \<Rightarrow> string" where
  "range_text a b n = ''bytes '' @ to_dec (unat a) @ ''-'' @ to_dec (unat b) @ ''/'' @
     (case n of None \<Rightarrow> ''*'' | Some k \<Rightarrow> to_dec (unat k))"

lemma Trim_id: "s \<noteq> [] \<Longrightarrow> \<not> IsSpace (hd s) \<Longrightarrow> \<not> IsSpace (last s) \<Longrightarrow> Trim s = s"
  by (simp add: Trim_def trim_by_id)

lemma digit_not_space: "is_digit c \<Longrightarrow> \<not> IsSpace c \<and> c \<noteq> CHR ''/'' \<and> c \<noteq> CHR ''-'' \<and> c \<noteq> CHR ''*''"
  by (auto simp: IsSpace_def is_digit_ord ord_def)

lemma to_dec_no_space:
  "\<not> IsSpace (hd (to_dec n))" "\<not> IsSpace (last (to_dec n))" "CHR ''/'' \<notin> set (to_dec n)" "CHR ''-'' \<notin> set (to_dec n)"
  "to_dec n \<noteq> ''*''"
  using to_dec_digits [OF hd_in_set, of n] to_dec_digits [OF last_in_set, of n] to_dec_digits [of _ n] digit_not_space
  by auto fastforce+

lemma range_spec_text:
  assumes "a \<le> b" "cr_hasCompleteLength out \<longrightarrow> b < cr_completeLength out"
  shows "range_spec (to_dec (unat a) @ ''-'' @ to_dec (unat b)) out = Some (out\<lparr>cr_first := a, cr_last := b\<rparr>)"
proof -
  have "find_index (\<lambda>c. c = CHR ''-'') (to_dec (unat a) @ CHR ''-'' # to_dec (unat b)) = Some (length (to_dec (unat a)))"
    by (rule find_index_append) (use to_dec_no_space(4) in auto)
  moreover have "to_dec (unat a) @ CHR ''-'' # to_dec (unat b) \<noteq> ''*''" by (cases "to_dec (unat a)") auto
  ultimately show ?thesis using assms by (auto simp: range_spec_def not_le not_less)
qed

lemma ParseContentRange_text:
  assumes "a \<le> b" "\<forall>k. n = Some k \<longrightarrow> b < k"
  shows "ParseContentRange (range_text a b n) = Some \<lparr>cr_unsatisfied = False, cr_first = a, cr_last = b,
    cr_hasCompleteLength = (n \<noteq> None), cr_completeLength = (case n of None \<Rightarrow> 0 | Some k \<Rightarrow> k)\<rparr>"
proof -
  define spec where "spec = to_dec (unat a) @ ''-'' @ to_dec (unat b)"
  define complete where "complete = (case n of None \<Rightarrow> ''*'' | Some k \<Rightarrow> to_dec (unat k))"
  have c: "complete \<noteq> []" "\<not> IsSpace (hd complete)" "\<not> IsSpace (last complete)"
    using to_dec_no_space by (auto simp: complete_def IsSpace_def split: option.split)
  have s: "spec \<noteq> []" "\<not> IsSpace (hd spec)" "\<not> IsSpace (last spec)" "CHR ''/'' \<notin> set spec"
    using to_dec_no_space by (auto simp: spec_def)
  have str: "range_text a b n = ''bytes '' @ spec @ ''/'' @ complete"
    by (simp add: range_text_def spec_def complete_def)
  have t1: "Trim (range_text a b n) = range_text a b n"
    by (rule Trim_id) (use c in \<open>simp_all add: str IsSpace_def\<close>)
  have t2: "Trim (CHR '' '' # spec @ CHR ''/'' # complete) = spec @ CHR ''/'' # complete"
    using Trim_id [of "spec @ CHR ''/'' # complete"] c s by (simp add: Trim_def IsSpace_def)
  have slash: "find_index (\<lambda>c. c = CHR ''/'') (spec @ CHR ''/'' # complete) = Some (length spec)"
    by (rule find_index_append) (use s(4) in auto)
  have cl: "complete_length complete = Some (ContentRange_empty\<lparr>cr_hasCompleteLength := (n \<noteq> None),
      cr_completeLength := (case n of None \<Rightarrow> 0 | Some k \<Rightarrow> k)\<rparr>)"
    using to_dec_no_space(5) by (auto simp: complete_length_def complete_def ContentRange_empty_def split: option.split)
  have "ParseContentRange (range_text a b n) = range_spec spec (ContentRange_empty\<lparr>cr_hasCompleteLength := (n \<noteq> None),
      cr_completeLength := (case n of None \<Rightarrow> 0 | Some k \<Rightarrow> k)\<rparr>)"
    unfolding ParseContentRange_def Let_def t1 by (simp add: str IsSpace_def t2 slash Trim_id [OF c] Trim_id [OF s(1-3)] cl)
  then show ?thesis
    unfolding spec_def using assms
    by (subst (asm) range_spec_text) (auto simp: ContentRange_empty_def split: option.splits)
qed

lemma range_spec_sound:
  assumes "range_spec spec out = Some cr" "out = ContentRange_empty\<lparr>cr_hasCompleteLength := hc, cr_completeLength := n\<rparr>"
  shows "cr_hasCompleteLength cr = hc \<and> cr_completeLength cr = n \<and>
    (if cr_unsatisfied cr then hc else cr_first cr \<le> cr_last cr \<and> (hc \<longrightarrow> cr_last cr < n))"
  using assms by (auto simp: range_spec_def ContentRange_empty_def not_less not_le split: if_splits option.splits)

lemma ParseContentRange_sound:
  assumes "ParseContentRange v = Some cr"
  shows "if cr_unsatisfied cr then cr_hasCompleteLength cr
    else cr_first cr \<le> cr_last cr \<and> (cr_hasCompleteLength cr \<longrightarrow> cr_last cr < cr_completeLength cr)"
proof -
  obtain spec complete out where o: "complete_length complete = Some out" "range_spec spec out = Some cr"
    using assms by (auto simp: ParseContentRange_def Let_def split: if_splits option.splits)
  then obtain hc n where out: "out = ContentRange_empty\<lparr>cr_hasCompleteLength := hc, cr_completeLength := n\<rparr>"
    by (auto simp: complete_length_def ContentRange_empty_def split: if_splits option.splits)
  then show ?thesis using range_spec_sound [OF o(2) out] by (auto split: if_splits)
qed

lemma u64_range_end:
  fixes offset len sz :: u64
  assumes "0 < unat len" "unat offset + unat len \<le> unat sz"
  shows "offset \<le> offset + len - 1" "offset + len - 1 < sz" "offset + len - 1 - offset + 1 = len" "unat (offset + len - 1) = unat offset + unat len - 1"
proof -
  have "unat offset + unat len < 2 ^ 64" using le_less_trans [OF assms(2) unat_u64_less] by simp
  then have "unat (offset + len) = unat offset + unat len" by (rule unat_u64_add)
  moreover from this have "(1 :: u64) \<le> offset + len" using assms(1) by (simp add: word_le_nat_alt)
  ultimately show u: "unat (offset + len - 1) = unat offset + unat len - 1" by (simp add: unat_u64_sub)
  show "offset \<le> offset + len - 1" "offset + len - 1 < sz" using assms u by (simp_all add: word_le_nat_alt word_less_nat_alt)
  show "offset + len - 1 - offset + 1 = len" by simp
qed

text \<open>
  The answer a conforming server gives to the range request for a non-empty part of
  an asset is accepted, starts at the requested offset and has the requested length.
\<close>

theorem byte_range_answer:
  assumes "0 < unat len" "unat offset + unat len \<le> unat sz"
  shows "FormatByteRange offset len = ''bytes='' @ to_dec (unat offset) @ ''-'' @ to_dec (unat offset + unat len - 1) \<and>
    (\<exists>cr. ParseContentRange (''bytes '' @ to_dec (unat offset) @ ''-'' @ to_dec (unat offset + unat len - 1) @ ''/'' @ to_dec (unat sz)) =
       Some cr \<and> \<not> cr_unsatisfied cr \<and> cr_first cr = offset \<and> ContentRange_Length cr = len \<and>
       cr_hasCompleteLength cr \<and> cr_completeLength cr = sz)"
  using u64_range_end [OF assms] ParseContentRange_text [of offset "offset + len - 1" "Some sz"]
  by (simp add: FormatByteRange_def range_text_def ContentRange_Length_def)

theorem byte_range_answer_witness:
  "\<exists>cr. ParseContentRange ''bytes 4-8/9'' = Some cr \<and> cr_first cr = 4 \<and> ContentRange_Length cr = 5"
  using byte_range_answer [of 5 4 9] by (simp add: to_dec.simps digit_chars) blast

section \<open>Validators\<close>

text \<open>
  The validator captured from a response is not contradicted by that response, an
  \<open>If-Range\<close> value is kept exactly for a strong entity tag or a date, and it is then the
  validator's own text; a weak entity tag never becomes a conditional header.
\<close>

theorem CaptureValidator_guard:
  "\<not> ContradictsCapturedValidator h (cv_validator (CaptureValidator h)) \<and>
   (cv_ifRangeValue (CaptureValidator h) \<noteq> [] \<longleftrightarrow>
      v_kind (cv_validator (CaptureValidator h)) = EntityTag \<and> v_strength (cv_validator (CaptureValidator h)) = Strong \<or>
      v_kind (cv_validator (CaptureValidator h)) = HttpDate) \<and>
   cv_ifRangeValue (CaptureValidator h) \<in> {[], v_value (cv_validator (CaptureValidator h))} \<and>
   (IsUsable (cv_validator (CaptureValidator h)) \<longleftrightarrow> v_value (cv_validator (CaptureValidator h)) \<noteq> [])"
  by (auto simp: CaptureValidator_def ContradictsCapturedValidator_def trimmed_field_def Let_def Validator_none_def IsUsable_def
      split: option.splits)

end
