(* ===== verification/Uri.thy ===== *)
theory Uri
  imports Prelude
begin

text \<open>
  \<open>libs/usd-asset-http\<close>: URIs (\<open>Uri.h\<close>, \<open>Uri.cpp\<close>). Parsing returns the reason of a refusal or
  the URI; ports are natural numbers, bounded by the parser. The removal of dot segments
  is shown to agree with the string rewriting of RFC 3986, section 5.2.4; parsing and
  printing are inverse up to the default port.
\<close>

record Uri =
  scheme :: string
  userinfo :: string
  host :: string
  port :: nat
  uri_path :: string
  uri_query :: string
  hasQuery :: bool

definition Uri_empty :: Uri where
  "Uri_empty = \<lparr>scheme = [], userinfo = [], host = [], port = 0, uri_path = [], uri_query = [], hasQuery = False\<rparr>"

definition IsSecure :: "Uri \<Rightarrow> bool" where
  "IsSecure u \<longleftrightarrow> scheme u = ''https''"

definition DefaultPort :: "Uri \<Rightarrow> nat" where
  "DefaultPort u = (if IsSecure u then 443 else 80)"

definition LowerAscii :: "string \<Rightarrow> string" where
  "LowerAscii text = map to_lower text"

definition StripFragment :: "string \<Rightarrow> string" where
  "StripFragment text = (case find_index (\<lambda>c. c = CHR ''#'') text of None \<Rightarrow> text | Some hash \<Rightarrow> take hash text)"

fun parse_port :: "string \<Rightarrow> nat \<Rightarrow> string + nat" where
  "parse_port [] p = (if p = 0 then Inl ''URI port is out of range'' else Inr p)"
| "parse_port (c # cs) p =
    (if \<not> is_digit c then Inl ''URI port is not a number''
     else let p' = p * 10 + digit_val c
          in if p' > 65535 then Inl ''URI port is out of range'' else parse_port cs p')"

text \<open>The position of the colon before the port, if there is one.\<close>

definition port_colon :: "string \<Rightarrow> string + nat option" where
  "port_colon hostPort =
    (if hd hostPort = CHR ''['' then
       (case find_index (\<lambda>c. c = CHR '']'') hostPort of
          None \<Rightarrow> Inl ''URI has an unterminated IPv6 literal''
        | Some close \<Rightarrow>
            if close + 1 < length hostPort then
              (if hostPort ! (close + 1) \<noteq> CHR '':'' then Inl ''URI has trailing junk after an IPv6 literal''
               else Inr (Some (close + 1)))
            else Inr None)
     else Inr (find_index (\<lambda>c. c = CHR '':'') hostPort))"

definition ParseAuthority :: "string \<Rightarrow> Uri \<Rightarrow> string + Uri" where
  "ParseAuthority authority u =
    (let (user, hostPort) = (case rfind_index (\<lambda>c. c = CHR ''@'') authority of
           None \<Rightarrow> (userinfo u, authority)
         | Some at \<Rightarrow> (take at authority, drop (at + 1) authority))
     in if hostPort = [] then Inl ''URI has no host''
        else case port_colon hostPort of
          Inl e \<Rightarrow> Inl e
        | Inr None \<Rightarrow> Inr (u\<lparr>userinfo := user, host := LowerAscii hostPort, port := 0\<rparr>)
        | Inr (Some colon) \<Rightarrow>
            let u1 = u\<lparr>userinfo := user, host := LowerAscii (take colon hostPort)\<rparr>;
                portText = drop (colon + 1) hostPort
            in if portText = [] then Inr (u1\<lparr>port := 0\<rparr>)
               else case parse_port portText 0 of Inl e \<Rightarrow> Inl e | Inr p \<Rightarrow> Inr (u1\<lparr>port := p\<rparr>))"

definition SplitPathAndQuery :: "string \<Rightarrow> Uri \<Rightarrow> Uri" where
  "SplitPathAndQuery rest u =
    (case find_index (\<lambda>c. c = CHR ''?'') rest of
       None \<Rightarrow> u\<lparr>uri_path := (if rest = [] then ''/'' else rest), uri_query := [], hasQuery := False\<rparr>
     | Some question \<Rightarrow>
         let path = take question rest
         in u\<lparr>uri_path := (if path = [] then ''/'' else path), uri_query := drop (question + 1) rest, hasQuery := True\<rparr>)"

definition Authority :: "Uri \<Rightarrow> string" where
  "Authority u = host u @ (if port u \<noteq> 0 \<and> port u \<noteq> DefaultPort u then CHR '':'' # to_dec (port u) else [])"

definition Compose :: "Uri \<Rightarrow> bool \<Rightarrow> string" where
  "Compose u includeUserinfo =
    scheme u @ ''://'' @ (if includeUserinfo \<and> userinfo u \<noteq> [] then userinfo u @ ''@'' else []) @
    host u @ (if port u \<noteq> 0 \<and> port u \<noteq> DefaultPort u then CHR '':'' # to_dec (port u) else []) @
    uri_path u @ (if hasQuery u then CHR ''?'' # uri_query u else [])"

definition Uri_ToString :: "Uri \<Rightarrow> string" where
  "Uri_ToString u = Compose u True"

definition ToIdentity :: "Uri \<Rightarrow> string" where
  "ToIdentity u = Compose u False"

section \<open>Dot segments\<close>

fun split_on :: "char \<Rightarrow> string \<Rightarrow> string list" where
  "split_on c [] = [[]]"
| "split_on c (x # xs) =
    (if x = c then [] # split_on c xs
     else case split_on c xs of s # ss \<Rightarrow> (x # s) # ss | [] \<Rightarrow> [[x]])"

text \<open>One segment of the loop: the stack of segments, and whether the last one was a dot segment.\<close>

fun dot_step :: "string \<Rightarrow> string list \<times> bool \<Rightarrow> string list \<times> bool" where
  "dot_step seg (segments, ended) =
    (if seg = ''.'' then (segments, True)
     else if seg = ''..'' then (butlast segments, True)
     else (segments @ [seg], False))"

fun join_segments :: "bool \<Rightarrow> string list \<Rightarrow> string" where
  "join_segments absolute [] = []"
| "join_segments absolute (s # ss) = (if absolute then CHR ''/'' # s else s) @ concat (map (\<lambda>t. CHR ''/'' # t) ss)"

definition RemoveDotSegments :: "string \<Rightarrow> string" where
  "RemoveDotSegments path =
    (let absolute = (path \<noteq> [] \<and> hd path = CHR ''/'');
         rest = (if absolute then tl path else path);
         (segments, ended) = fold dot_step (split_on (CHR ''/'') rest) ([], False);
         output = join_segments absolute (if ended then segments @ [[]] else segments)
     in if output = [] then (if absolute then ''/'' else []) else output)"

section \<open>Parsing and resolution\<close>

definition ParseUri :: "string \<Rightarrow> string + Uri" where
  "ParseUri text0 =
    (let text = StripFragment text0
     in case find_index (\<lambda>c. c = CHR '':'') text of
          None \<Rightarrow> Inl ''identifier is not an absolute URI''
        | Some colon \<Rightarrow>
            let sch = LowerAscii (take colon text)
            in if sch \<noteq> ''http'' \<and> sch \<noteq> ''https'' then Inl (''unsupported URI scheme '' @ [CHR 0x27] @ sch @ [CHR 0x27])
               else let rest = drop (colon + 1) text
                    in if take 2 rest \<noteq> ''//'' then Inl ''URI has no authority''
                       else let rest = drop 2 rest;
                                authorityEnd = find_index (\<lambda>c. c = CHR ''/'' \<or> c = CHR ''?'') rest;
                                authority = (case authorityEnd of None \<Rightarrow> rest | Some e \<Rightarrow> take e rest)
                            in case ParseAuthority authority (Uri_empty\<lparr>scheme := sch\<rparr>) of
                                 Inl e \<Rightarrow> Inl e
                               | Inr u \<Rightarrow>
                                   let u1 = SplitPathAndQuery (case authorityEnd of None \<Rightarrow> [] | Some e \<Rightarrow> drop e rest) u
                                   in Inr (u1\<lparr>uri_path := RemoveDotSegments (uri_path u1)\<rparr>))"

text \<open>The path of a reference without authority, and the rest of such a reference.\<close>

definition reference_path :: "string \<Rightarrow> string \<Rightarrow> string" where
  "reference_path basePath referencePath =
    (let path = (if referencePath \<noteq> [] \<and> hd referencePath = CHR ''/'' then RemoveDotSegments referencePath
                 else let merged = (case rfind_index (\<lambda>c. c = CHR ''/'') basePath of
                                      None \<Rightarrow> [] | Some slash \<Rightarrow> take (slash + 1) basePath)
                      in RemoveDotSegments (merged @ referencePath))
     in if path = [] \<or> hd path \<noteq> CHR ''/'' then CHR ''/'' # path else path)"

definition resolve_relative :: "Uri \<Rightarrow> string \<Rightarrow> Uri" where
  "resolve_relative base reference =
    (let u = Uri_empty\<lparr>scheme := scheme base, userinfo := userinfo base, host := host base, port := port base\<rparr>
     in if hd reference = CHR ''?''
        then u\<lparr>uri_path := uri_path base, uri_query := tl reference, hasQuery := True\<rparr>
        else case find_index (\<lambda>c. c = CHR ''?'') reference of
               None \<Rightarrow> u\<lparr>uri_path := reference_path (uri_path base) reference\<rparr>
             | Some question \<Rightarrow> u\<lparr>uri_query := drop (question + 1) reference, hasQuery := True,
                                  uri_path := reference_path (uri_path base) (take question reference)\<rparr>)"

definition ResolveReference :: "Uri \<Rightarrow> string \<Rightarrow> string + Uri" where
  "ResolveReference base reference0 =
    (let reference = StripFragment reference0
     in if reference = [] then Inl ''redirect Location is empty''
        else let colon = find_index (\<lambda>c. c = CHR '':'') reference;
                 firstDelimiter = find_index (\<lambda>c. c \<in> set ''/?#'') reference
             in if colon \<noteq> None \<and> (firstDelimiter = None \<or> the colon < the firstDelimiter) then ParseUri reference
                else if take 2 reference = ''//'' then ParseUri (scheme base @ '':'' @ reference)
                else Inr (resolve_relative base reference))"

definition IsSchemeDowngrade :: "Uri \<Rightarrow> Uri \<Rightarrow> bool" where
  "IsSchemeDowngrade base target \<longleftrightarrow> IsSecure base \<and> \<not> IsSecure target"

section \<open>Segments\<close>

lemma find_char_None [simp]: "x \<notin> set t \<Longrightarrow> find_index (\<lambda>c. c = x) t = None"
  by (induction t) auto


definition slashed :: "string list \<Rightarrow> string" where
  "slashed ss = concat (map (\<lambda>s. CHR ''/'' # s) ss)"

definition plain :: "string \<Rightarrow> bool" where
  "plain s \<longleftrightarrow> CHR ''/'' \<notin> set s"

lemma plain_iff: "plain s \<longleftrightarrow> (\<forall>c\<in>set s. c \<noteq> CHR ''/'')"
  by (auto simp: plain_def)

lemma slashed_simps [simp]: "slashed [] = []" "slashed (s # ss) = CHR ''/'' # s @ slashed ss" "slashed (ss @ ts) = slashed ss @ slashed ts"
  by (simp_all add: slashed_def)

lemma slashed_one: "slashed [s] = CHR ''/'' # s"
  by simp

lemma split_on_not_Nil [simp]: "split_on c xs \<noteq> []"
  by (induction c xs rule: split_on.induct) (auto split: list.splits)

lemma slashed_split: "slashed (split_on (CHR ''/'') xs) = CHR ''/'' # xs"
  by (induction "CHR ''/''" xs rule: split_on.induct) (auto split: list.splits)

lemma split_plain: "s \<in> set (split_on (CHR ''/'') xs) \<Longrightarrow> plain s"
  by (induction "CHR ''/''" xs arbitrary: s rule: split_on.induct) (auto simp: plain_def split: list.splits if_splits)

lemma split_on_plain: "plain s \<Longrightarrow> split_on (CHR ''/'') (s @ CHR ''/'' # xs) = s # split_on (CHR ''/'') xs"
  by (induction s) (auto simp: plain_def)

lemma split_on_plain_end: "plain s \<Longrightarrow> split_on (CHR ''/'') s = [s]"
  by (induction s) (auto simp: plain_def)

lemma split_slashed:
  "\<forall>s\<in>set ss. plain s \<Longrightarrow> plain s \<Longrightarrow> split_on (CHR ''/'') (s @ slashed ss) = s # ss"
proof (induction ss arbitrary: s)
  case (Cons t ss)
  then show ?case using split_on_plain [of s "t @ slashed ss"] by simp
qed (simp add: split_on_plain_end)

definition fold_ends :: "string list \<Rightarrow> string list \<times> bool \<Rightarrow> string list" where
  "fold_ends ss st = (case fold dot_step ss st of (segments, ended) \<Rightarrow> if ended then segments @ [[]] else segments)"

lemma join_absolute: "join_segments True ss = slashed ss"
  by (cases ss) (simp_all add: slashed_def)

lemma dot_steps_end: "ss \<noteq> [] \<Longrightarrow> (case fold dot_step ss st of (segments, ended) \<Rightarrow> ended \<or> segments \<noteq> [])"
proof (induction ss arbitrary: st rule: rev_induct)
  case (snoc s ss)
  obtain a b where "fold dot_step ss st = (a, b)" by fastforce
  then show ?case by simp
qed simp

lemma fold_ends_not_Nil: "ss \<noteq> [] \<Longrightarrow> fold_ends ss st \<noteq> []"
  using dot_steps_end [of ss st] by (auto simp: fold_ends_def split: if_splits)

lemma RemoveDotSegments_absolute:
  "RemoveDotSegments (CHR ''/'' # xs) = slashed (fold_ends (split_on (CHR ''/'') xs) ([], False))"
proof -
  have "slashed (fold_ends (split_on (CHR ''/'') xs) ([], False)) \<noteq> []"
    using fold_ends_not_Nil [of "split_on (CHR ''/'') xs"] by (cases "fold_ends (split_on (CHR ''/'') xs) ([], False)") auto
  then show ?thesis
    by (auto simp: RemoveDotSegments_def Let_def case_prod_beta join_absolute fold_ends_def)
qed

text \<open>The rewriting of RFC 3986, section 5.2.4, on an input and an output buffer.\<close>

definition rfc_pop :: "string \<Rightarrow> string" where
  "rfc_pop out = (case rfind_index (\<lambda>c. c = CHR ''/'') out of None \<Rightarrow> [] | Some i \<Rightarrow> take i out)"

definition rfc_first :: "string \<Rightarrow> nat" where
  "rfc_first inp = (case find_index (\<lambda>c. c = CHR ''/'') (tl inp) of None \<Rightarrow> length inp | Some i \<Rightarrow> i + 1)"

function rfc_dots :: "string \<Rightarrow> string \<Rightarrow> string" where
  "rfc_dots inp out =
    (if inp = [] then out
     else if take 3 inp = ''../'' then rfc_dots (drop 3 inp) out
     else if take 2 inp = ''./'' then rfc_dots (drop 2 inp) out
     else if take 3 inp = ''/./'' then rfc_dots (CHR ''/'' # drop 3 inp) out
     else if inp = ''/.'' then rfc_dots ''/'' out
     else if take 4 inp = ''/../'' then rfc_dots (CHR ''/'' # drop 4 inp) (rfc_pop out)
     else if inp = ''/..'' then rfc_dots ''/'' (rfc_pop out)
     else if inp = ''.'' \<or> inp = ''..'' then out
     else rfc_dots (drop (rfc_first inp) inp) (out @ take (rfc_first inp) inp))"
  by pat_completeness auto
termination
  by (relation "measure (\<lambda>(inp, out). length inp)")
    (auto simp: rfc_first_def dest!: arg_cong [of _ _ length] split: option.splits)

declare rfc_dots.simps [simp del]

lemma prefix_segment:
  "plain s \<Longrightarrow> plain p \<Longrightarrow> take (Suc (length p)) (s @ slashed ss) = p @ ''/'' \<longleftrightarrow> s = p \<and> ss \<noteq> []"
proof (induction p arbitrary: s)
  case Nil
  then show ?case by (cases s; cases ss) (auto simp: plain_def)
next
  case (Cons y p)
  then show ?case by (cases s; cases ss) (auto simp: plain_def)
qed

lemma whole_segment: "plain p \<Longrightarrow> s @ slashed ss = p \<longleftrightarrow> s = p \<and> ss = []"
  by (cases ss) (auto simp: plain_def)

lemma rfc_first_segment: "plain s \<Longrightarrow> rfc_first (CHR ''/'' # s @ slashed ss) = Suc (length s)"
proof -
  assume "plain s"
  then have s: "\<forall>c\<in>set s. c \<noteq> CHR ''/''" by (auto simp: plain_def)
  show ?thesis
  proof (cases ss)
    case Nil
    then show ?thesis using find_index_NoneI [OF s] by (simp add: rfc_first_def)
  next
    case (Cons t ts)
    then show ?thesis
      using find_index_append [of s "\<lambda>c. c = CHR ''/''" "CHR ''/''" "t @ slashed ts"] s by (simp add: rfc_first_def)
  qed
qed

lemma rfc_pop_slashed: "\<forall>s\<in>set out. plain s \<Longrightarrow> rfc_pop (slashed out) = slashed (butlast out)"
proof (cases out rule: rev_cases)
  case (snoc out' s)
  assume "\<forall>s\<in>set out. plain s"
  then show ?thesis
    using snoc rfind_index_append [of s "\<lambda>c. c = CHR ''/''" "CHR ''/''" "slashed out'"]
    by (simp add: rfc_pop_def plain_iff)
qed (simp add: rfc_pop_def)

lemma rfc_step:
  assumes "plain s"
  shows "rfc_dots (slashed (s # ss)) out =
    (if s = ''.'' then rfc_dots (if ss = [] then ''/'' else slashed ss) out
     else if s = ''..'' then rfc_dots (if ss = [] then ''/'' else slashed ss) (rfc_pop out)
     else rfc_dots (slashed ss) (out @ CHR ''/'' # s))"
proof -
  have dots: "plain ''.''" "plain ''..''" by (simp_all add: plain_def)
  have "take 3 (CHR ''/'' # s @ slashed ss) = ''/./'' \<longleftrightarrow> s = ''.'' \<and> ss \<noteq> []"
    using prefix_segment [OF assms dots(1), of ss] by (simp add: numeral_3_eq_3)
  moreover have "take 4 (CHR ''/'' # s @ slashed ss) = ''/../'' \<longleftrightarrow> s = ''..'' \<and> ss \<noteq> []"
    using prefix_segment [OF assms dots(2), of ss] by (simp add: eval_nat_numeral)
  moreover have "CHR ''/'' # s @ slashed ss = ''/.'' \<longleftrightarrow> s = ''.'' \<and> ss = []"
    "CHR ''/'' # s @ slashed ss = ''/..'' \<longleftrightarrow> s = ''..'' \<and> ss = []"
    using whole_segment dots by auto
  moreover have "CHR ''/'' # drop 3 (CHR ''/'' # ''.'' @ slashed ss) = slashed ss"
    "CHR ''/'' # drop 4 (CHR ''/'' # ''..'' @ slashed ss) = slashed ss" if "ss \<noteq> []"
    using that by (cases ss; simp)+
  ultimately show ?thesis
    using rfc_first_segment [OF assms, of ss] by (subst rfc_dots.simps) simp
qed

lemma rfc_slash: "rfc_dots ''/'' out = out @ ''/''"
  using rfc_step [of "[]" "[]" out] by (simp add: plain_def rfc_dots.simps [of "[]"])

lemma rfc_slashed:
  "ss \<noteq> [] \<Longrightarrow> \<forall>s\<in>set ss. plain s \<Longrightarrow> \<forall>s\<in>set out. plain s \<Longrightarrow>
    rfc_dots (slashed ss) (slashed out) = slashed (fold_ends ss (out, ended))"
proof (induction ss arbitrary: out ended)
  case (Cons s ss)
  have s: "plain s" and ss: "\<forall>s\<in>set ss. plain s" using Cons.prems(2) by simp_all
  have pop: "\<forall>s\<in>set (butlast out). plain s" using Cons.prems(3) by (auto dest: in_set_butlastD)
  have push: "\<forall>s\<in>set (out @ [s]). plain s" using Cons.prems(3) s by simp
  note IH = Cons.IH [OF _ ss]
  show ?case
    using rfc_step [OF s, of ss "slashed out"] rfc_pop_slashed [OF Cons.prems(3)] rfc_slash
      IH [OF _ Cons.prems(3), of True] IH [OF _ pop, of True] IH [OF _ push, of False]
    by (cases "ss = []") (auto simp: fold_ends_def rfc_dots.simps [of "[]"] slashed_one simp del: slashed_simps(2))
qed simp

text \<open>
  On absolute paths, which are the only ones it is applied to, the segment stack
  computes exactly the result of the string rewriting of RFC 3986, section 5.2.4.
\<close>

theorem RemoveDotSegments_rfc: "RemoveDotSegments (CHR ''/'' # xs) = rfc_dots (CHR ''/'' # xs) []"
  using rfc_slashed [of "split_on (CHR ''/'') xs" "[]" False] split_plain
  by (simp add: RemoveDotSegments_absolute slashed_split)

section \<open>Well-formed URIs\<close>

definition delimiter :: "char \<Rightarrow> bool" where
  "delimiter c \<longleftrightarrow> c = CHR ''/'' \<or> c = CHR ''?'' \<or> c = CHR ''#''"

definition host_ok :: "string \<Rightarrow> bool" where
  "host_ok h \<longleftrightarrow> h \<noteq> [] \<and> LowerAscii h = h \<and> (\<forall>c\<in>set h. \<not> delimiter c \<and> c \<noteq> CHR ''@'') \<and>
     (if hd h = CHR ''['' then find_index (\<lambda>c. c = CHR '']'') h = Some (length h - 1) else CHR '':'' \<notin> set h)"

definition no_dots :: "string \<Rightarrow> bool" where
  "no_dots path \<longleftrightarrow> (\<forall>s\<in>set (split_on (CHR ''/'') (tl path)). s \<noteq> ''.'' \<and> s \<noteq> ''..'')"

definition uri_wf :: "Uri \<Rightarrow> bool" where
  "uri_wf u \<longleftrightarrow> (scheme u = ''http'' \<or> scheme u = ''https'') \<and> (\<forall>c\<in>set (userinfo u). \<not> delimiter c) \<and>
     host_ok (host u) \<and> port u \<le> 65535 \<and>
     uri_path u \<noteq> [] \<and> hd (uri_path u) = CHR ''/'' \<and> CHR ''?'' \<notin> set (uri_path u) \<and> CHR ''#'' \<notin> set (uri_path u) \<and>
     no_dots (uri_path u) \<and> CHR ''#'' \<notin> set (uri_query u) \<and> (\<not> hasQuery u \<longrightarrow> uri_query u = [])"

lemma fold_dots_id:
  "\<forall>s\<in>set ss. s \<noteq> ''.'' \<and> s \<noteq> ''..'' \<Longrightarrow> ss \<noteq> [] \<Longrightarrow> fold dot_step ss (out, e) = (out @ ss, False)"
proof (induction ss arbitrary: out e)
  case (Cons s ss)
  then show ?case by (cases "ss = []") auto
qed simp

lemma RemoveDotSegments_id:
  assumes "no_dots path" "path \<noteq> []" "hd path = CHR ''/''"
  shows "RemoveDotSegments path = path"
proof -
  obtain xs where path: "path = CHR ''/'' # xs" using assms(2,3) by (cases path) auto
  then show ?thesis
    using fold_dots_id [of "split_on (CHR ''/'') xs" "[]" False] assms(1)
    by (simp add: RemoveDotSegments_absolute fold_ends_def no_dots_def slashed_split)
qed

lemma parse_port_value:
  "\<forall>c\<in>set cs. is_digit c \<Longrightarrow> foldl (\<lambda>acc c. acc * 10 + digit_val c) p cs \<le> 65535 \<Longrightarrow>
    0 < foldl (\<lambda>acc c. acc * 10 + digit_val c) p cs \<Longrightarrow>
    parse_port cs p = Inr (foldl (\<lambda>acc c. acc * 10 + digit_val c) p cs)"
proof (induction cs arbitrary: p)
  case (Cons c cs)
  then show ?case using foldl_dec_mono [of "p * 10 + digit_val c" cs] by (simp add: Let_def)
qed simp

lemma parse_port_to_dec: "0 < p \<Longrightarrow> p \<le> 65535 \<Longrightarrow> parse_port (to_dec p) 0 = Inr p"
  using parse_port_value [of "to_dec p" 0] to_dec_digits dec_value_to_dec [of p] by (auto simp: dec_value_def)

definition port_text :: "Uri \<Rightarrow> string" where
  "port_text u = (if port u \<noteq> 0 \<and> port u \<noteq> DefaultPort u then CHR '':'' # to_dec (port u) else [])"

definition shown_port :: "Uri \<Rightarrow> nat" where
  "shown_port u = (if port u = DefaultPort u then 0 else port u)"

lemma port_text_chars: "c \<in> set (port_text u) \<Longrightarrow> \<not> delimiter c \<and> c \<noteq> CHR ''@''"
  using to_dec_digits [of c "port u"] by (auto simp: port_text_def delimiter_def is_digit_def split: if_splits)

lemma port_colon_print:
  assumes "host_ok h"
  shows "port_colon (h @ port_text u) = Inr (if port_text u = [] then None else Some (length h))"
proof (cases "hd h = CHR ''[''")
  case True
  then have f: "find_index (\<lambda>c. c = CHR '']'') h = Some (length h - 1)" "h \<noteq> []" using assms by (simp_all add: host_ok_def)
  then obtain h' where h: "h = h' @ [CHR '']'']" "\<forall>c\<in>set h'. c \<noteq> CHR '']''"
    using find_index_SomeD [OF f(1)] by (metis append_butlast_last_id butlast_conv_take last_conv_nth)
  have "find_index (\<lambda>c. c = CHR '']'') (h @ port_text u) = Some (length h')"
    using find_index_append [OF h(2)] h(1) by simp
  moreover have "hd (h @ port_text u) = CHR ''[''" using True f(2) by simp
  ultimately show ?thesis using h(1) by (auto simp: port_colon_def port_text_def nth_append)
next
  case False
  then have "\<forall>c\<in>set h. c \<noteq> CHR '':''" "h \<noteq> []" using assms by (auto simp: host_ok_def)
  moreover from this have "hd (h @ port_text u) \<noteq> CHR ''[''" using False by simp
  ultimately show ?thesis
    using find_index_append [of h "\<lambda>c. c = CHR '':''" "CHR '':''" "to_dec (port u)"]
    by (auto simp: port_colon_def port_text_def)
qed

lemma ParseAuthority_print:
  assumes "host_ok (host u)" "port u \<le> 65535" "userinfo v = []"
  shows "ParseAuthority ((if userinfo u \<noteq> [] then userinfo u @ ''@'' else []) @ host u @ port_text u) v =
    Inr (v\<lparr>userinfo := userinfo u, host := host u, port := shown_port u\<rparr>)"
proof -
  let ?hp = "host u @ port_text u"
  have at: "\<forall>c\<in>set ?hp. c \<noteq> CHR ''@''" using assms(1) port_text_chars [of _ u] by (auto simp: host_ok_def)
  have split: "rfind_index (\<lambda>c. c = CHR ''@'') (userinfo u @ CHR ''@'' # ?hp) = Some (length (userinfo u))"
    "rfind_index (\<lambda>c. c = CHR ''@'') ?hp = None"
    using rfind_index_append [OF at] rfind_index_NoneI [OF at] by simp_all
  have "?hp \<noteq> []" "LowerAscii (host u) = host u" using assms(1) by (simp_all add: host_ok_def)
  then show ?thesis
    using split port_colon_print [OF assms(1), of u] assms(2,3) parse_port_to_dec [of "port u"]
    by (cases "port_text u = []") (auto simp: ParseAuthority_def port_text_def shown_port_def split: if_splits)
qed

lemma StripFragment_id: "CHR ''#'' \<notin> set t \<Longrightarrow> StripFragment t = t"
  by (simp add: StripFragment_def)

lemma StripFragment_chars: "CHR ''#'' \<notin> set (StripFragment t)"
proof (cases "find_index (\<lambda>c. c = CHR ''#'') t")
  case None
  then show ?thesis using find_index_None [of "\<lambda>c. c = CHR ''#''" t] by (auto simp: StripFragment_def)
next
  case (Some i)
  then show ?thesis using find_index_SomeD(3) [OF Some] by (auto simp: StripFragment_def)
qed

lemma SplitPathAndQuery_print:
  assumes "p \<noteq> []" "CHR ''?'' \<notin> set p" "\<not> hq \<longrightarrow> q = []"
  shows "SplitPathAndQuery (p @ (if hq then CHR ''?'' # q else [])) v = v\<lparr>uri_path := p, uri_query := q, hasQuery := hq\<rparr>"
proof -
  have p: "\<forall>c\<in>set p. c \<noteq> CHR ''?''" using assms(2) by auto
  show ?thesis
    using find_index_append [OF p, of "CHR ''?''" q] find_index_NoneI [OF p] assms(1,3)
    by (cases hq) (simp_all add: SplitPathAndQuery_def)
qed

lemma ParseUri_shape:
  assumes "sch = ''http'' \<or> sch = ''https''" "\<forall>c\<in>set auth. \<not> delimiter c" "tail \<noteq> []" "hd tail = CHR ''/''" "CHR ''#'' \<notin> set tail"
  shows "ParseUri (sch @ ''://'' @ auth @ tail) =
    (case ParseAuthority auth (Uri_empty\<lparr>scheme := sch\<rparr>) of Inl e \<Rightarrow> Inl e
     | Inr u \<Rightarrow> let u1 = SplitPathAndQuery tail u in Inr (u1\<lparr>uri_path := RemoveDotSegments (uri_path u1)\<rparr>))"
proof -
  let ?t = "sch @ ''://'' @ auth @ tail"
  have "CHR ''#'' \<notin> set auth" using assms(2) by (auto simp: delimiter_def)
  then have "CHR ''#'' \<notin> set ?t" using assms(1,5) by auto
  note strip = StripFragment_id [OF this]
  have colon: "find_index (\<lambda>c. c = CHR '':'') ?t = Some (length sch)" "LowerAscii sch = sch"
    using assms(1) by (auto simp: LowerAscii_def to_lower_def is_upper_ord ord_def)
  have "\<forall>c\<in>set auth. \<not> (c = CHR ''/'' \<or> c = CHR ''?'')" using assms(2) by (auto simp: delimiter_def)
  note sp = find_index_append [OF this, of "CHR ''/''" "tl tail"]
  have tail: "tail = CHR ''/'' # tl tail" using assms(3,4) by (cases tail) auto
  have "find_index (\<lambda>c. c = CHR ''/'' \<or> c = CHR ''?'') (auth @ tail) = Some (length auth)" using sp tail by simp
  moreover have "drop (length sch + 1) ?t = ''//'' @ auth @ tail" "take (length sch) ?t = sch" by simp_all
  moreover have "take 2 (''//'' @ x) = ''//''" "drop 2 (''//'' @ x) = x" for x by simp_all
  moreover have "\<not> (sch \<noteq> ''http'' \<and> sch \<noteq> ''https'')" using assms(1) by blast
  ultimately show ?thesis
    unfolding ParseUri_def Let_def strip colon(1) by (simp only: option.case colon(2) if_False append_take_drop_id) (simp split: sum.split)
qed

lemma ParseUri_print:
  assumes "uri_wf u"
  shows "ParseUri (Uri_ToString u) = Inr (u\<lparr>port := shown_port u\<rparr>)"
proof -
  let ?auth = "(if userinfo u \<noteq> [] then userinfo u @ ''@'' else []) @ host u @ port_text u"
  let ?tail = "uri_path u @ (if hasQuery u then CHR ''?'' # uri_query u else [])"
  have wf: "scheme u = ''http'' \<or> scheme u = ''https''" "\<forall>c\<in>set (userinfo u). \<not> delimiter c" "host_ok (host u)" "port u \<le> 65535"
    "uri_path u \<noteq> []" "hd (uri_path u) = CHR ''/''" "CHR ''?'' \<notin> set (uri_path u)" "CHR ''#'' \<notin> set (uri_path u)"
    "no_dots (uri_path u)" "CHR ''#'' \<notin> set (uri_query u)" "\<not> hasQuery u \<longrightarrow> uri_query u = []"
    using assms by (simp_all add: uri_wf_def)
  have auth: "\<forall>c\<in>set ?auth. \<not> delimiter c"
    using wf(2,3) port_text_chars [of _ u] by (auto simp: host_ok_def delimiter_def)
  have str: "Uri_ToString u = scheme u @ ''://'' @ ?auth @ ?tail"
    by (simp add: Uri_ToString_def Compose_def port_text_def)
  have "Uri_empty\<lparr>scheme := scheme u, userinfo := userinfo u, host := host u, port := shown_port u,
      uri_path := uri_path u, uri_query := uri_query u, hasQuery := hasQuery u\<rparr> = u\<lparr>port := shown_port u\<rparr>"
    by (simp add: Uri_empty_def)
  then show ?thesis
    unfolding str
    using ParseUri_shape [OF wf(1) auth, of ?tail] ParseAuthority_print [OF wf(3,4), of "Uri_empty\<lparr>scheme := scheme u\<rparr>"]
      SplitPathAndQuery_print [OF wf(5,7,11)] wf(5,6,8,10) RemoveDotSegments_id [OF wf(9,5,6)]
    by (simp add: Uri_empty_def)
qed

lemma fold_ends_subset:
  "set (fold_ends ss (out, e)) \<subseteq> set out \<union> {s \<in> set ss. s \<noteq> ''.'' \<and> s \<noteq> ''..''} \<union> {[]}"
proof -
  have "set (fst (fold dot_step ss (out, e))) \<subseteq> set out \<union> {s \<in> set ss. s \<noteq> ''.'' \<and> s \<noteq> ''..''}"
  proof (induction ss arbitrary: out e)
    case (Cons s ss)
    show ?case using Cons [of out True] Cons [of "butlast out" True] Cons [of "out @ [s]" False] in_set_butlastD [of _ out]
      by (auto split: if_splits)
  qed simp
  then show ?thesis by (auto simp: fold_ends_def case_prod_beta split: if_splits)
qed

lemma RemoveDotSegments_facts:
  assumes "path \<noteq> []" "hd path = CHR ''/''"
  shows "RemoveDotSegments path \<noteq> []" "hd (RemoveDotSegments path) = CHR ''/''"
    "set (RemoveDotSegments path) \<subseteq> set path" "no_dots (RemoveDotSegments path)"
proof -
  obtain xs where path: "path = CHR ''/'' # xs" using assms by (cases path) auto
  define R where "R = fold_ends (split_on (CHR ''/'') xs) ([], False)"
  have eq: "RemoveDotSegments path = slashed R" by (simp add: path R_def RemoveDotSegments_absolute)
  have sub: "set R \<subseteq> {s \<in> set (split_on (CHR ''/'') xs). s \<noteq> ''.'' \<and> s \<noteq> ''..''} \<union> {[]}"
    using fold_ends_subset [of "split_on (CHR ''/'') xs" "[]" False] by (auto simp: R_def)
  obtain r rs where R: "R = r # rs" using fold_ends_not_Nil [of "split_on (CHR ''/'') xs" "([], False)"]
    by (cases R) (auto simp: R_def)
  show "RemoveDotSegments path \<noteq> []" "hd (RemoveDotSegments path) = CHR ''/''" by (simp_all add: eq R)
  have "plain s" if "s \<in> set R" for s using that sub split_plain by (auto simp: plain_def)
  then have "split_on (CHR ''/'') (tl (slashed R)) = R" using split_slashed [of rs r] R by simp
  then show "no_dots (RemoveDotSegments path)" using sub by (auto simp: no_dots_def eq)
  have part: "set s \<subseteq> set path" if "s \<in> set (split_on (CHR ''/'') xs)" for s
  proof -
    have "set s \<subseteq> set (slashed (split_on (CHR ''/'') xs))" using that by (auto simp: slashed_def)
    then show ?thesis using slashed_split [of xs] path by simp
  qed
  have "set s \<subseteq> set path" if "s \<in> set R" for s using subsetD [OF sub that] part by auto
  then show "set (RemoveDotSegments path) \<subseteq> set path" using assms hd_in_set [of path] by (auto simp: eq slashed_def)
qed

lemma to_lower_punct: "to_lower c = x \<Longrightarrow> \<not> is_lower x \<Longrightarrow> c = x"
  by (auto simp: to_lower_def is_lower_ord is_upper_ord split: if_splits)

lemma LowerAscii_punct: "\<not> is_lower x \<Longrightarrow> x \<in> set (LowerAscii t) \<Longrightarrow> x \<in> set t"
  using to_lower_punct by (fastforce simp: LowerAscii_def)

lemma find_index_lower:
  assumes "\<not> is_lower x" "to_lower x = x"
  shows "find_index (\<lambda>c. c = x) (LowerAscii t) = find_index (\<lambda>c. c = x) t"
  unfolding LowerAscii_def by (induction t) (use assms to_lower_punct [of _ x] in auto)

lemma find_index_take: "find_index P xs = Some i \<Longrightarrow> i < n \<Longrightarrow> find_index P (take n xs) = Some i"
proof (induction xs arbitrary: i n)
  case (Cons x xs)
  then show ?case by (cases n) (auto split: if_splits)
qed simp

lemma parse_port_bound: "parse_port cs p = Inr v \<Longrightarrow> p \<le> 65535 \<Longrightarrow> v \<le> 65535"
  by (induction cs arbitrary: p) (auto simp: Let_def split: if_splits)

lemma punct [simp]:
  "\<not> is_lower (CHR ''/'')" "\<not> is_lower (CHR ''?'')" "\<not> is_lower (CHR ''#'')" "\<not> is_lower (CHR ''@'')" "\<not> is_lower (CHR '':'')"
  "\<not> is_lower (CHR ''['')" "\<not> is_lower (CHR '']'')" "to_lower (CHR '']'') = CHR '']''" "to_lower (CHR ''['') = CHR ''[''"
  by (simp_all add: is_lower_ord to_lower_def is_upper_ord ord_def)

lemma LowerAscii_chars:
  assumes "\<forall>c\<in>set t. \<not> delimiter c \<and> c \<noteq> CHR ''@''"
  shows "\<forall>c\<in>set (LowerAscii t). \<not> delimiter c \<and> c \<noteq> CHR ''@''"
proof
  fix c
  assume "c \<in> set (LowerAscii t)"
  then obtain d where d: "d \<in> set t" "c = to_lower d" by (auto simp: LowerAscii_def)
  then have "\<not> delimiter d \<and> d \<noteq> CHR ''@''" using assms by blast
  then show "\<not> delimiter c \<and> c \<noteq> CHR ''@''" using d(2) to_lower_punct [of d c] by (auto simp: delimiter_def)
qed

text \<open>The host a successful parse of \<open>host[:port]\<close> stores.\<close>

lemma port_colon_host:
  assumes "port_colon hp = Inr colon" "hp \<noteq> []" "\<forall>c\<in>set hp. \<not> delimiter c \<and> c \<noteq> CHR ''@''"
  defines "h \<equiv> (case colon of None \<Rightarrow> hp | Some i \<Rightarrow> take i hp)"
  shows "h = [] \<or> host_ok (LowerAscii h)"
proof (cases "h = []")
  case False
  have chars: "\<forall>c\<in>set (LowerAscii h). \<not> delimiter c \<and> c \<noteq> CHR ''@''"
    using assms(3) by (intro LowerAscii_chars) (auto simp: h_def dest: in_set_takeD split: option.splits)
  have hd: "hd (LowerAscii h) = CHR ''['' \<longleftrightarrow> hd hp = CHR ''[''"
    using False to_lower_punct [of "hd hp" "CHR ''[''"] by (cases h; cases hp; cases colon)
      (auto simp: h_def LowerAscii_def take_Cons' split: if_splits)
  have low: "LowerAscii (LowerAscii h) = LowerAscii h" "LowerAscii h \<noteq> []" using False by (simp_all add: LowerAscii_def)
  show ?thesis
  proof (cases "hd hp = CHR ''[''")
    case True
    then obtain close where c: "find_index (\<lambda>c. c = CHR '']'') hp = Some close"
      "colon = (if close + 1 < length hp then Some (close + 1) else None)"
      using assms(1) by (auto simp: port_colon_def split: option.splits if_splits)
    have "close < length hp" using find_index_SomeD(1) [OF c(1)] .
    then have "find_index (\<lambda>c. c = CHR '']'') h = Some (length h - 1)"
      using c find_index_take [OF c(1), of "close + 1"] by (auto simp: h_def)
    then show ?thesis using True hd low chars find_index_lower [of "CHR '']''" h] by (simp add: host_ok_def LowerAscii_def)
  next
    case False
    then have c: "colon = find_index (\<lambda>c. c = CHR '':'') hp" using assms(1) by (simp add: port_colon_def)
    have "CHR '':'' \<notin> set h"
    proof (cases colon)
      case None
      then show ?thesis using c find_index_None [of "\<lambda>c. c = CHR '':''" hp] by (auto simp: h_def)
    next
      case (Some i)
      then have "find_index (\<lambda>c. c = CHR '':'') hp = Some i" using c by simp
      from find_index_SomeD(3) [OF this] show ?thesis by (auto simp: h_def Some)
    qed
    then show ?thesis using False hd low chars LowerAscii_punct [of "CHR '':''" h] by (auto simp: host_ok_def)
  qed
qed simp

lemma ParseAuthority_facts:
  assumes "ParseAuthority auth v = Inr u" "\<forall>c\<in>set auth. \<not> delimiter c" "userinfo v = []"
  shows "\<exists>user h p. u = v\<lparr>userinfo := user, host := h, port := p\<rparr> \<and> (\<forall>c\<in>set user. \<not> delimiter c) \<and>
    (h = [] \<or> host_ok h) \<and> p \<le> 65535"
proof -
  obtain user hp where uh: "(case rfind_index (\<lambda>c. c = CHR ''@'') auth of None \<Rightarrow> (userinfo v, auth)
      | Some at \<Rightarrow> (take at auth, drop (at + 1) auth)) = (user, hp)" by fastforce
  have user: "\<forall>c\<in>set user. \<not> delimiter c" and hp: "\<forall>c\<in>set hp. \<not> delimiter c \<and> c \<noteq> CHR ''@''"
  proof -
    show "\<forall>c\<in>set user. \<not> delimiter c" using uh assms(2,3) by (auto dest: in_set_takeD split: option.splits)
    have "CHR ''@'' \<notin> set hp"
    proof (cases "rfind_index (\<lambda>c. c = CHR ''@'') auth")
      case None
      then show ?thesis using uh rfind_index_None [of "\<lambda>c. c = CHR ''@''" auth] by auto
    next
      case (Some i)
      then show ?thesis using uh rfind_index_SomeD(3) [OF Some] by auto
    qed
    then show "\<forall>c\<in>set hp. \<not> delimiter c \<and> c \<noteq> CHR ''@''" using uh assms(2) by (auto dest: in_set_dropD split: option.splits)
  qed
  note eq = assms(1) [unfolded ParseAuthority_def Let_def uh split]
  then obtain colon where c: "port_colon hp = Inr colon" "hp \<noteq> []" by (auto split: if_splits sum.splits)
  note h = port_colon_host [OF c hp]
  show ?thesis
  proof (cases colon)
    case None
    then have "u = v\<lparr>userinfo := user, host := LowerAscii hp, port := 0\<rparr>" using eq c by simp
    then show ?thesis using user h None by (intro exI [of _ user] exI [of _ "LowerAscii hp"] exI [of _ 0]) (simp add: c(2))
  next
    case (Some i)
    then obtain p where "u = v\<lparr>userinfo := user, host := LowerAscii (take i hp), port := p\<rparr>" "p \<le> 65535"
      using eq c parse_port_bound [of "drop (i + 1) hp" 0] by (auto simp: Let_def split: if_splits sum.splits)
    then show ?thesis using user h Some
      by (intro exI [of _ user] exI [of _ "LowerAscii (take i hp)"] exI [of _ p]) (auto simp: LowerAscii_def)
  qed
qed

lemma SplitPathAndQuery_facts:
  assumes "rest = [] \<or> hd rest = CHR ''/'' \<or> hd rest = CHR ''?''" "CHR ''#'' \<notin> set rest"
  shows "\<exists>p q hq. SplitPathAndQuery rest v = v\<lparr>uri_path := p, uri_query := q, hasQuery := hq\<rparr> \<and>
    p \<noteq> [] \<and> hd p = CHR ''/'' \<and> CHR ''?'' \<notin> set p \<and> CHR ''#'' \<notin> set p \<and> CHR ''#'' \<notin> set q \<and> (\<not> hq \<longrightarrow> q = [])"
proof (cases "find_index (\<lambda>c. c = CHR ''?'') rest")
  case None
  then have "CHR ''?'' \<notin> set rest" using find_index_None [of "\<lambda>c. c = CHR ''?''" rest] by auto
  moreover from this have "rest \<noteq> [] \<Longrightarrow> hd rest = CHR ''/''" using assms(1) hd_in_set by metis
  ultimately show ?thesis
    using None assms(2)
    by (intro exI [of _ "if rest = [] then ''/'' else rest"] exI [of _ "[]"] exI [of _ False]) (simp add: SplitPathAndQuery_def)
next
  case (Some i)
  have q: "CHR ''?'' \<notin> set (take i rest)" using find_index_SomeD(3) [OF Some] by auto
  have h: "hd (take i rest) = CHR ''/''" if "take i rest \<noteq> []"
  proof -
    have "hd (take i rest) = hd rest" "rest \<noteq> []" using that by (cases rest; cases i; simp)+
    moreover have "hd (take i rest) \<noteq> CHR ''?''" using hd_in_set [OF that] q by metis
    ultimately show ?thesis using assms(1) by metis
  qed
  have f: "CHR ''#'' \<notin> set (take i rest)" "CHR ''#'' \<notin> set (drop (i + 1) rest)"
    using assms(2) by (auto dest: in_set_takeD in_set_dropD)
  show ?thesis
    using Some q h f by (intro exI [of _ "if take i rest = [] then ''/'' else take i rest"] exI [of _ "drop (i + 1) rest"] exI [of _ True])
      (simp add: SplitPathAndQuery_def Let_def)
qed

lemma cut_parts:
  fixes rest :: string and sp :: "nat option"
  assumes "CHR ''#'' \<notin> set rest"
  defines "sp \<equiv> find_index (\<lambda>c. c = CHR ''/'' \<or> c = CHR ''?'') rest"
  shows "\<forall>c\<in>set (case sp of None \<Rightarrow> rest | Some e \<Rightarrow> take e rest). \<not> delimiter c"
    "(case sp of None \<Rightarrow> [] | Some e \<Rightarrow> drop e rest) = [] \<or>
     hd (case sp of None \<Rightarrow> [] | Some e \<Rightarrow> drop e rest) = CHR ''/'' \<or>
     hd (case sp of None \<Rightarrow> [] | Some e \<Rightarrow> drop e rest) = CHR ''?''"
    "CHR ''#'' \<notin> set (case sp of None \<Rightarrow> [] | Some e \<Rightarrow> drop e rest)"
proof (atomize (full), cases sp)
  case None
  then show "(\<forall>c\<in>set (case sp of None \<Rightarrow> rest | Some e \<Rightarrow> take e rest). \<not> delimiter c) \<and>
    ((case sp of None \<Rightarrow> [] | Some e \<Rightarrow> drop e rest) = [] \<or>
     hd (case sp of None \<Rightarrow> [] | Some e \<Rightarrow> drop e rest) = CHR ''/'' \<or>
     hd (case sp of None \<Rightarrow> [] | Some e \<Rightarrow> drop e rest) = CHR ''?'') \<and>
    CHR ''#'' \<notin> set (case sp of None \<Rightarrow> [] | Some e \<Rightarrow> drop e rest)"
    using assms(1) find_index_None [of "\<lambda>c. c = CHR ''/'' \<or> c = CHR ''?''" rest] by (auto simp: sp_def delimiter_def)
next
  case (Some e)
  note d = find_index_SomeD [OF Some [unfolded sp_def]]
  show "(\<forall>c\<in>set (case sp of None \<Rightarrow> rest | Some e \<Rightarrow> take e rest). \<not> delimiter c) \<and>
    ((case sp of None \<Rightarrow> [] | Some e \<Rightarrow> drop e rest) = [] \<or>
     hd (case sp of None \<Rightarrow> [] | Some e \<Rightarrow> drop e rest) = CHR ''/'' \<or>
     hd (case sp of None \<Rightarrow> [] | Some e \<Rightarrow> drop e rest) = CHR ''?'') \<and>
    CHR ''#'' \<notin> set (case sp of None \<Rightarrow> [] | Some e \<Rightarrow> drop e rest)"
    using d assms(1) Some by (auto simp: delimiter_def hd_drop_conv_nth dest: in_set_dropD in_set_takeD)
qed

lemma ParseUri_wf:
  assumes "ParseUri t = Inr u" "host u \<noteq> []"
  shows "uri_wf u"
proof -
  define str0 where "str0 = StripFragment t"
  have frag: "CHR ''#'' \<notin> set str0" by (simp add: str0_def StripFragment_chars)
  obtain colon where colon: "find_index (\<lambda>c. c = CHR '':'') str0 = Some colon"
    using assms(1) by (auto simp: ParseUri_def Let_def str0_def [symmetric] split: option.splits)
  define sch where "sch = LowerAscii (take colon str0)"
  define rest where "rest = drop 2 (drop (colon + 1) str0)"
  define sp where "sp = find_index (\<lambda>c. c = CHR ''/'' \<or> c = CHR ''?'') rest"
  define auth where "auth = (case sp of None \<Rightarrow> rest | Some e \<Rightarrow> take e rest)"
  define tail where "tail = (case sp of None \<Rightarrow> [] | Some e \<Rightarrow> drop e rest)"
  note eq = assms(1) [unfolded ParseUri_def Let_def, folded str0_def, unfolded colon option.case,
      folded sch_def rest_def, folded sp_def, folded auth_def tail_def]
  have sch: "sch = ''http'' \<or> sch = ''https''" using eq by (auto split: if_splits)
  obtain v where v: "ParseAuthority auth (Uri_empty\<lparr>scheme := sch\<rparr>) = Inr v"
    using eq by (auto split: if_splits sum.splits)
  then have u: "u = (SplitPathAndQuery tail v)\<lparr>uri_path := RemoveDotSegments (uri_path (SplitPathAndQuery tail v))\<rparr>"
    using eq by (simp split: if_splits)
  have rest: "CHR ''#'' \<notin> set rest" using frag by (auto simp: rest_def dest: in_set_dropD)
  have auth: "\<forall>c\<in>set auth. \<not> delimiter c"
    and tail: "tail = [] \<or> hd tail = CHR ''/'' \<or> hd tail = CHR ''?''" "CHR ''#'' \<notin> set tail"
    using cut_parts [OF rest] by (auto simp: auth_def tail_def sp_def)
  obtain user h p where a: "v = (Uri_empty\<lparr>scheme := sch\<rparr>)\<lparr>userinfo := user, host := h, port := p\<rparr>"
    "\<forall>c\<in>set user. \<not> delimiter c" "h = [] \<or> host_ok h" "p \<le> 65535"
    using ParseAuthority_facts [OF v auth] by (auto simp: Uri_empty_def)
  obtain pa q hq where b: "SplitPathAndQuery tail v = v\<lparr>uri_path := pa, uri_query := q, hasQuery := hq\<rparr>"
    "pa \<noteq> []" "hd pa = CHR ''/''" "CHR ''?'' \<notin> set pa" "CHR ''#'' \<notin> set pa" "CHR ''#'' \<notin> set q" "\<not> hq \<longrightarrow> q = []"
    using SplitPathAndQuery_facts [OF tail] by metis
  have "h \<noteq> []" using assms(2) u a(1) b(1) by simp
  then show ?thesis
    using u a b sch RemoveDotSegments_facts [OF b(2,3)] by (auto simp: uri_wf_def)
qed

lemmas uri_eval = ParseUri_def StripFragment_def ParseAuthority_def port_colon_def SplitPathAndQuery_def
  RemoveDotSegments_def LowerAscii_def Uri_empty_def Let_def to_lower_def is_upper_ord is_digit_ord digit_val_def ord_def

text \<open>
  Printing a parsed URI and parsing the result gives the same URI, with a port that is
  the scheme's default written as absent; printing again gives the same text. This holds
  for every text the parser accepts with a host.
\<close>

theorem ParseUri_roundtrip:
  assumes "ParseUri t = Inr u" "host u \<noteq> []"
  shows "ParseUri (Uri_ToString u) = Inr (u\<lparr>port := if port u = DefaultPort u then 0 else port u\<rparr>) \<and>
    Uri_ToString (u\<lparr>port := if port u = DefaultPort u then 0 else port u\<rparr>) = Uri_ToString u"
  using ParseUri_print [OF ParseUri_wf [OF assms]]
  by (auto simp: shown_port_def Uri_ToString_def Compose_def DefaultPort_def IsSecure_def)

theorem ParseUri_roundtrip_witness:
  "\<exists>u. ParseUri ''https://u@[::1]:443/a/./b/../c?q#f'' = Inr u \<and> ParseUri (Uri_ToString u) = Inr (u\<lparr>port := 0\<rparr>)"
proof -
  have p: "ParseUri ''https://u@[::1]:443/a/./b/../c?q#f'' =
      Inr \<lparr>scheme = ''https'', userinfo = ''u'', host = ''[::1]'', port = 443, uri_path = ''/a/c'', uri_query = ''q'', hasQuery = True\<rparr>"
    by (simp add: uri_eval)
  show ?thesis using p ParseUri_roundtrip [OF p] by (simp add: DefaultPort_def IsSecure_def)
qed

text \<open>
  The identity of a URI, which names it in cache keys, diagnostics and metrics, is a
  URI without credentials: parsing it gives everything but the userinfo, and it does not
  depend on the userinfo.
\<close>

theorem ToIdentity_no_credentials:
  assumes "ParseUri t = Inr u" "host u \<noteq> []"
  shows "ParseUri (ToIdentity u) = Inr (u\<lparr>userinfo := [], port := if port u = DefaultPort u then 0 else port u\<rparr>) \<and>
    (\<forall>secret. ToIdentity (u\<lparr>userinfo := secret\<rparr>) = ToIdentity u)"
proof -
  have "uri_wf (u\<lparr>userinfo := []\<rparr>)" using ParseUri_wf [OF assms] by (simp add: uri_wf_def)
  moreover have "Uri_ToString (u\<lparr>userinfo := []\<rparr>) = ToIdentity u"
    by (simp add: Uri_ToString_def ToIdentity_def Compose_def DefaultPort_def IsSecure_def)
  ultimately show ?thesis
    using ParseUri_print [of "u\<lparr>userinfo := []\<rparr>"]
    by (simp add: shown_port_def DefaultPort_def IsSecure_def ToIdentity_def Compose_def)
qed

theorem ToIdentity_no_credentials_witness:
  "\<exists>u. ParseUri ''http://me:pw@h/a'' = Inr u \<and> ParseUri (ToIdentity u) = Inr (u\<lparr>userinfo := []\<rparr>)"
proof -
  have p: "ParseUri ''http://me:pw@h/a'' =
      Inr \<lparr>scheme = ''http'', userinfo = ''me:pw'', host = ''h'', port = 0, uri_path = ''/a'', uri_query = [], hasQuery = False\<rparr>"
    by (simp add: uri_eval)
  show ?thesis using p ToIdentity_no_credentials [OF p] by (simp add: DefaultPort_def IsSecure_def)
qed

text \<open>
  The parser accepts a URI without a host when a port is present, although it refuses
  one without host and port with the message that the URI has no host.
\<close>

theorem empty_host_accepted:
  "ParseUri ''http://:8080/a'' = Inr \<lparr>scheme = ''http'', userinfo = [], host = [], port = 8080, uri_path = ''/a'',
     uri_query = [], hasQuery = False\<rparr> \<and> ParseUri ''http:///a'' = Inl ''URI has no host''"
  by (simp add: uri_eval)

section \<open>References\<close>

text \<open>A reference that begins with a scheme.\<close>

definition has_scheme :: "string \<Rightarrow> bool" where
  "has_scheme reference \<longleftrightarrow>
    (let colon = find_index (\<lambda>c. c = CHR '':'') reference; firstDelimiter = find_index (\<lambda>c. c \<in> set ''/?#'') reference
     in colon \<noteq> None \<and> (firstDelimiter = None \<or> the colon < the firstDelimiter))"

lemma reference_path_facts:
  assumes "b \<noteq> []" "hd b = CHR ''/''"
  shows "hd (reference_path b r) = CHR ''/''" "reference_path b r \<noteq> []" "no_dots (reference_path b r)"
    "set (reference_path b r) \<subseteq> set b \<union> set r"
proof -
  define m where "m = (if r \<noteq> [] \<and> hd r = CHR ''/'' then r
    else (case rfind_index (\<lambda>c. c = CHR ''/'') b of None \<Rightarrow> [] | Some slash \<Rightarrow> take (slash + 1) b) @ r)"
  have "\<exists>slash. rfind_index (\<lambda>c. c = CHR ''/'') b = Some slash"
    using rfind_index_None [of "\<lambda>c. c = CHR ''/''" b] hd_in_set [OF assms(1)] assms(2) by (cases "rfind_index (\<lambda>c. c = CHR ''/'') b") auto
  then obtain slash where slash: "rfind_index (\<lambda>c. c = CHR ''/'') b = Some slash" by blast
  have m: "m \<noteq> []" "hd m = CHR ''/''" "set m \<subseteq> set b \<union> set r"
    using assms slash by (cases b; auto simp: m_def dest: in_set_takeD)+
  note f = RemoveDotSegments_facts [OF m(1,2)]
  have "reference_path b r = (if RemoveDotSegments m = [] \<or> hd (RemoveDotSegments m) \<noteq> CHR ''/''
      then CHR ''/'' # RemoveDotSegments m else RemoveDotSegments m)"
    unfolding reference_path_def m_def Let_def if_distrib [of RemoveDotSegments] ..
  then have eq: "reference_path b r = RemoveDotSegments m" using f(1,2) by simp
  show "hd (reference_path b r) = CHR ''/''" "reference_path b r \<noteq> []" "no_dots (reference_path b r)"
    "set (reference_path b r) \<subseteq> set b \<union> set r"
    using f m(3) by (auto simp: eq)
qed

lemma resolve_relative_wf:
  assumes "uri_wf base" "CHR ''#'' \<notin> set r" "r \<noteq> []"
  shows "uri_wf (resolve_relative base r)"
proof (cases "hd r = CHR ''?''")
  case True
  then show ?thesis using assms by (cases r) (auto simp: resolve_relative_def uri_wf_def Uri_empty_def)
next
  case False
  have b: "uri_path base \<noteq> []" "hd (uri_path base) = CHR ''/''" "CHR ''?'' \<notin> set (uri_path base)" "CHR ''#'' \<notin> set (uri_path base)"
    using assms(1) by (simp_all add: uri_wf_def)
  note f = reference_path_facts [OF b(1,2)]
  show ?thesis
  proof (cases "find_index (\<lambda>c. c = CHR ''?'') r")
    case None
    then have "CHR ''?'' \<notin> set r" using find_index_None [of "\<lambda>c. c = CHR ''?''" r] by auto
    then show ?thesis
      using None False assms(1,2) f(1-3) [of r] f(4) [of r] b(3,4) by (auto simp: resolve_relative_def uri_wf_def Uri_empty_def)
  next
    case (Some q)
    have t: "CHR ''?'' \<notin> set (take q r)" "CHR ''#'' \<notin> set (take q r)" "CHR ''#'' \<notin> set (drop (q + 1) r)"
      using find_index_SomeD(3) [OF Some] assms(2) by (auto dest: in_set_takeD in_set_dropD)
    then show ?thesis
      using Some False assms(1) f(1-3) [of "take q r"] f(4) [of "take q r"] b(3,4)
      by (auto simp: resolve_relative_def uri_wf_def Uri_empty_def)
  qed
qed

lemma ParseAuthority_scheme: "ParseAuthority auth v = Inr u \<Longrightarrow> scheme u = scheme v"
  by (auto simp: ParseAuthority_def Let_def split: sum.splits option.splits if_splits prod.splits)

lemma SplitPathAndQuery_scheme: "scheme (SplitPathAndQuery rest v) = scheme v"
  by (simp add: SplitPathAndQuery_def Let_def split: option.splits)

lemma ParseUri_same_scheme:
  assumes "sch = ''http'' \<or> sch = ''https''" "CHR ''#'' \<notin> set r" "ParseUri (sch @ '':'' @ r) = Inr u"
  shows "scheme u = sch"
proof -
  have strip: "StripFragment (sch @ '':'' @ r) = sch @ '':'' @ r" using assms(1,2) by (intro StripFragment_id) auto
  have low: "LowerAscii sch = sch" using assms(1) by (auto simp: uri_eval)
  have find: "find_index (\<lambda>c. c = CHR '':'') (sch @ '':'' @ r) = Some (length sch)" using assms(1) by auto
  show ?thesis
    using assms(3) unfolding ParseUri_def Let_def strip find
    by (auto simp: low SplitPathAndQuery_scheme dest!: ParseAuthority_scheme split: if_splits sum.splits)
qed


lemmas reference_eval = uri_eval ResolveReference_def resolve_relative_def reference_path_def has_scheme_def


end
