(* ===== verification/Diagnostics.thy ===== *)
theory Diagnostics
  imports Prelude
begin

text \<open>
  \<open>libs/usd-asset-io\<close>: the status vocabulary every backend reports with
  (\<open>Diagnostics.h\<close>, \<open>Diagnostics.cpp\<close>) and \<open>ElideSecrets\<close>, the only way an identifier
  reaches a message. \<open>std::optional\<close> fields are \<open>option\<close>; the transport's own
  status is an \<open>int\<close> as in the source. The two overloads of each \<open>With...\<close> method
  differ in value category only and are one definition here.
\<close>

section \<open>Status\<close>

datatype Severity = Warning | SevError | CodingError

datatype StatusCode =
    Ok
  | NotFound
  | AccessDenied
  | RangeNotSupported
  | InvalidResponse
  | NetworkError
  | Timeout
  | AssetChanged
  | Cancelled
  | InvalidArgument
  | Unsupported

record Status =
  code :: StatusCode
  severity :: Severity
  message :: string
  byteOffset :: "u64 option"
  byteLength :: "u64 option"
  transportStatus :: "int option"

fun StatusCodeName :: "StatusCode \<Rightarrow> string" where
  "StatusCodeName Ok = ''Ok''"
| "StatusCodeName NotFound = ''NotFound''"
| "StatusCodeName AccessDenied = ''AccessDenied''"
| "StatusCodeName RangeNotSupported = ''RangeNotSupported''"
| "StatusCodeName InvalidResponse = ''InvalidResponse''"
| "StatusCodeName NetworkError = ''NetworkError''"
| "StatusCodeName Timeout = ''Timeout''"
| "StatusCodeName AssetChanged = ''AssetChanged''"
| "StatusCodeName Cancelled = ''Cancelled''"
| "StatusCodeName InvalidArgument = ''InvalidArgument''"
| "StatusCodeName Unsupported = ''Unsupported''"

fun SeverityName :: "Severity \<Rightarrow> string" where
  "SeverityName Warning = ''warning''"
| "SeverityName SevError = ''error''"
| "SeverityName CodingError = ''coding error''"

fun DefaultSeverity :: "StatusCode \<Rightarrow> Severity" where
  "DefaultSeverity Ok = SevError"
| "DefaultSeverity Cancelled = Warning"
| "DefaultSeverity InvalidArgument = CodingError"
| "DefaultSeverity _ = SevError"

definition Status_Ok :: Status where
  "Status_Ok = \<lparr>code = Ok, severity = SevError, message = '''', byteOffset = None,
     byteLength = None, transportStatus = None\<rparr>"

definition IsOk :: "Status \<Rightarrow> bool" where
  "IsOk s \<longleftrightarrow> code s = Ok"

definition Status_Error :: "StatusCode \<Rightarrow> string \<Rightarrow> Status" where
  "Status_Error c msg = Status_Ok\<lparr>code := c, severity := DefaultSeverity c, message := msg\<rparr>"

definition WithRange :: "u64 \<Rightarrow> u64 \<Rightarrow> Status \<Rightarrow> Status" where
  "WithRange off len s = s\<lparr>byteOffset := Some off, byteLength := Some len\<rparr>"

definition WithTransportStatus :: "int \<Rightarrow> Status \<Rightarrow> Status" where
  "WithTransportStatus n s = s\<lparr>transportStatus := Some n\<rparr>"

definition WithSeverity :: "Severity \<Rightarrow> Status \<Rightarrow> Status" where
  "WithSeverity v s = s\<lparr>severity := v\<rparr>"

definition to_string_int :: "int \<Rightarrow> string" where
  "to_string_int n = (if n < 0 then CHR ''-'' # to_dec (nat (- n)) else to_dec (nat n))"

definition Status_ToString :: "Status \<Rightarrow> string" where
  "Status_ToString s =
     StatusCodeName (code s) @ '' ('' @ SeverityName (severity s) @ '')'' @
     (if message s \<noteq> [] then '': '' @ message s else []) @
     (if byteOffset s \<noteq> None \<or> byteLength s \<noteq> None
      then '' ['' @
        (case byteOffset s of Some off \<Rightarrow> ''offset '' @ to_dec (unat off) | None \<Rightarrow> []) @
        (case byteLength s of
           Some len \<Rightarrow> (if byteOffset s \<noteq> None then '', '' else []) @ ''length '' @ to_dec (unat len)
         | None \<Rightarrow> []) @ '']''
      else []) @
     (case transportStatus s of Some t \<Rightarrow> '' [transport '' @ to_string_int t @ '']'' | None \<Rightarrow> [])"

lemmas status_defs = Status_Ok_def Status_Error_def WithRange_def WithTransportStatus_def
  WithSeverity_def IsOk_def

lemma code_Status [simp]:
  "code Status_Ok = Ok" "code (Status_Error c m) = c" "code (WithRange off len s) = code s"
  "code (WithTransportStatus n s) = code s" "code (WithSeverity v s) = code s"
  by (simp_all add: status_defs)

lemma StatusCodeName_inject: "StatusCodeName a = StatusCodeName b \<longleftrightarrow> a = b"
  by (cases a; cases b) simp_all

section \<open>Elision of secrets\<close>

definition scheme_char :: "char \<Rightarrow> bool" where
  "scheme_char c \<longleftrightarrow> is_lower c \<or> is_upper c \<or> is_digit c \<or> c \<in> set ''+-.''"

definition IsScheme :: "string \<Rightarrow> bool" where
  "IsScheme text = (case text of [] \<Rightarrow> False
     | first # _ \<Rightarrow> (is_lower first \<or> is_upper first) \<and> list_all scheme_char text)"

definition FindAuthority :: "string \<Rightarrow> nat option" where
  "FindAuthority identifier =
    (if take 2 identifier = ''//'' then Some 2
     else case find_sub ''://'' identifier of
        Some separator \<Rightarrow>
          if IsScheme (take separator identifier) then Some (separator + 3) else None
      | None \<Rightarrow> None)"

definition elide_query :: "string \<Rightarrow> string" where
  "elide_query identifier =
    (case find_index (\<lambda>c. c = CHR ''?'') identifier of
       Some query \<Rightarrow> take query identifier @ ''?<elided>''
     | None \<Rightarrow> identifier)"

definition elide_userinfo :: "string \<Rightarrow> string" where
  "elide_userinfo out =
    (case FindAuthority out of None \<Rightarrow> out
     | Some authorityBegin \<Rightarrow>
        (let authorityEnd = (case find_index (\<lambda>c. c \<in> set ''/?#'') (drop authorityBegin out) of
                               Some i \<Rightarrow> authorityBegin + i | None \<Rightarrow> length out)
         in case rfind_index (\<lambda>c. c = CHR ''@'') (take (Suc authorityEnd) out) of
              Some at \<Rightarrow>
                if authorityBegin \<le> at \<and> at < authorityEnd
                then take authorityBegin out @ ''<elided>@'' @ drop (Suc at) out
                else out
            | None \<Rightarrow> out))"

definition ElideSecrets :: "string \<Rightarrow> string" where
  "ElideSecrets identifier = elide_userinfo (elide_query identifier)"

lemma IsScheme_not_Nil: "IsScheme s \<Longrightarrow> s \<noteq> []"
  by (auto simp: IsScheme_def)

lemma IsScheme_chars: "IsScheme s \<Longrightarrow> c \<in> set s \<Longrightarrow> scheme_char c"
  by (auto simp: IsScheme_def list_all_iff split: list.splits)

lemma scheme_char_delims:
  "scheme_char c \<Longrightarrow> c \<noteq> CHR '':'' \<and> c \<noteq> CHR ''/'' \<and> c \<noteq> CHR ''?'' \<and> c \<noteq> CHR ''#'' \<and> c \<noteq> CHR ''@''"
  by (auto simp: scheme_char_def is_lower_def is_upper_def is_digit_def)

lemma FindAuthority_scheme:
  assumes "IsScheme sch"
  shows "FindAuthority (sch @ ''://'' @ rest) = Some (length sch + 3)"
proof -
  obtain c cs where sch: "sch = c # cs" using IsScheme_not_Nil [OF assms] by (cases sch) auto
  have "c \<noteq> CHR ''/''" using IsScheme_chars [OF assms, of c] scheme_char_delims sch by auto
  then have "take 2 (sch @ ''://'' @ rest) \<noteq> ''//''" by (simp add: sch)
  moreover have "find_sub ''://'' (sch @ ''://'' @ rest) = Some (length sch)"
    using find_sub_append [of sch "CHR '':''" "''//''" rest]
      IsScheme_chars [OF assms] scheme_char_delims by auto
  ultimately show ?thesis using assms by (simp add: FindAuthority_def)
qed

lemma FindAuthority_relative: "FindAuthority (''//'' @ rest) = Some 2"
  by (simp add: FindAuthority_def)

lemma FindAuthority_cases:
  assumes "FindAuthority s = Some b"
  obtains pre rest where "s = pre @ rest" "length pre = b" "\<forall>c\<in>set pre. c \<noteq> CHR ''?''"
    "\<forall>r. FindAuthority (pre @ r) = Some b"
proof (cases "take 2 s = ''//''")
  case True
  then have "b = 2" using assms by (simp add: FindAuthority_def)
  moreover have "s = ''//'' @ drop 2 s" using append_take_drop_id [of 2 s] True by simp
  ultimately show ?thesis using that [of "''//''"] FindAuthority_relative by simp
next
  case False
  then obtain k where k: "find_sub ''://'' s = Some k" "IsScheme (take k s)" "b = k + 3"
    using assms by (auto simp: FindAuthority_def split: option.splits if_splits)
  from find_sub_SomeD [OF k(1)] obtain sch rest
    where s: "s = sch @ ''://'' @ rest" and l: "length sch = k" by blast
  have sch: "IsScheme sch" using k(2) s l by simp
  show ?thesis
  proof (rule that [of "sch @ ''://''" rest])
    show "\<forall>c\<in>set (sch @ ''://''). c \<noteq> CHR ''?''"
      using IsScheme_chars [OF sch] scheme_char_delims by auto
    show "\<forall>r. FindAuthority ((sch @ ''://'') @ r) = Some b"
      using FindAuthority_scheme [OF sch] l k(3) by simp
  qed (use s l k(3) in simp_all)
qed

lemma authority_end:
  assumes "\<forall>c\<in>set auth. c \<notin> set ''/?#''" and "tail = [] \<or> hd tail \<in> set ''/?#''"
  shows "(case find_index (\<lambda>c. c \<in> set ''/?#'') (drop (length pre) (pre @ auth @ tail)) of
            Some i \<Rightarrow> length pre + i | None \<Rightarrow> length (pre @ auth @ tail)) = length pre + length auth"
proof (cases tail)
  case Nil
  then have "find_index (\<lambda>c. c \<in> set ''/?#'') (auth @ tail) = None" using assms(1) by simp
  with Nil show ?thesis by simp
next
  case (Cons t ts)
  then have "find_index (\<lambda>c. c \<in> set ''/?#'') (auth @ t # ts) = Some (length auth)"
    using assms by (intro find_index_append) auto
  with Cons show ?thesis by simp
qed

lemma elide_userinfo_marks:
  assumes "FindAuthority (pre @ (u @ CHR ''@'' # h) @ tail) = Some (length pre)"
    and "\<forall>c\<in>set (u @ CHR ''@'' # h). c \<notin> set ''/?#''" and "tail = [] \<or> hd tail \<in> set ''/?#''"
    and "CHR ''@'' \<notin> set h"
  shows "elide_userinfo (pre @ (u @ CHR ''@'' # h) @ tail) = pre @ ''<elided>@'' @ h @ tail"
proof -
  let ?e = "length pre + length (u @ CHR ''@'' # h)"
  have e: "take (Suc ?e) (pre @ (u @ CHR ''@'' # h) @ tail) = (pre @ u) @ CHR ''@'' # (h @ take 1 tail)"
    by (simp add: numeral_eq_Suc)
  have "rfind_index (\<lambda>c. c = CHR ''@'') (take (Suc ?e) (pre @ (u @ CHR ''@'' # h) @ tail)) =
      Some (length (pre @ u))"
    unfolding e using assms(3,4) by (intro rfind_index_append) (cases tail; auto)+
  then show ?thesis
    unfolding elide_userinfo_def assms(1) option.case Let_def authority_end [OF assms(2,3)]
    by simp
qed

lemma elide_userinfo_none:
  assumes "FindAuthority (pre @ auth @ tail) = Some (length pre)"
    and "\<forall>c\<in>set auth. c \<notin> set ''/?#''" and "tail = [] \<or> hd tail \<in> set ''/?#''"
    and "CHR ''@'' \<notin> set auth"
  shows "elide_userinfo (pre @ auth @ tail) = pre @ auth @ tail"
proof -
  let ?s = "pre @ auth @ tail" and ?e = "length pre + length auth"
  have "\<not> (length pre \<le> at \<and> at < ?e)"
    if "rfind_index (\<lambda>c. c = CHR ''@'') (take (Suc ?e) ?s) = Some at" for at
  proof
    assume "length pre \<le> at \<and> at < ?e"
    then have "take (Suc ?e) ?s ! at = auth ! (at - length pre)"
      by (auto simp: nth_append)
    moreover have "take (Suc ?e) ?s ! at = CHR ''@''" using rfind_index_SomeD(2) [OF that] .
    ultimately show False
      using assms(4) \<open>length pre \<le> at \<and> at < ?e\<close> by (metis add_less_imp_less_left le_add_diff_inverse nth_mem)
  qed
  then show ?thesis
    unfolding elide_userinfo_def assms(1) option.case Let_def authority_end [OF assms(2,3)]
    by (auto split: option.split)
qed

lemma authority_split:
  obtains auth tail where "rest = auth @ tail" "\<forall>c\<in>set auth. c \<notin> set ''/?#''"
    "tail = [] \<or> hd tail \<in> set ''/?#''"
proof
  let ?P = "\<lambda>c. c \<notin> set ''/?#''"
  show "rest = takeWhile ?P rest @ dropWhile ?P rest" by simp
  show "\<forall>c\<in>set (takeWhile ?P rest). ?P c" by (blast dest: set_takeWhileD)
  show "dropWhile ?P rest = [] \<or> hd (dropWhile ?P rest) \<in> set ''/?#''"
    using hd_dropWhile [of ?P rest] by blast
qed

lemma elide_userinfo_cases:
  obtains (same) "elide_userinfo t = t"
  | (mark) pre u h tail where "t = pre @ (u @ CHR ''@'' # h) @ tail"
      "elide_userinfo t = pre @ (''<elided>'' @ CHR ''@'' # h) @ tail"
      "\<And>r. FindAuthority (pre @ r) = Some (length pre)"
      "\<forall>c\<in>set (u @ CHR ''@'' # h). c \<notin> set ''/?#''" "tail = [] \<or> hd tail \<in> set ''/?#''"
      "CHR ''@'' \<notin> set h" "CHR ''?'' \<notin> set pre"
proof (cases "FindAuthority t")
  case None
  then show ?thesis by (intro same) (simp add: elide_userinfo_def)
next
  case (Some b)
  then obtain pre rest
    where t: "t = pre @ rest" and b: "length pre = b" "\<forall>c\<in>set pre. c \<noteq> CHR ''?''"
      and fa: "\<forall>r. FindAuthority (pre @ r) = Some b" by (rule FindAuthority_cases)
  obtain auth tail where r: "rest = auth @ tail" and a: "\<forall>c\<in>set auth. c \<notin> set ''/?#''"
    "tail = [] \<or> hd tail \<in> set ''/?#''" by (rule authority_split)
  show ?thesis
  proof (cases "CHR ''@'' \<in> set auth")
    case True
    then obtain u h where uh: "auth = u @ CHR ''@'' # h" "CHR ''@'' \<notin> set h"
      using split_list_last [OF True] by blast
    show ?thesis
    proof (rule mark [of pre u h tail])
      show "elide_userinfo t = pre @ (''<elided>'' @ CHR ''@'' # h) @ tail"
        using elide_userinfo_marks [of pre u h tail] fa b(1) a uh t r by simp
    qed (use fa b a uh t r in auto)
  next
    case False
    then show ?thesis using same elide_userinfo_none [of pre auth tail] fa b a t r by simp
  qed
qed

lemma elide_userinfo_idem: "elide_userinfo (elide_userinfo t) = elide_userinfo t"
proof (cases t rule: elide_userinfo_cases)
  case (mark pre u h tail)
  have "elide_userinfo (pre @ (''<elided>'' @ CHR ''@'' # h) @ tail) = pre @ ''<elided>@'' @ h @ tail"
    using mark by (intro elide_userinfo_marks) auto
  then show ?thesis using mark(2) by simp
qed simp

definition query_elided :: "string \<Rightarrow> bool" where
  "query_elided t \<longleftrightarrow> CHR ''?'' \<notin> set t \<or> (\<exists>p. CHR ''?'' \<notin> set p \<and> t = p @ ''?<elided>'')"

lemma elide_query_cut:
  assumes "CHR ''?'' \<notin> set p"
  shows "elide_query (p @ CHR ''?'' # q) = p @ ''?<elided>''"
proof -
  have "find_index (\<lambda>c. c = CHR ''?'') (p @ CHR ''?'' # q) = Some (length p)"
    using assms by (intro find_index_append) auto
  then show ?thesis by (simp add: elide_query_def)
qed

lemma elide_query_same: "CHR ''?'' \<notin> set t \<Longrightarrow> elide_query t = t"
proof -
  assume "CHR ''?'' \<notin> set t"
  then have "find_index (\<lambda>c. c = CHR ''?'') t = None" by (intro find_index_NoneI) auto
  then show ?thesis by (simp add: elide_query_def)
qed

lemma query_elided_elide_query: "query_elided (elide_query t)"
proof (cases "CHR ''?'' \<in> set t")
  case True
  then obtain p q where "t = p @ CHR ''?'' # q" "CHR ''?'' \<notin> set p" by (meson split_list_first)
  then show ?thesis by (auto simp: elide_query_cut query_elided_def)
qed (simp add: elide_query_same query_elided_def)

lemma elide_query_query_elided: "query_elided t \<Longrightarrow> elide_query t = t"
  using elide_query_cut [of _ "''<elided>''"] by (auto simp: query_elided_def elide_query_same)

lemma query_elided_elide_userinfo:
  assumes "query_elided t"
  shows "query_elided (elide_userinfo t)"
proof (cases t rule: elide_userinfo_cases)
  case same
  then show ?thesis using assms by simp
next
  case (mark pre u h tail)
  let ?a = "pre @ u @ CHR ''@'' # h"
  have noq: "CHR ''?'' \<notin> set ?a" using mark by auto
  show ?thesis
  proof (cases "CHR ''?'' \<in> set t")
    case False
    then show ?thesis using mark by (auto simp: query_elided_def)
  next
    case True
    then obtain p where p: "CHR ''?'' \<notin> set p" "t = p @ ''?<elided>''"
      using assms by (auto simp: query_elided_def)
    have "CHR ''?'' \<in> set tail" using True noq mark(1) by auto
    then obtain q z where z: "tail = q @ CHR ''?'' # z" "CHR ''?'' \<notin> set q"
      by (meson split_list_first)
    then have "p @ CHR ''?'' # ''<elided>'' = (?a @ q) @ CHR ''?'' # z"
      using mark(1) p(2) by simp
    then have "z = ''<elided>''"
      using p(1) by (subst (asm) append_Cons_eq_iff) auto
    then have "elide_userinfo t = (pre @ ''<elided>@'' @ h @ q) @ ''?<elided>''"
      using mark(2) z(1) by simp
    then show ?thesis unfolding query_elided_def using noq z(2)
      by (intro disjI2 exI [of _ "pre @ ''<elided>@'' @ h @ q"]) simp
  qed
qed
lemma ElideSecrets_url:
  assumes "IsScheme sch"
    and "\<forall>c\<in>set (user @ host). c \<notin> set ''/?#''" and "CHR ''@'' \<notin> set host"
    and "path = [] \<or> hd path \<in> set ''/#''" and "CHR ''?'' \<notin> set path"
  shows "ElideSecrets (sch @ ''://'' @ user @ ''@'' @ host @ path @ ''?'' @ query) =
           sch @ ''://<elided>@'' @ host @ path @ ''?<elided>''"
    and "ElideSecrets (sch @ ''://'' @ user @ ''@'' @ host @ path) =
           sch @ ''://<elided>@'' @ host @ path"
proof -
  let ?p = "sch @ ''://'' @ user @ ''@'' @ host @ path"
  have noq: "CHR ''?'' \<notin> set ?p"
    using assms IsScheme_chars [OF assms(1)] scheme_char_delims by auto
  have ui: "elide_userinfo ((sch @ ''://'') @ (user @ CHR ''@'' # host) @ tail) =
      (sch @ ''://'') @ ''<elided>@'' @ host @ tail"
    if "tail = [] \<or> hd tail \<in> set ''/?#''" for tail
    using assms(2,3) that FindAuthority_scheme [OF assms(1)] by (intro elide_userinfo_marks) auto
  have "path @ ''?<elided>'' = [] \<or> hd (path @ ''?<elided>'') \<in> set ''/?#''"
    and "path = [] \<or> hd path \<in> set ''/?#''" using assms(4) by (cases path; auto)+
  note ui = ui [OF this(1)] ui [OF this(2)]
  show "ElideSecrets ?p = sch @ ''://<elided>@'' @ host @ path"
    unfolding ElideSecrets_def elide_query_same [OF noq] using ui(2) by simp
  show "ElideSecrets (sch @ ''://'' @ user @ ''@'' @ host @ path @ ''?'' @ query) =
          sch @ ''://<elided>@'' @ host @ path @ ''?<elided>''"
    unfolding ElideSecrets_def using elide_query_cut [OF noq, of query] ui(1) by simp
qed


text \<open>
  On every URL with an authority, userinfo and a query, \<open>ElideSecrets\<close> keeps
  scheme, host and path verbatim and replaces the userinfo and the query by the
  marker, so the output does not depend on either of them; without a query only
  the userinfo is replaced.
\<close>

theorem ElideSecrets_exact:
  assumes "IsScheme sch"
    and "\<forall>c\<in>set (user @ host). c \<notin> set ''/?#''" and "CHR ''@'' \<notin> set host"
    and "path = [] \<or> hd path \<in> set ''/#''" and "CHR ''?'' \<notin> set path"
  shows "ElideSecrets (sch @ ''://'' @ user @ ''@'' @ host @ path @ ''?'' @ query) =
           sch @ ''://<elided>@'' @ host @ path @ ''?<elided>'' \<and>
         ElideSecrets (sch @ ''://'' @ user @ ''@'' @ host @ path) =
           sch @ ''://<elided>@'' @ host @ path"
  using ElideSecrets_url [OF assms] by simp

theorem ElideSecrets_exact_witness:
  "ElideSecrets ''https://u:t@h/a?sig=1'' = ''https://<elided>@h/a?<elided>'' \<and>
   ElideSecrets ''https://u:t@h/a'' = ''https://<elided>@h/a''"
  using ElideSecrets_exact [of "''https''" "''u:t''" "''h''" "''/a''" "''sig=1''"]
  by (simp add: IsScheme_def scheme_char_def is_lower_def)

text \<open>
  Elision is idempotent on every string: eliding an identifier that was already
  elided changes nothing, so a message built from messages never degrades.
\<close>

theorem ElideSecrets_idem: "ElideSecrets (ElideSecrets identifier) = ElideSecrets identifier"
  by (simp add: ElideSecrets_def elide_query_query_elided query_elided_elide_userinfo
      query_elided_elide_query elide_userinfo_idem)

end
