(* ===== verification/Metrics.thy ===== *)
theory Metrics
  imports Diagnostics "HOL-Library.Multiset" "HOL-Library.List_Lexorder" "HOL-Library.Product_Lexorder"
begin

text \<open>
  \<open>libs/usd-asset-io\<close>: latency histograms, per-reader counters and the process-wide
  registry (\<open>Metrics.h\<close>, \<open>Metrics.cpp\<close>). Every counter is a 64-bit word and wraps like
  the \<open>std::atomic<std::uint64_t>\<close> it models. Each operation is one atomic step here: the
  source's relaxed operations are single additions or maxima, which commute, so any
  interleaving of them has the effect of some sequence. The derived ratios are
  \<open>double\<close> quotients for display and are not modelled; neither is \<open>Dump\<close>.
\<close>

section \<open>Latency histogram\<close>

definition kBucketCount :: nat where
  "kBucketCount = 41"

record LatencyHistogram =
  h_buckets :: "u64 list"
  h_count :: u64
  h_sum :: u64
  h_max :: u64

record Summary =
  s_count :: u64
  s_sum :: u64
  s_max :: u64
  s_p50 :: u64
  s_p90 :: u64
  s_p99 :: u64

function BucketFor_loop :: "nat \<Rightarrow> u64 \<Rightarrow> u64 \<Rightarrow> nat" where
  "BucketFor_loop bucket bound us =
    (if bucket + 1 < kBucketCount \<and> us \<ge> bound * 2
     then BucketFor_loop (bucket + 1) (bound * 2) us else bucket)"
  by pat_completeness auto
termination by (relation "measure (\<lambda>(bucket, _). kBucketCount - bucket)") auto

declare BucketFor_loop.simps [simp del]

definition BucketFor :: "u64 \<Rightarrow> nat" where
  "BucketFor us = (if us = 0 then 0 else BucketFor_loop 1 1 us)"

primrec double_times :: "nat \<Rightarrow> u64 \<Rightarrow> u64" where
  "double_times 0 bound = bound"
| "double_times (Suc n) bound = double_times n (bound * 2)"

definition BucketUpperBound :: "nat \<Rightarrow> u64" where
  "BucketUpperBound bucket = (if bucket = 0 then 0 else double_times (bucket - 1) 1 * 2 - 1)"

definition LatencyHistogram_new :: LatencyHistogram where
  "LatencyHistogram_new =
    \<lparr>h_buckets = replicate kBucketCount 0, h_count = 0, h_sum = 0, h_max = 0\<rparr>"

definition Record :: "u64 \<Rightarrow> LatencyHistogram \<Rightarrow> LatencyHistogram" where
  "Record us h = h\<lparr>h_buckets := (h_buckets h)[BucketFor us := h_buckets h ! BucketFor us + 1],
     h_count := h_count h + 1, h_sum := h_sum h + us, h_max := max (h_max h) us\<rparr>"

text \<open>One turn of the quantile loop: the running total and, per quantile, the bound once found.\<close>

definition quantile_step :: "u64 \<Rightarrow> u64 \<Rightarrow> u64 \<Rightarrow> u64 option \<Rightarrow> u64 option" where
  "quantile_step cumulative bound rank found =
    (case found of Some p \<Rightarrow> Some p | None \<Rightarrow> if cumulative \<ge> rank then Some bound else None)"

fun Snapshot_loop :: "u64 list \<Rightarrow> nat \<Rightarrow> u64 \<Rightarrow> u64 \<times> u64 \<times> u64 \<Rightarrow>
    u64 option \<times> u64 option \<times> u64 option \<Rightarrow> u64 option \<times> u64 option \<times> u64 option" where
  "Snapshot_loop [] i cumulative ranks found = found"
| "Snapshot_loop (b # bs) i cumulative (r50, r90, r99) (f50, f90, f99) =
    (let cumulative' = cumulative + b; bound = BucketUpperBound i
     in Snapshot_loop bs (Suc i) cumulative' (r50, r90, r99)
          (quantile_step cumulative' bound r50 f50,
           quantile_step cumulative' bound r90 f90,
           quantile_step cumulative' bound r99 f99))"

definition or_zero :: "u64 option \<Rightarrow> u64" where
  "or_zero p = (case p of Some v \<Rightarrow> v | None \<Rightarrow> 0)"

definition Histogram_Snapshot :: "LatencyHistogram \<Rightarrow> Summary" where
  "Histogram_Snapshot h =
    (if h_count h = 0
     then \<lparr>s_count = h_count h, s_sum = h_sum h, s_max = h_max h, s_p50 = 0, s_p90 = 0, s_p99 = 0\<rparr>
     else let ranks = ((h_count h * 50 + 99) div 100, (h_count h * 90 + 99) div 100,
                       (h_count h * 99 + 99) div 100);
              (p50, p90, p99) = Snapshot_loop (h_buckets h) 0 0 ranks (None, None, None)
          in \<lparr>s_count = h_count h, s_sum = h_sum h, s_max = h_max h,
              s_p50 = min (or_zero p50) (h_max h), s_p90 = min (or_zero p90) (h_max h),
              s_p99 = min (or_zero p99) (h_max h)\<rparr>)"

definition Histogram_Reset :: "LatencyHistogram \<Rightarrow> LatencyHistogram" where
  "Histogram_Reset h = h\<lparr>h_buckets := map (\<lambda>_. 0) (h_buckets h), h_count := 0, h_sum := 0, h_max := 0\<rparr>"

definition Histogram_Fold :: "LatencyHistogram \<Rightarrow> LatencyHistogram \<Rightarrow> LatencyHistogram" where
  "Histogram_Fold h other =
    h\<lparr>h_buckets := map2 (+) (h_buckets h) (h_buckets other),
      h_count := h_count h + h_count other, h_sum := h_sum h + h_sum other,
      h_max := max (h_max h) (h_max other)\<rparr>"

definition ScopedLatency_record :: "u64 \<Rightarrow> u64 \<Rightarrow> LatencyHistogram \<Rightarrow> LatencyHistogram" where
  "ScopedLatency_record startNs endNs h =
    (let elapsed = (if endNs > startNs then endNs - startNs else 0)
     in Record (elapsed div 1000) h)"

section \<open>Counters\<close>

record Counters =
  assetSize :: u64
  bytesRequested :: u64
  bytesTransferred :: u64
  bytesFromCache :: u64
  requestCount :: u64
  metadataRequestCount :: u64
  retryCount :: u64
  redirectCount :: u64
  blockHits :: u64
  blockMisses :: u64
  partialHits :: u64
  requestsSavedByCoalescing :: u64
  requestsSavedBySingleFlight :: u64
  bytesOverFetched :: u64
  evictions :: u64
  peakResidentBytes :: u64
  persistedHits :: u64
  persistedWrites :: u64

text \<open>
  \<open>MetricsSnapshot\<close> and \<open>ReaderMetrics\<close> carry the same counters; the first with
  summaries and the second with histograms and the detached flag.
\<close>

record MetricsSnapshot = Counters +
  snap_identifier :: string
  snap_openLatency :: Summary
  snap_requestLatency :: Summary
  snap_readLatency :: Summary

record ReaderMetrics = Counters +
  rm_identifier :: string
  rm_detached :: bool
  rm_openLatency :: LatencyHistogram
  rm_requestLatency :: LatencyHistogram
  rm_readLatency :: LatencyHistogram

definition ReaderMetrics_new :: "string \<Rightarrow> ReaderMetrics" where
  "ReaderMetrics_new identifier =
    \<lparr>assetSize = 0, bytesRequested = 0, bytesTransferred = 0, bytesFromCache = 0, requestCount = 0,
     metadataRequestCount = 0, retryCount = 0, redirectCount = 0, blockHits = 0, blockMisses = 0,
     partialHits = 0, requestsSavedByCoalescing = 0, requestsSavedBySingleFlight = 0,
     bytesOverFetched = 0, evictions = 0, peakResidentBytes = 0, persistedHits = 0,
     persistedWrites = 0, rm_identifier = ElideSecrets identifier, rm_detached = False,
     rm_openLatency = LatencyHistogram_new, rm_requestLatency = LatencyHistogram_new,
     rm_readLatency = LatencyHistogram_new\<rparr>"

definition SetAssetSize :: "u64 \<Rightarrow> ReaderMetrics \<Rightarrow> ReaderMetrics" where
  "SetAssetSize n m = m\<lparr>assetSize := n\<rparr>"

definition AddBytesRequested :: "u64 \<Rightarrow> ReaderMetrics \<Rightarrow> ReaderMetrics" where
  "AddBytesRequested n m = m\<lparr>bytesRequested := bytesRequested m + n\<rparr>"

definition AddBytesTransferred :: "u64 \<Rightarrow> ReaderMetrics \<Rightarrow> ReaderMetrics" where
  "AddBytesTransferred n m = m\<lparr>bytesTransferred := bytesTransferred m + n\<rparr>"

definition AddBytesFromCache :: "u64 \<Rightarrow> ReaderMetrics \<Rightarrow> ReaderMetrics" where
  "AddBytesFromCache n m = m\<lparr>bytesFromCache := bytesFromCache m + n\<rparr>"

definition AddRequest :: "u64 \<Rightarrow> ReaderMetrics \<Rightarrow> ReaderMetrics" where
  "AddRequest n m = m\<lparr>requestCount := requestCount m + n\<rparr>"

definition AddMetadataRequest :: "u64 \<Rightarrow> ReaderMetrics \<Rightarrow> ReaderMetrics" where
  "AddMetadataRequest n m = m\<lparr>metadataRequestCount := metadataRequestCount m + n,
     requestCount := requestCount m + n\<rparr>"

definition AddRetry :: "u64 \<Rightarrow> ReaderMetrics \<Rightarrow> ReaderMetrics" where
  "AddRetry n m = m\<lparr>retryCount := retryCount m + n\<rparr>"

definition AddRedirect :: "u64 \<Rightarrow> ReaderMetrics \<Rightarrow> ReaderMetrics" where
  "AddRedirect n m = m\<lparr>redirectCount := redirectCount m + n\<rparr>"

definition AddBlockHit :: "u64 \<Rightarrow> ReaderMetrics \<Rightarrow> ReaderMetrics" where
  "AddBlockHit n m = m\<lparr>blockHits := blockHits m + n\<rparr>"

definition AddBlockMiss :: "u64 \<Rightarrow> ReaderMetrics \<Rightarrow> ReaderMetrics" where
  "AddBlockMiss n m = m\<lparr>blockMisses := blockMisses m + n\<rparr>"

definition AddPartialHit :: "u64 \<Rightarrow> ReaderMetrics \<Rightarrow> ReaderMetrics" where
  "AddPartialHit n m = m\<lparr>partialHits := partialHits m + n\<rparr>"

definition AddRequestsSavedByCoalescing :: "u64 \<Rightarrow> ReaderMetrics \<Rightarrow> ReaderMetrics" where
  "AddRequestsSavedByCoalescing n m =
     m\<lparr>requestsSavedByCoalescing := requestsSavedByCoalescing m + n\<rparr>"

definition AddRequestsSavedBySingleFlight :: "u64 \<Rightarrow> ReaderMetrics \<Rightarrow> ReaderMetrics" where
  "AddRequestsSavedBySingleFlight n m =
     m\<lparr>requestsSavedBySingleFlight := requestsSavedBySingleFlight m + n\<rparr>"

definition AddBytesOverFetched :: "u64 \<Rightarrow> ReaderMetrics \<Rightarrow> ReaderMetrics" where
  "AddBytesOverFetched n m = m\<lparr>bytesOverFetched := bytesOverFetched m + n\<rparr>"

definition AddEviction :: "u64 \<Rightarrow> ReaderMetrics \<Rightarrow> ReaderMetrics" where
  "AddEviction n m = m\<lparr>evictions := evictions m + n\<rparr>"

definition AddPersistedHit :: "u64 \<Rightarrow> ReaderMetrics \<Rightarrow> ReaderMetrics" where
  "AddPersistedHit n m = m\<lparr>persistedHits := persistedHits m + n\<rparr>"

definition AddPersistedWrite :: "u64 \<Rightarrow> ReaderMetrics \<Rightarrow> ReaderMetrics" where
  "AddPersistedWrite n m = m\<lparr>persistedWrites := persistedWrites m + n\<rparr>"

definition ObserveResidentBytes :: "u64 \<Rightarrow> ReaderMetrics \<Rightarrow> ReaderMetrics" where
  "ObserveResidentBytes n m = m\<lparr>peakResidentBytes := max (peakResidentBytes m) n\<rparr>"

definition DetachFromRegistry :: "ReaderMetrics \<Rightarrow> ReaderMetrics" where
  "DetachFromRegistry m = m\<lparr>rm_detached := True\<rparr>"

definition ReaderMetrics_AbsorbTransport :: "ReaderMetrics \<Rightarrow> ReaderMetrics \<Rightarrow> ReaderMetrics" where
  "ReaderMetrics_AbsorbTransport inner m =
    m\<lparr>assetSize := max (assetSize m) (assetSize inner),
      bytesTransferred := bytesTransferred m + bytesTransferred inner,
      requestCount := requestCount m + requestCount inner,
      metadataRequestCount := metadataRequestCount m + metadataRequestCount inner,
      retryCount := retryCount m + retryCount inner,
      redirectCount := redirectCount m + redirectCount inner,
      rm_openLatency := Histogram_Fold (rm_openLatency m) (rm_openLatency inner),
      rm_requestLatency := Histogram_Fold (rm_requestLatency m) (rm_requestLatency inner)\<rparr>"

definition ReaderMetrics_Snapshot :: "ReaderMetrics \<Rightarrow> MetricsSnapshot" where
  "ReaderMetrics_Snapshot m =
    \<lparr>assetSize = assetSize m, bytesRequested = bytesRequested m,
     bytesTransferred = bytesTransferred m, bytesFromCache = bytesFromCache m,
     requestCount = requestCount m, metadataRequestCount = metadataRequestCount m,
     retryCount = retryCount m, redirectCount = redirectCount m, blockHits = blockHits m,
     blockMisses = blockMisses m, partialHits = partialHits m,
     requestsSavedByCoalescing = requestsSavedByCoalescing m,
     requestsSavedBySingleFlight = requestsSavedBySingleFlight m,
     bytesOverFetched = bytesOverFetched m, evictions = evictions m,
     peakResidentBytes = peakResidentBytes m, persistedHits = persistedHits m,
     persistedWrites = persistedWrites m, snap_identifier = rm_identifier m,
     snap_openLatency = Histogram_Snapshot (rm_openLatency m),
     snap_requestLatency = Histogram_Snapshot (rm_requestLatency m),
     snap_readLatency = Histogram_Snapshot (rm_readLatency m)\<rparr>"

definition mergeLatency :: "Summary \<Rightarrow> Summary \<Rightarrow> Summary" where
  "mergeLatency into from =
    into\<lparr>s_count := s_count into + s_count from, s_sum := s_sum into + s_sum from,
      s_max := max (s_max into) (s_max from), s_p50 := 0, s_p90 := 0, s_p99 := 0\<rparr>"

definition Snapshot_AbsorbTransport :: "MetricsSnapshot \<Rightarrow> MetricsSnapshot \<Rightarrow> MetricsSnapshot" where
  "Snapshot_AbsorbTransport inner s =
    s\<lparr>assetSize := max (assetSize s) (assetSize inner),
      bytesTransferred := bytesTransferred s + bytesTransferred inner,
      requestCount := requestCount s + requestCount inner,
      metadataRequestCount := metadataRequestCount s + metadataRequestCount inner,
      retryCount := retryCount s + retryCount inner,
      redirectCount := redirectCount s + redirectCount inner,
      snap_openLatency := snap_openLatency inner,
      snap_requestLatency := snap_requestLatency inner\<rparr>"

definition Snapshot_Add :: "MetricsSnapshot \<Rightarrow> MetricsSnapshot \<Rightarrow> MetricsSnapshot" where
  "Snapshot_Add s other =
    s\<lparr>assetSize := assetSize s + assetSize other,
      bytesRequested := bytesRequested s + bytesRequested other,
      bytesTransferred := bytesTransferred s + bytesTransferred other,
      bytesFromCache := bytesFromCache s + bytesFromCache other,
      requestCount := requestCount s + requestCount other,
      metadataRequestCount := metadataRequestCount s + metadataRequestCount other,
      retryCount := retryCount s + retryCount other,
      redirectCount := redirectCount s + redirectCount other,
      blockHits := blockHits s + blockHits other,
      blockMisses := blockMisses s + blockMisses other,
      partialHits := partialHits s + partialHits other,
      requestsSavedByCoalescing := requestsSavedByCoalescing s + requestsSavedByCoalescing other,
      requestsSavedBySingleFlight := requestsSavedBySingleFlight s + requestsSavedBySingleFlight other,
      bytesOverFetched := bytesOverFetched s + bytesOverFetched other,
      evictions := evictions s + evictions other,
      peakResidentBytes := max (peakResidentBytes s) (peakResidentBytes other),
      persistedHits := persistedHits s + persistedHits other,
      persistedWrites := persistedWrites s + persistedWrites other,
      snap_openLatency := mergeLatency (snap_openLatency s) (snap_openLatency other),
      snap_requestLatency := mergeLatency (snap_requestLatency s) (snap_requestLatency other),
      snap_readLatency := mergeLatency (snap_readLatency s) (snap_readLatency other)\<rparr>"

section \<open>Registry\<close>

text \<open>
  The per-asset table is an \<open>std::unordered_map\<close>; its iteration order is only ever
  observed through the sort of \<open>TopAssetsByBytesTransferred\<close>, so an association list with
  distinct keys stands for it.
\<close>

definition kMaxTrackedIdentifiers :: nat where
  "kMaxTrackedIdentifiers = 4096"

record MetricsRegistry =
  reg_aggregate :: MetricsSnapshot
  reg_openLatency :: LatencyHistogram
  reg_requestLatency :: LatencyHistogram
  reg_readLatency :: LatencyHistogram
  reg_perAsset :: "(string \<times> MetricsSnapshot) list"

definition Summary_zero :: Summary where
  "Summary_zero = \<lparr>s_count = 0, s_sum = 0, s_max = 0, s_p50 = 0, s_p90 = 0, s_p99 = 0\<rparr>"

definition Snapshot_zero :: MetricsSnapshot where
  "Snapshot_zero =
    \<lparr>assetSize = 0, bytesRequested = 0, bytesTransferred = 0, bytesFromCache = 0, requestCount = 0,
     metadataRequestCount = 0, retryCount = 0, redirectCount = 0, blockHits = 0, blockMisses = 0,
     partialHits = 0, requestsSavedByCoalescing = 0, requestsSavedBySingleFlight = 0,
     bytesOverFetched = 0, evictions = 0, peakResidentBytes = 0, persistedHits = 0,
     persistedWrites = 0, snap_identifier = '''', snap_openLatency = Summary_zero,
     snap_requestLatency = Summary_zero, snap_readLatency = Summary_zero\<rparr>"

definition Registry_empty :: MetricsRegistry where
  "Registry_empty =
    \<lparr>reg_aggregate = Snapshot_zero, reg_openLatency = LatencyHistogram_new,
     reg_requestLatency = LatencyHistogram_new, reg_readLatency = LatencyHistogram_new,
     reg_perAsset = []\<rparr>"

definition perAsset_fold ::
    "MetricsSnapshot \<Rightarrow> (string \<times> MetricsSnapshot) list \<Rightarrow> (string \<times> MetricsSnapshot) list" where
  "perAsset_fold snapshot tbl =
    (case map_of tbl (snap_identifier snapshot) of
       Some existing \<Rightarrow>
         (let knownSize = assetSize existing;
              merged = (Snapshot_Add existing snapshot)\<lparr>assetSize := max knownSize (assetSize snapshot)\<rparr>
          in map (\<lambda>(k, v). if k = snap_identifier snapshot then (k, merged) else (k, v)) tbl)
     | None \<Rightarrow>
         if length tbl < kMaxTrackedIdentifiers
         then (snap_identifier snapshot, snapshot) # tbl else tbl)"

definition Registry_Fold :: "ReaderMetrics \<Rightarrow> MetricsRegistry \<Rightarrow> MetricsRegistry" where
  "Registry_Fold reader reg =
    (let snapshot = ReaderMetrics_Snapshot reader
     in reg\<lparr>reg_aggregate := Snapshot_Add (reg_aggregate reg) snapshot,
            reg_openLatency := Histogram_Fold (reg_openLatency reg) (rm_openLatency reader),
            reg_requestLatency := Histogram_Fold (reg_requestLatency reg) (rm_requestLatency reader),
            reg_readLatency := Histogram_Fold (reg_readLatency reg) (rm_readLatency reader),
            reg_perAsset := perAsset_fold snapshot (reg_perAsset reg)\<rparr>)"

definition ReaderMetrics_destroy :: "ReaderMetrics \<Rightarrow> MetricsRegistry \<Rightarrow> MetricsRegistry" where
  "ReaderMetrics_destroy m reg = (if rm_detached m then reg else Registry_Fold m reg)"

definition Registry_Aggregate :: "MetricsRegistry \<Rightarrow> MetricsSnapshot" where
  "Registry_Aggregate reg =
    (reg_aggregate reg)\<lparr>snap_identifier := '''',
      snap_openLatency := Histogram_Snapshot (reg_openLatency reg),
      snap_requestLatency := Histogram_Snapshot (reg_requestLatency reg),
      snap_readLatency := Histogram_Snapshot (reg_readLatency reg)\<rparr>"

definition TopAssetsByBytesTransferred :: "nat \<Rightarrow> MetricsRegistry \<Rightarrow> MetricsSnapshot list" where
  "TopAssetsByBytesTransferred n reg =
    take n (sort_key (\<lambda>s. (u64_max - bytesTransferred s, snap_identifier s))
      (map snd (reg_perAsset reg)))"

definition Registry_ResetForTesting :: "MetricsRegistry \<Rightarrow> MetricsRegistry" where
  "Registry_ResetForTesting reg =
    reg\<lparr>reg_aggregate := Snapshot_zero, reg_openLatency := Histogram_Reset (reg_openLatency reg),
      reg_requestLatency := Histogram_Reset (reg_requestLatency reg),
      reg_readLatency := Histogram_Reset (reg_readLatency reg), reg_perAsset := []\<rparr>"

section \<open>Buckets\<close>

lemma unat_double:
  fixes b :: u64
  assumes "unat b = 2 ^ k" "k < 63"
  shows "unat (b * 2) = 2 ^ Suc k"
proof -
  have "(2::nat) ^ Suc k < 2 ^ 64" using assms(2) by (intro power_strict_increasing) auto
  then show ?thesis using assms(1) by (subst unat_u64_mult) auto
qed

lemma BucketFor_loop_spec:
  assumes "unat bound = 2 ^ (bucket - 1)" "1 \<le> bucket" "bucket \<le> 40" "bound \<le> us"
  shows "let b = BucketFor_loop bucket bound us
         in 1 \<le> b \<and> b \<le> 40 \<and> 2 ^ (b - 1) \<le> unat us \<and> (unat us < 2 ^ b \<or> b = 40)"
  using assms
proof (induction bucket bound us rule: BucketFor_loop.induct)
  case (1 bucket bound us)
  have dbl: "unat (bound * 2) = 2 ^ bucket"
    using unat_double [of bound "bucket - 1"] 1(2,3,4) by simp
  show ?case
  proof (cases "bucket + 1 < kBucketCount \<and> us \<ge> bound * 2")
    case True
    then have "let b = BucketFor_loop (bucket + 1) (bound * 2) us
         in 1 \<le> b \<and> b \<le> 40 \<and> 2 ^ (b - 1) \<le> unat us \<and> (unat us < 2 ^ b \<or> b = 40)"
      using dbl 1(3) by (intro 1(1)) (auto simp: kBucketCount_def)
    then show ?thesis using True by (subst BucketFor_loop.simps) simp
  next
    case False
    then have "unat us < 2 ^ bucket \<or> bucket = 40"
      using dbl 1(4) by (auto simp: word_le_nat_alt not_le kBucketCount_def)
    moreover have "BucketFor_loop bucket bound us = bucket"
      using False by (subst BucketFor_loop.simps) auto
    ultimately show ?thesis using 1(2,3,4,5) by (simp add: Let_def word_le_nat_alt)
  qed
qed

lemma BucketFor_spec:
  assumes "us \<noteq> 0"
  shows "1 \<le> BucketFor us" "BucketFor us \<le> 40" "2 ^ (BucketFor us - 1) \<le> unat us"
    "unat us < 2 ^ BucketFor us \<or> BucketFor us = 40"
proof -
  have "1 \<le> us" using assms by (simp add: word_le_nat_alt Suc_le_eq unat_gt_0)
  then have "let b = BucketFor_loop 1 1 us
         in 1 \<le> b \<and> b \<le> 40 \<and> 2 ^ (b - 1) \<le> unat us \<and> (unat us < 2 ^ b \<or> b = 40)"
    by (intro BucketFor_loop_spec) auto
  then show "1 \<le> BucketFor us" "BucketFor us \<le> 40" "2 ^ (BucketFor us - 1) \<le> unat us"
    "unat us < 2 ^ BucketFor us \<or> BucketFor us = 40"
    using assms by (auto simp: BucketFor_def Let_def)
qed

lemma BucketFor_0 [simp]: "BucketFor 0 = 0"
  by (simp add: BucketFor_def)

lemma BucketFor_le: "BucketFor us \<le> 40"
  using BucketFor_spec(2) [of us] by (cases "us = 0") auto

lemma BucketFor_eq_0 [simp]: "BucketFor us = 0 \<longleftrightarrow> us = 0"
  using BucketFor_spec(1) [of us] by (cases "us = 0") auto

lemma BucketFor_upper:
  assumes "unat us < 2 ^ 40"
  shows "unat us < 2 ^ BucketFor us"
  using BucketFor_spec(4) [of us] assms by (cases "us = 0") auto

lemma BucketFor_mono:
  assumes "x \<le> y"
  shows "BucketFor x \<le> BucketFor y"
proof (rule ccontr)
  assume less: "\<not> BucketFor x \<le> BucketFor y"
  then have "x \<noteq> 0" by auto
  have "y \<noteq> 0" using assms \<open>x \<noteq> 0\<close> by (auto simp: word_le_nat_alt)
  have "BucketFor y < 40" using less BucketFor_le [of x] by linarith
  then have "unat y < 2 ^ BucketFor y" using BucketFor_spec(4) [OF \<open>y \<noteq> 0\<close>] by simp
  also have "\<dots> \<le> 2 ^ (BucketFor x - 1)" using less by (intro power_increasing) auto
  also have "\<dots> \<le> unat x" using BucketFor_spec(3) [OF \<open>x \<noteq> 0\<close>] .
  finally show False using assms by (simp add: word_le_nat_alt)
qed

lemma double_times_spec:
  "unat b = 2 ^ k \<Longrightarrow> k + n < 64 \<Longrightarrow> unat (double_times n b) = 2 ^ (k + n)"
proof (induction n arbitrary: b k)
  case (Suc n)
  have "unat (b * 2) = 2 ^ Suc k" using Suc.prems by (intro unat_double) auto
  then show ?case using Suc.IH [of "b * 2" "Suc k"] Suc.prems(2) by simp
qed simp

lemma unat_BucketUpperBound:
  assumes "b \<le> 40"
  shows "unat (BucketUpperBound b) = 2 ^ b - 1"
proof (cases b)
  case (Suc k)
  have "unat (double_times k (1 :: u64)) = 2 ^ k" using double_times_spec [of 1 0 k] Suc assms by simp
  then have "unat (double_times k (1 :: u64) * 2) = 2 ^ b"
    using Suc assms by (simp add: unat_double)
  moreover have "(1 :: u64) \<le> double_times k 1 * 2"
    using calculation by (simp add: word_le_nat_alt)
  ultimately show ?thesis using Suc by (simp add: BucketUpperBound_def unat_u64_sub)
qed (simp add: BucketUpperBound_def)

section \<open>Recording\<close>

definition record_all :: "u64 list \<Rightarrow> LatencyHistogram" where
  "record_all xs = fold Record xs LatencyHistogram_new"

lemma record_all_snoc: "record_all (xs @ [x]) = Record x (record_all xs)"
  by (simp add: record_all_def)

lemma length_record_all [simp]: "length (h_buckets (record_all xs)) = 41"
  by (induction xs rule: rev_induct)
    (simp_all add: record_all_snoc Record_def, simp add: record_all_def LatencyHistogram_new_def kBucketCount_def)

lemma record_all_bucket:
  assumes "i \<le> 40"
  shows "h_buckets (record_all xs) ! i = of_nat (length (filter (\<lambda>x. BucketFor x = i) xs))"
proof (induction xs rule: rev_induct)
  case Nil
  then show ?case using assms by (simp add: record_all_def LatencyHistogram_new_def kBucketCount_def)
next
  case (snoc x xs)
  then show ?case using assms by (simp add: record_all_snoc Record_def nth_list_update)
qed

lemma record_all_count: "h_count (record_all xs) = of_nat (length xs)"
  by (induction xs rule: rev_induct)
    (simp_all add: record_all_snoc Record_def, simp add: record_all_def LatencyHistogram_new_def)

lemma record_all_max_ge: "x \<in> set xs \<Longrightarrow> x \<le> h_max (record_all xs)"
  by (induction xs rule: rev_induct) (auto simp: record_all_snoc Record_def le_max_iff_disj)

lemma Fold_Record:
  assumes "length (h_buckets h) = 41" "length (h_buckets g) = 41"
  shows "Histogram_Fold h (Record x g) = Record x (Histogram_Fold h g)"
proof -
  have "BucketFor x < 41" using BucketFor_le [of x] by simp
  then have "map2 (+) (h_buckets h) ((h_buckets g)[BucketFor x := h_buckets g ! BucketFor x + 1]) =
      (map2 (+) (h_buckets h) (h_buckets g))
        [BucketFor x := map2 (+) (h_buckets h) (h_buckets g) ! BucketFor x + 1]"
    using assms by (intro nth_equalityI) (auto simp: nth_list_update)
  then show ?thesis by (simp add: Histogram_Fold_def Record_def ac_simps)
qed

lemma max_u64_0 [simp]: "max (x :: u64) 0 = x"
  by (simp add: max_def word_le_nat_alt)

lemma Fold_new:
  "length (h_buckets h) = 41 \<Longrightarrow> Histogram_Fold h LatencyHistogram_new = h"
proof -
  assume "length (h_buckets h) = 41"
  then have "map2 (+) (h_buckets h) (replicate 41 0) = h_buckets h"
    by (intro nth_equalityI) auto
  then show ?thesis
    by (simp add: Histogram_Fold_def LatencyHistogram_new_def kBucketCount_def)
qed

text \<open>
  Folding two histograms bucket by bucket gives exactly the histogram of all the
  samples together, so the process-wide quantiles are those of the whole sample set.
\<close>

theorem Fold_record_all: "Histogram_Fold (record_all xs) (record_all ys) = record_all (xs @ ys)"
proof (induction ys rule: rev_induct)
  case Nil
  have "record_all [] = LatencyHistogram_new" by (simp add: record_all_def)
  then show ?case by (simp add: Fold_new)
next
  case (snoc y ys)
  then show ?case
    using Fold_Record [of "record_all xs" "record_all ys" y] record_all_snoc [of "xs @ ys" y]
    by (simp add: record_all_snoc)
qed

section \<open>Quantiles\<close>

fun quantile_loop :: "u64 list \<Rightarrow> nat \<Rightarrow> u64 \<Rightarrow> u64 \<Rightarrow> u64 option \<Rightarrow> u64 option" where
  "quantile_loop [] i c r f = f"
| "quantile_loop (b # bs) i c r f =
     quantile_loop bs (Suc i) (c + b) r (quantile_step (c + b) (BucketUpperBound i) r f)"

lemma Snapshot_loop_quantiles:
  "Snapshot_loop bs i c (r50, r90, r99) (f50, f90, f99) =
     (quantile_loop bs i c r50 f50, quantile_loop bs i c r90 f90, quantile_loop bs i c r99 f99)"
  by (induction bs arbitrary: i c f50 f90 f99) (simp_all add: Let_def)

lemma quantile_loop_found [simp]: "quantile_loop bs i c r (Some p) = Some p"
  by (induction bs arbitrary: i c) (simp_all add: quantile_step_def)

lemma quantile_loop_first:
  assumes "k < length bs" "r \<le> c + sum_list (take (Suc k) bs)"
    and "\<And>j. j < k \<Longrightarrow> \<not> r \<le> c + sum_list (take (Suc j) bs)"
  shows "quantile_loop bs i c r None = Some (BucketUpperBound (i + k))"
  using assms
proof (induction bs arbitrary: i c k)
  case (Cons b bs)
  show ?case
  proof (cases k)
    case 0
    then show ?thesis using Cons.prems(2) by (simp add: quantile_step_def)
  next
    case (Suc k')
    have "quantile_loop bs (Suc i) (c + b) r None = Some (BucketUpperBound (Suc i + k'))"
      using Cons.prems Suc by (intro Cons.IH) (auto simp: add.assoc)
    moreover have "\<not> r \<le> c + b" using Cons.prems(3) [of 0] Suc by simp
    ultimately show ?thesis using Suc by (simp add: quantile_step_def)
  qed
qed simp

definition at_most :: "nat \<Rightarrow> u64 list \<Rightarrow> nat" where
  "at_most j xs = length (filter (\<lambda>x. BucketFor x \<le> j) xs)"

lemma at_most_le: "at_most j xs \<le> length xs"
  by (simp add: at_most_def)

lemma filter_le_Suc:
  "length (filter (\<lambda>x. f x \<le> Suc j) xs) =
     length (filter (\<lambda>x. f x \<le> j) xs) + length (filter (\<lambda>x. f x = Suc j) xs)"
  for f :: "'a \<Rightarrow> nat"
  by (induction xs) auto

lemma buckets_sum:
  assumes "j \<le> 40"
  shows "sum_list (take (Suc j) (h_buckets (record_all xs))) = of_nat (at_most j xs)"
  using assms
proof (induction j)
  case 0
  then show ?case
    using record_all_bucket [of 0 xs] by (simp add: take_Suc_conv_app_nth at_most_def)
next
  case (Suc j)
  then show ?case
    using record_all_bucket [of "Suc j" xs]
    by (simp add: take_Suc_conv_app_nth [of "Suc j"] at_most_def filter_le_Suc)
qed

text \<open>In a sorted list, an up-closed or down-closed predicate is decided by its rank.\<close>

lemma sorted_rank:
  fixes xs :: "'a :: linorder list"
  assumes down: "\<And>x y. x \<le> y \<Longrightarrow> P y \<Longrightarrow> P x" and "i < length xs"
  shows "P (sort xs ! i) \<longleftrightarrow> i < length (filter P xs)"
proof -
  let ?s = "sort xs"
  have len: "length (filter P xs) = card {k. k < length ?s \<and> P (?s ! k)}"
    by (metis filter_sort length_filter_conv_card length_sort)
  have i: "i < length ?s" using assms(2) by simp
  show ?thesis
  proof
    assume P: "P (?s ! i)"
    have "{..i} \<subseteq> {k. k < length ?s \<and> P (?s ! k)}"
    proof
      fix k assume "k \<in> {..i}"
      then have "?s ! k \<le> ?s ! i" using i by (intro sorted_nth_mono) auto
      then show "k \<in> {k. k < length ?s \<and> P (?s ! k)}" using P down \<open>k \<in> {..i}\<close> i by auto
    qed
    then have "card {..i} \<le> length (filter P xs)" unfolding len by (intro card_mono) auto
    then show "i < length (filter P xs)" by simp
  next
    assume less: "i < length (filter P xs)"
    show "P (?s ! i)"
    proof (rule ccontr)
      assume nP: "\<not> P (?s ! i)"
      have "{k. k < length ?s \<and> P (?s ! k)} \<subseteq> {..<i}"
      proof
        fix k assume k: "k \<in> {k. k < length ?s \<and> P (?s ! k)}"
        have "k < i"
        proof (rule ccontr)
          assume "\<not> k < i"
          then have "?s ! i \<le> ?s ! k" using k by (intro sorted_nth_mono) auto
          then show False using k nP down by blast
        qed
        then show "k \<in> {..<i}" by simp
      qed
      then have "card {k. k < length ?s \<and> P (?s ! k)} \<le> card {..<i}" by (intro card_mono) auto
      then show False using less len by simp
    qed
  qed
qed

lemma quantile_value:
  assumes "0 < r" "r \<le> length xs" "length xs < 2 ^ 64"
  shows "quantile_loop (h_buckets (record_all xs)) 0 0 (of_nat r) None =
           Some (BucketUpperBound (BucketFor (sort xs ! (r - 1))))"
proof -
  let ?k = "BucketFor (sort xs ! (r - 1))"
  have k: "?k \<le> 40" by (rule BucketFor_le)
  have cum: "of_nat r \<le> (0 :: u64) + sum_list (take (Suc j) (h_buckets (record_all xs))) \<longleftrightarrow>
      ?k \<le> j" if "j \<le> 40" for j
  proof -
    have "at_most j xs < 2 ^ 64" using at_most_le [of j xs] assms(3) by linarith
    then have "of_nat r \<le> (0 :: u64) + sum_list (take (Suc j) (h_buckets (record_all xs))) \<longleftrightarrow>
        r \<le> at_most j xs"
      using assms(2,3) buckets_sum [OF that, of xs] by (simp add: word_le_nat_alt)
    moreover have "?k \<le> j \<longleftrightarrow> r - 1 < at_most j xs"
      unfolding at_most_def using assms(1,2) BucketFor_mono
      by (intro sorted_rank) (auto intro: order_trans)
    ultimately show ?thesis using assms(1) by auto
  qed
  show ?thesis
    using k cum by (subst quantile_loop_first [where k = ?k]) auto
qed

lemma quantile_bounds:
  assumes "0 < r" "r \<le> length xs" "length xs < 2 ^ 64" "\<forall>x\<in>set xs. unat x < 2 ^ 40"
  defines "v \<equiv> sort xs ! (r - 1)"
  defines "p \<equiv> min (or_zero (quantile_loop (h_buckets (record_all xs)) 0 0 (of_nat r) None))
                   (h_max (record_all xs))"
  shows "v \<le> p \<and> unat p \<le> 2 * unat v"
proof -
  have v: "v \<in> set xs" unfolding v_def using assms(1,2) nth_mem [of "r - 1" "sort xs"] by simp
  have up: "unat (BucketUpperBound (BucketFor v)) = 2 ^ BucketFor v - 1"
    by (intro unat_BucketUpperBound BucketFor_le)
  have "unat v < 2 ^ BucketFor v" using v assms(4) by (intro BucketFor_upper) auto
  then have "v \<le> BucketUpperBound (BucketFor v)" using up by (simp add: word_le_nat_alt)
  moreover have "unat (BucketUpperBound (BucketFor v)) \<le> 2 * unat v"
  proof (cases "v = 0")
    case False
    have "(2::nat) ^ BucketFor v = 2 * 2 ^ (BucketFor v - 1)"
      using BucketFor_spec(1) [OF False] by (cases "BucketFor v") auto
    then show ?thesis using BucketFor_spec(3) [OF False] up by linarith
  qed (simp add: BucketUpperBound_def)
  moreover have "p = min (BucketUpperBound (BucketFor v)) (h_max (record_all xs))"
    unfolding p_def quantile_value [OF assms(1-3)] v_def by (simp add: or_zero_def)
  moreover have "v \<le> h_max (record_all xs)" using v by (rule record_all_max_ge)
  ultimately show ?thesis by (auto simp: min_def word_le_nat_alt split: if_splits)
qed


lemma rank_word:
  assumes "n * 99 + 99 < 2 ^ 64" "k \<le> 99"
  shows "((of_nat n :: u64) * of_nat k + 99) div 100 = of_nat ((n * k + 99) div 100)"
proof -
  have nk: "n * k \<le> n * 99" using assms(2) by (intro mult_le_mono2)
  have w: "(of_nat n :: u64) * of_nat k + 99 = of_nat (n * k + 99)" by simp
  have "unat (of_nat (n * k + 99) :: u64) = n * k + 99"
    using nk assms(1) by (intro unat_of_nat_u64) linarith
  then have "unat ((of_nat (n * k + 99) :: u64) div 100) = (n * k + 99) div 100"
    by (simp add: unat_div)
  moreover have "(n * k + 99) div 100 < 2 ^ 64" using nk assms(1) by linarith
  ultimately show ?thesis unfolding w by (simp only: word_unat_eq_iff) (simp add: unat_of_nat)
qed

lemma rank_bounds:
  assumes "0 < n" "0 < k" "k \<le> (100 :: nat)"
  shows "0 < (n * k + 99) div 100" "(n * k + 99) div 100 \<le> n"
proof -
  have "1 \<le> n * k" using assms by (simp add: Suc_le_eq)
  then have "100 \<le> n * k + 99" by linarith
  then show "0 < (n * k + 99) div 100" by (simp add: div_greater_zero_iff)
  have "n * k \<le> n * 100" using assms(3) by (rule mult_le_mono2)
  then have "n * k + 99 < Suc n * 100" unfolding mult_Suc by linarith
  then show "(n * k + 99) div 100 \<le> n" using less_mult_imp_div_less less_Suc_eq_le by blast
qed

text \<open>
  For every non-empty sample set below the top bucket's range, each reported
  quantile is at least the exact order statistic of that rank and at most twice it.
\<close>

theorem Histogram_quantiles:
  assumes "xs \<noteq> []" "\<forall>x\<in>set xs. unat x < 2 ^ 40" "length xs * 99 + 99 < 2 ^ 64"
  shows "let s = Histogram_Snapshot (record_all xs);
             exact = (\<lambda>k. sort xs ! ((length xs * k + 99) div 100 - 1))
         in exact 50 \<le> s_p50 s \<and> unat (s_p50 s) \<le> 2 * unat (exact 50) \<and>
            exact 90 \<le> s_p90 s \<and> unat (s_p90 s) \<le> 2 * unat (exact 90) \<and>
            exact 99 \<le> s_p99 s \<and> unat (s_p99 s) \<le> 2 * unat (exact 99)"
proof -
  let ?n = "length xs"
  have n: "0 < ?n" "?n < 2 ^ 64" using assms(1,3) by auto
  have cnt: "of_nat ?n \<noteq> (0 :: u64)" using n by (simp add: word_unat_eq_iff)
  note q = quantile_bounds [OF rank_bounds(1) rank_bounds(2) n(2) assms(2)]
  note rw = rank_word [OF assms(3), of 50] rank_word [OF assms(3), of 90] rank_word [OF assms(3), of 99]
  show ?thesis
    using q [OF n(1), of 50] q [OF n(1), of 90] q [OF n(1), of 99] rw n cnt
    by (simp add: Histogram_Snapshot_def record_all_count Snapshot_loop_quantiles Let_def)
qed

theorem Histogram_quantiles_witness:
  "let s = Histogram_Snapshot (record_all [3, 9, 5])
   in (5 :: u64) \<le> s_p50 s \<and> unat (s_p50 s) \<le> 10 \<and> 9 \<le> s_p99 s"
  using Histogram_quantiles [of "[3, 9, 5]"]
  by (simp add: Let_def)

text \<open>
  The bound of the top bucket is not a bound of its samples: one sample of \<open>2 ^ 41\<close>
  microseconds is reported as \<open>2 ^ 40 - 1\<close>, below the sample.
\<close>

lemma Histogram_top_bucket:
  "s_p99 (Histogram_Snapshot (record_all [2 ^ 41])) = 2 ^ 40 - 1"
proof -
  have "BucketFor (2 ^ 41) = 40" by (simp add: BucketFor_def BucketFor_loop.simps kBucketCount_def)
  then have "quantile_loop (h_buckets (record_all [2 ^ 41])) 0 0 1 None = Some (BucketUpperBound 40)"
    using quantile_value [of 1 "[2 ^ 41]"] by simp
  moreover have "BucketUpperBound 40 = 2 ^ 40 - 1"
    using unat_BucketUpperBound [of 40] by (simp add: word_unat_eq_iff)
  moreover have "h_max (record_all [2 ^ 41]) = 2 ^ 41" "h_count (record_all [2 ^ 41]) = 1"
    by (simp_all add: record_all_def Record_def LatencyHistogram_new_def)
  ultimately show ?thesis
    by (simp add: Histogram_Snapshot_def Snapshot_loop_quantiles or_zero_def)
qed


section \<open>Registry invariant\<close>

definition registry_inv :: "MetricsRegistry \<Rightarrow> bool" where
  "registry_inv reg \<longleftrightarrow>
     length (reg_perAsset reg) \<le> kMaxTrackedIdentifiers \<and>
     distinct (map fst (reg_perAsset reg)) \<and>
     (\<forall>(k, v) \<in> set (reg_perAsset reg). snap_identifier v = k \<and> ElideSecrets k = k)"

lemma snap_identifier_Add [simp]: "snap_identifier (Snapshot_Add s t) = snap_identifier s"
  by (simp add: Snapshot_Add_def)

lemma snap_identifier_Snapshot [simp]: "snap_identifier (ReaderMetrics_Snapshot m) = rm_identifier m"
  by (simp add: ReaderMetrics_Snapshot_def)

lemma perAsset_fold_keys:
  "map fst (perAsset_fold s tbl) =
    (if map_of tbl (snap_identifier s) = None \<and> length tbl < kMaxTrackedIdentifiers
     then snap_identifier s # map fst tbl else map fst tbl)"
  by (auto simp: perAsset_fold_def Let_def split: option.split)

lemma perAsset_fold_elided:
  assumes "\<forall>(k, v) \<in> set tbl. snap_identifier v = k \<and> ElideSecrets k = k"
    and "ElideSecrets (snap_identifier s) = snap_identifier s"
  shows "\<forall>(k, v) \<in> set (perAsset_fold s tbl). snap_identifier v = k \<and> ElideSecrets k = k"
proof (cases "map_of tbl (snap_identifier s)")
  case None
  then show ?thesis using assms by (auto simp: perAsset_fold_def)
next
  case (Some e)
  then have "snap_identifier e = snap_identifier s" using assms(1) by (auto dest: map_of_SomeD)
  then show ?thesis using Some assms by (auto simp: perAsset_fold_def Let_def split: if_splits)
qed

lemma registry_inv_empty: "registry_inv Registry_empty"
  by (simp add: registry_inv_def Registry_empty_def)

lemma registry_inv_Fold:
  assumes inv: "registry_inv reg" and el: "ElideSecrets (rm_identifier m) = rm_identifier m"
  shows "registry_inv (Registry_Fold m reg)"
proof -
  let ?s = "ReaderMetrics_Snapshot m" and ?t = "reg_perAsset reg"
  have "length (perAsset_fold ?s ?t) \<le> kMaxTrackedIdentifiers"
    using inv arg_cong [OF perAsset_fold_keys [of ?s ?t], of length]
    by (simp add: registry_inv_def split: if_splits)
  moreover have "distinct (map fst (perAsset_fold ?s ?t))"
    using inv by (simp add: perAsset_fold_keys registry_inv_def map_of_eq_None_iff)
  moreover have "\<forall>(k, v) \<in> set (perAsset_fold ?s ?t). snap_identifier v = k \<and> ElideSecrets k = k"
    using inv el by (intro perAsset_fold_elided) (auto simp: registry_inv_def)
  ultimately show ?thesis by (simp add: registry_inv_def Registry_Fold_def Let_def)
qed

lemma registry_inv_destroy:
  "registry_inv reg \<Longrightarrow> ElideSecrets (rm_identifier m) = rm_identifier m \<Longrightarrow>
     registry_inv (ReaderMetrics_destroy m reg)"
  by (simp add: ReaderMetrics_destroy_def registry_inv_Fold)

lemma ReaderMetrics_new_identifier:
  "ElideSecrets (rm_identifier (ReaderMetrics_new i)) = rm_identifier (ReaderMetrics_new i)"
  by (simp add: ReaderMetrics_new_def ElideSecrets_def elide_query_query_elided
      query_elided_elide_userinfo query_elided_elide_query elide_userinfo_idem)

text \<open>
  Whatever readers are destroyed in whatever order, the per-asset table never
  exceeds its bound, lists each identifier once, and holds only identifiers that
  elision leaves unchanged.
\<close>

theorem registry_bounded_and_elided:
  assumes "\<forall>m\<in>set ms. \<exists>identifier. rm_identifier m = rm_identifier (ReaderMetrics_new identifier)"
  shows "let reg = fold ReaderMetrics_destroy ms Registry_empty
         in length (reg_perAsset reg) \<le> 4096 \<and> distinct (map fst (reg_perAsset reg)) \<and>
            (\<forall>(k, v) \<in> set (reg_perAsset reg). snap_identifier v = k \<and> ElideSecrets k = k)"
proof -
  have "registry_inv (fold ReaderMetrics_destroy ms reg)" if "registry_inv reg" for reg
    using assms that
  proof (induction ms arbitrary: reg)
    case (Cons m ms)
    then have "ElideSecrets (rm_identifier m) = rm_identifier m"
      using ReaderMetrics_new_identifier by (metis list.set_intros(1))
    then show ?case using Cons by (simp add: registry_inv_destroy)
  qed simp
  from this [OF registry_inv_empty] show ?thesis
    by (simp add: Let_def registry_inv_def kMaxTrackedIdentifiers_def)
qed

theorem registry_bounded_and_elided_witness:
  "let reg = fold ReaderMetrics_destroy [ReaderMetrics_new ''http://u@h/a?k'', ReaderMetrics_new ''x'']
               Registry_empty
   in length (reg_perAsset reg) \<le> 4096 \<and> distinct (map fst (reg_perAsset reg)) \<and>
      (\<forall>(k, v) \<in> set (reg_perAsset reg). snap_identifier v = k \<and> ElideSecrets k = k)"
  by (rule registry_bounded_and_elided) auto

text \<open>
  A decorator that absorbs its inner reader's transport counters, with the inner set
  detached, adds every transferred byte and request to the aggregate exactly once.
\<close>

lemma absorb_counts_once:
  "\<not> rm_detached outer \<Longrightarrow>
   (let outer' = ReaderMetrics_AbsorbTransport inner outer;
       reg' = ReaderMetrics_destroy (DetachFromRegistry inner) (ReaderMetrics_destroy outer' reg)
   in bytesTransferred (reg_aggregate reg') =
         bytesTransferred (reg_aggregate reg) + bytesTransferred outer + bytesTransferred inner \<and>
       requestCount (reg_aggregate reg') =
         requestCount (reg_aggregate reg) + requestCount outer + requestCount inner \<and>
       bytesRequested (reg_aggregate reg') =
         bytesRequested (reg_aggregate reg) + bytesRequested outer)"
  by (simp add: Let_def ReaderMetrics_destroy_def DetachFromRegistry_def Registry_Fold_def
      ReaderMetrics_AbsorbTransport_def Snapshot_Add_def ReaderMetrics_Snapshot_def)

end
