(* ===== verification/HttpExchange.thy ===== *)
theory HttpExchange
  imports Framing Uri Metrics
begin

text \<open>
  \<open>libs/usd-asset-http\<close>: one logical HTTP exchange (\<open>HttpAssetReader.cpp\<close>, lines 30 to 670, and
  the option types of \<open>HttpAssetReader.h\<close>): the projection of failures onto the status
  vocabulary, the request interceptor and what it may add, and the redirect and retry loops
  of \<open>PerformExchange\<close>. The transport, the interceptor and the sink are arguments; the transport
  and the interceptor share a world, which carries everything they know.
\<close>

section \<open>Options\<close>

record InterceptedRequest =
  ir_method :: string
  ir_url :: string
  ir_scheme :: string
  ir_host :: string
  ir_port :: nat
  ir_redirectHop :: nat
  ir_attempt :: nat

text \<open>An interceptor answers with headers, or declines (an exception is a decline).\<close>

type_synonym 'w interceptor = "InterceptedRequest \<Rightarrow> 'w \<Rightarrow> RequestHeader list option \<times> 'w"

record 'w HttpOptions =
  ho_connectTimeoutMs :: int
  ho_responseTimeoutMs :: int
  ho_transferTimeoutMs :: int
  ho_maxRedirects :: int
  ho_maxAttempts :: int
  ho_destinations :: DestinationPolicy
  ho_userAgent :: string
  ho_interceptor :: "'w interceptor option"

definition HttpOptions_default :: "'w HttpOptions" where
  "HttpOptions_default = \<lparr>ho_connectTimeoutMs = 10000, ho_responseTimeoutMs = 30000, ho_transferTimeoutMs = 300000,
     ho_maxRedirects = 5, ho_maxAttempts = 3, ho_destinations = DestinationPolicy_default, ho_userAgent = [],
     ho_interceptor = None\<rparr>"

definition kMaxInterceptedHeaderBytes :: nat where
  "kMaxInterceptedHeaderBytes = 16 * 1024"

definition kDefaultUserAgent :: string where
  "kDefaultUserAgent = ''usd-http-resolver/0.2.0''"

section \<open>Sinks\<close>

text \<open>The abstract class: where the counters of a request go.\<close>

record 's RequestSink =
  sink_Request :: "bool \<Rightarrow> u64 \<Rightarrow> u64 \<Rightarrow> 's \<Rightarrow> 's"
  sink_Retry :: "'s \<Rightarrow> 's"
  sink_Redirect :: "'s \<Rightarrow> 's"

record PendingSink =
  ps_requests :: u64
  ps_metadataRequests :: u64
  ps_retries :: u64
  ps_redirects :: u64
  ps_bytesTransferred :: u64
  ps_latencies :: "u64 list"

definition PendingSink_new :: PendingSink where
  "PendingSink_new = \<lparr>ps_requests = 0, ps_metadataRequests = 0, ps_retries = 0, ps_redirects = 0, ps_bytesTransferred = 0,
     ps_latencies = []\<rparr>"

definition Pending_Request :: "bool \<Rightarrow> u64 \<Rightarrow> u64 \<Rightarrow> PendingSink \<Rightarrow> PendingSink" where
  "Pending_Request is_metadata n microseconds p =
    p\<lparr>ps_requests := ps_requests p + 1,
      ps_metadataRequests := (if is_metadata then ps_metadataRequests p + 1 else ps_metadataRequests p),
      ps_bytesTransferred := ps_bytesTransferred p + n, ps_latencies := ps_latencies p @ [microseconds]\<rparr>"

definition PendingSink_ops :: "PendingSink RequestSink" where
  "PendingSink_ops = \<lparr>sink_Request = Pending_Request, sink_Retry = (\<lambda>p. p\<lparr>ps_retries := ps_retries p + 1\<rparr>),
     sink_Redirect = (\<lambda>p. p\<lparr>ps_redirects := ps_redirects p + 1\<rparr>)\<rparr>"

definition ReplayInto :: "PendingSink \<Rightarrow> ReaderMetrics \<Rightarrow> ReaderMetrics" where
  "ReplayInto p m =
    fold (\<lambda>sample m. m\<lparr>rm_requestLatency := Record sample (rm_requestLatency m)\<rparr>) (ps_latencies p)
      (AddBytesTransferred (ps_bytesTransferred p) (AddRedirect (ps_redirects p) (AddRetry (ps_retries p)
        (AddMetadataRequest (ps_metadataRequests p) (AddRequest (ps_requests p - ps_metadataRequests p) m)))))"

definition Reader_Request :: "bool \<Rightarrow> u64 \<Rightarrow> u64 \<Rightarrow> ReaderMetrics \<Rightarrow> ReaderMetrics" where
  "Reader_Request is_metadata n microseconds m =
    (let m1 = AddBytesTransferred n (if is_metadata then AddMetadataRequest 1 m else AddRequest 1 m)
     in m1\<lparr>rm_requestLatency := Record microseconds (rm_requestLatency m1)\<rparr>)"

definition ReaderSink_ops :: "ReaderMetrics RequestSink" where
  "ReaderSink_ops = \<lparr>sink_Request = Reader_Request, sink_Retry = AddRetry 1, sink_Redirect = AddRedirect 1\<rparr>"

section \<open>Projection onto the status vocabulary\<close>

definition Where :: "Uri \<Rightarrow> string" where
  "Where uri = '' ('' @ ElideSecrets (ToIdentity uri) @ '')''"

definition DestinationRefusedStatus :: "AddressClass option \<Rightarrow> Uri \<Rightarrow> Status" where
  "DestinationRefusedStatus refused uri =
    (let what = (case refused of Some c \<Rightarrow> AddressClassName c @ '' addresses'' | None \<Rightarrow> ''an address it cannot classify'')
     in Status_Error AccessDenied (''the destination policy does not permit connecting to '' @ what @ Where uri))"

primrec ProjectTransportError :: "TransportError \<Rightarrow> Uri \<Rightarrow> Status" where
  "ProjectTransportError ConnectFailed uri = Status_Error NetworkError (''could not connect to the server'' @ Where uri)"
| "ProjectTransportError ConnectionLost uri = Status_Error NetworkError (''the server closed the connection'' @ Where uri)"
| "ProjectTransportError ConnectTimeout uri = Status_Error Timeout (''the connect deadline elapsed'' @ Where uri)"
| "ProjectTransportError ResponseTimeout uri =
    Status_Error Timeout (''the response deadline elapsed before the server sent a status line'' @ Where uri)"
| "ProjectTransportError TransferTimeout uri =
    Status_Error Timeout (''the transfer deadline elapsed while the body was still arriving'' @ Where uri)"
| "ProjectTransportError IncompleteBody uri =
    Status_Error InvalidResponse (''the response body ended before the length it declared'' @ Where uri)"
| "ProjectTransportError Malformed uri = Status_Error InvalidResponse (''the response could not be parsed as HTTP'' @ Where uri)"
| "ProjectTransportError HeadersTooLarge uri =
    Status_Error InvalidResponse (''the response header block exceeded '' @ to_dec kMaxResponseHeaderBytes @ '' bytes'' @ Where uri)"
| "ProjectTransportError DestinationRefused uri = DestinationRefusedStatus None uri"
| "ProjectTransportError Internal uri = Status_Error NetworkError (''the HTTP client could not issue the request'' @ Where uri)"
| "ProjectTransportError TE_None uri = Status_Ok"

definition ProjectHttpStatus :: "int \<Rightarrow> Uri \<Rightarrow> Status" where
  "ProjectHttpStatus status uri =
    (if status = 404 \<or> status = 410 then
       WithTransportStatus status (Status_Error NotFound (''the asset does not exist'' @ Where uri))
     else if status = 401 \<or> status = 403 then
       WithTransportStatus status (Status_Error AccessDenied (''the server refused access to the asset'' @ Where uri))
     else if status = 405 \<or> status = 501 then
       WithTransportStatus status (Status_Error Unsupported
         (''the server does not support the metadata request this backend issues (HEAD)'' @ Where uri))
     else if status \<ge> 500 then
       WithTransportStatus status (Status_Error NetworkError
         (''the server reported an error and did not recover within the retry budget'' @ Where uri))
     else if status = 429 then
       WithTransportStatus status (Status_Error NetworkError
         (''the server is rate limiting and did not recover within the retry budget'' @ Where uri))
     else WithTransportStatus status (Status_Error InvalidResponse (''the server answered with an unusable status'' @ Where uri)))"

definition AssetChangedStatus :: "Uri \<Rightarrow> string \<Rightarrow> Status" where
  "AssetChangedStatus uri how = Status_Error AssetChanged (''the asset changed while it was open: '' @ how @ Where uri)"

definition IsRedirect :: "int \<Rightarrow> bool" where
  "IsRedirect status \<longleftrightarrow> status = 301 \<or> status = 302 \<or> status = 307 \<or> status = 308"

definition IsRetryableStatus :: "int \<Rightarrow> bool" where
  "IsRetryableStatus status \<longleftrightarrow> status = 429 \<or> status = 502 \<or> status = 503 \<or> status = 504"

definition IsRetryableTransportError :: "TransportError \<Rightarrow> bool" where
  "IsRetryableTransportError error \<longleftrightarrow> error = ConnectFailed \<or> error = ConnectionLost"

definition IsResumable :: "TransportError \<Rightarrow> bool" where
  "IsResumable error \<longleftrightarrow> error = IncompleteBody \<or> error = ConnectionLost"

section \<open>Interception\<close>

definition IsTokenChar :: "char \<Rightarrow> bool" where
  "IsTokenChar c \<longleftrightarrow> is_lower c \<or> is_upper c \<or> is_digit c \<or>
     c \<in> set (''!#$%&*+-.^_|~'' @ [CHR 0x27, CHR 0x60])"

definition IsToken :: "string \<Rightarrow> bool" where
  "IsToken str \<longleftrightarrow> (if str = [] then False else list_all IsTokenChar str)"

definition kReserved :: "string list" where
  "kReserved = [''accept-encoding'', ''connection'', ''content-encoding'', ''content-length'', ''expect'', ''host'', ''if-match'',
     ''if-modified-since'', ''if-none-match'', ''if-range'', ''if-unmodified-since'', ''keep-alive'', ''proxy-connection'', ''range'',
     ''te'', ''trailer'', ''transfer-encoding'', ''upgrade'', ''user-agent'']"

definition IsReservedHeader :: "string \<Rightarrow> bool" where
  "IsReservedHeader name \<longleftrightarrow> list_ex (\<lambda>reserved. map to_lower name = reserved) kReserved"

definition IsSafeFieldValue :: "string \<Rightarrow> bool" where
  "IsSafeFieldValue v \<longleftrightarrow> (if v = [] then False else list_all (\<lambda>c. \<not> (ord c < 0x20 \<and> c \<noteq> CHR 0x09 \<or> ord c = 0x7f)) v)"

definition IsInterceptableHeader :: "string \<Rightarrow> string \<Rightarrow> bool" where
  "IsInterceptableHeader name v \<longleftrightarrow> IsToken name \<and> \<not> IsReservedHeader name \<and> IsSafeFieldValue v"

definition effective_port :: "Uri \<Rightarrow> nat" where
  "effective_port u = (if port u \<noteq> 0 then port u else DefaultPort u)"

definition SameOrigin :: "Uri \<Rightarrow> Uri \<Rightarrow> bool" where
  "SameOrigin a b \<longleftrightarrow> scheme a = scheme b \<and> host a = host b \<and> effective_port a = effective_port b"

text \<open>The check of each added header; the answer is the failure, if there is one.\<close>

fun admit_headers :: "Uri \<Rightarrow> nat \<Rightarrow> string list \<Rightarrow> RequestHeader list \<Rightarrow> Status option" where
  "admit_headers uri byte_total seen [] = None"
| "admit_headers uri byte_total seen (header # hs) =
    (if \<not> IsInterceptableHeader (rh_name header) (rh_value header) then
       Some (Status_Error InvalidArgument
         ((if IsToken (rh_name header) \<and> IsReservedHeader (rh_name header)
           then ''the request interceptor tried to set '' @ LowerAscii (rh_name header) @ '', which this backend sends itself''
           else ''the request interceptor supplied a header that cannot be sent: a name that is not a token, or an empty value or one with a control character'')
          @ Where uri))
     else
       let lower = LowerAscii (rh_name header)
       in if list_ex (\<lambda>earlier. earlier = lower) seen then
            Some (Status_Error InvalidArgument (''the request interceptor supplied the same header more than once'' @ Where uri))
          else
            let byte_total' = byte_total + (length (rh_name header) + 2 + length (rh_value header) + 2)
            in if byte_total' > kMaxInterceptedHeaderBytes then
                 Some (Status_Error InvalidArgument
                   (''the request interceptor added more than '' @ to_dec kMaxInterceptedHeaderBytes @ '' bytes of header'' @ Where uri))
               else admit_headers uri byte_total' (seen @ [lower]) hs)"

definition Intercept :: "'w interceptor \<Rightarrow> Method \<Rightarrow> Uri \<Rightarrow> nat \<Rightarrow> nat \<Rightarrow> 'w \<Rightarrow> (Status + RequestHeader list) \<times> 'w" where
  "Intercept interceptor meth uri redirectHop attempt w =
    (let view = \<lparr>ir_method = (if meth = Head then ''HEAD'' else ''GET''), ir_url = ToIdentity uri, ir_scheme = scheme uri,
                 ir_host = host uri, ir_port = effective_port uri, ir_redirectHop = redirectHop, ir_attempt = attempt\<rparr>
     in case interceptor view w of
          (None, w') \<Rightarrow> (Inl (Status_Error AccessDenied (''the request interceptor declined the request'' @ Where uri)), w')
        | (Some headers, w') \<Rightarrow>
            (case admit_headers uri 0 [] headers of Some failure \<Rightarrow> Inl failure | None \<Rightarrow> Inr headers, w'))"

section \<open>One logical exchange\<close>

record ExchangeResult =
  ex_response :: TransportResponse
  ex_body :: bytes
  ex_status :: Status
  ex_finalUri :: Uri

text \<open>What stays the same over all requests of an exchange.\<close>

record 'w exchange_args =
  xa_transport :: "'w transport"
  xa_options :: "'w HttpOptions"
  xa_origin :: Uri
  xa_method :: Method
  xa_range :: string
  xa_ifRange :: string
  xa_hasBody :: bool
  xa_capacity :: u64

definition request_headers :: "'w exchange_args \<Rightarrow> Uri \<Rightarrow> nat \<Rightarrow> nat \<Rightarrow> 'w \<Rightarrow> (Status + RequestHeader list) \<times> 'w" where
  "request_headers x current redirects attempt w =
    (case ho_interceptor (xa_options x) of
       None \<Rightarrow> (Inr [], w)
     | Some interceptor \<Rightarrow>
         if SameOrigin current (xa_origin x) then Intercept interceptor (xa_method x) current redirects attempt w
         else (Inr [], w))"

definition build_request :: "'w exchange_args \<Rightarrow> Uri \<Rightarrow> RequestHeader list \<Rightarrow> TransportRequest" where
  "build_request x current headers =
    (let opts = xa_options x
     in \<lparr>rq_url = Uri_ToString current, rq_method = xa_method x, rq_range = xa_range x, rq_ifRange = xa_ifRange x,
         rq_userAgent = (if ho_userAgent opts = [] then kDefaultUserAgent else ho_userAgent opts), rq_headers = headers,
         rq_timeouts = \<lparr>connectMs = ho_connectTimeoutMs opts, responseMs = ho_responseTimeoutMs opts,
           transferMs = ho_transferTimeoutMs opts\<rparr>,
         rq_destinations = ho_destinations opts, rq_hasBody = xa_hasBody x, rq_bodyCapacity = xa_capacity x\<rparr>)"

definition retryable :: "TransportResponse \<Rightarrow> bool" where
  "retryable response =
    (if rs_error response = HeadersTooLarge then False
     else if rs_status response = 0 then IsRetryableTransportError (rs_error response)
     else IsRetryableStatus (rs_status response))"

text \<open>The attempts at one URL. The retries that remain are shared with the caller.\<close>

fun attempt_loop :: "'w exchange_args \<Rightarrow> 's RequestSink \<Rightarrow> Uri \<Rightarrow> nat \<Rightarrow> nat \<Rightarrow> nat \<Rightarrow> 's \<Rightarrow> 'w \<Rightarrow>
    (Status + TransportResponse \<times> bytes) \<times> nat \<times> 's \<times> 'w" where
  "attempt_loop x ops current redirects attempt retries s w =
    (case request_headers x current redirects (attempt + 1) w of
       (Inl refused, w1) \<Rightarrow> (Inl refused, retries, s, w1)
     | (Inr headers, w1) \<Rightarrow>
         (case xa_transport x (build_request x current headers) w1 of
            ((response, body, us), w2) \<Rightarrow>
              let s1 = sink_Request ops (xa_method x = Head) (rs_bodyBytes response) us s
              in if retries = 0 then (Inr (response, body), retries, s1, w2)
                 else if \<not> retryable response then (Inr (response, body), retries, s1, w2)
                 else attempt_loop x ops current redirects (attempt + 1) (retries - 1) (sink_Retry ops s1) w2))"

declare attempt_loop.simps [simp del]

text \<open>What a response means for the exchange: a result, or the next URL.\<close>

definition next_hop :: "'w exchange_args \<Rightarrow> Uri \<Rightarrow> nat \<Rightarrow> TransportResponse \<Rightarrow> bytes \<Rightarrow> ExchangeResult + Uri" where
  "next_hop x current redirects response body =
    (let result = (\<lambda>st. Inl \<lparr>ex_response = response, ex_body = body, ex_status = st, ex_finalUri = current\<rparr>);
         invalid = (\<lambda>msg. WithTransportStatus (rs_status response) (Status_Error InvalidResponse msg))
     in if rs_error response = DestinationRefused then result (DestinationRefusedStatus (rs_refusedClass response) current)
        else if rs_error response = HeadersTooLarge then
          result (if rs_status response \<noteq> 0
                  then WithTransportStatus (rs_status response) (ProjectTransportError (rs_error response) current)
                  else ProjectTransportError (rs_error response) current)
        else if rs_status response = 0 then result (ProjectTransportError (rs_error response) current)
        else if \<not> IsRedirect (rs_status response) then result Status_Ok
        else case HeaderTable_Find ''Location'' (rs_headers response) of
          None \<Rightarrow> result (invalid (''the server redirected without a Location'' @ Where current))
        | Some location \<Rightarrow>
            if location = [] then result (invalid (''the server redirected without a Location'' @ Where current))
            else if int redirects \<ge> ho_maxRedirects (xa_options x) then
              result (invalid (''the redirect chain exceeded '' @ to_string_int (ho_maxRedirects (xa_options x)) @ '' hops'' @ Where current))
            else case ResolveReference current location of
                   Inl error \<Rightarrow> result (invalid (''the server redirected to an unusable location: '' @ error @ Where current))
                 | Inr target \<Rightarrow>
                     if IsSchemeDowngrade current target then
                       result (invalid (''the server redirected from https to http, which would drop transport security'' @ Where current))
                     else Inr target)"

lemma next_hop_bounded: "next_hop x current redirects response body = Inr target \<Longrightarrow> int redirects < ho_maxRedirects (xa_options x)"
  by (auto simp: next_hop_def Let_def split: if_splits option.splits sum.splits)

text \<open>The pre-flight of the destination policy: the class of a literal host that it refuses.\<close>

definition refused_literal :: "'w exchange_args \<Rightarrow> Uri \<Rightarrow> AddressClass option" where
  "refused_literal x current =
    (case ClassifyHostLiteral (host current) of
       Some literal \<Rightarrow> if \<not> Permits (ho_destinations (xa_options x)) literal then Some literal else None
     | None \<Rightarrow> None)"

function hop_loop :: "'w exchange_args \<Rightarrow> 's RequestSink \<Rightarrow> Uri \<Rightarrow> nat \<Rightarrow> nat \<Rightarrow> 's \<Rightarrow> 'w \<Rightarrow> ExchangeResult \<times> nat \<times> 's \<times> 'w" where
  "hop_loop x ops current redirects retries s w =
    (case refused_literal x current of
       Some literal \<Rightarrow>
         (\<lparr>ex_response = TransportResponse_empty, ex_body = [], ex_status = DestinationRefusedStatus (Some literal) current,
           ex_finalUri = current\<rparr>, retries, s, w)
     | None \<Rightarrow>
         (case attempt_loop x ops current redirects 0 retries s w of
            (Inl refused, retries', s', w') \<Rightarrow>
              (\<lparr>ex_response = TransportResponse_empty, ex_body = [], ex_status = refused, ex_finalUri = current\<rparr>, retries', s', w')
          | (Inr (response, body), retries', s', w') \<Rightarrow>
              (case next_hop x current redirects response body of
                 Inl result \<Rightarrow> (result, retries', s', w')
               | Inr target \<Rightarrow> hop_loop x ops target (redirects + 1) retries' (sink_Redirect ops s') w')))"
  by pat_completeness auto
termination
proof (relation "measure (\<lambda>(x, ops, current, redirects, retries, s, w). nat (ho_maxRedirects (xa_options x) - int redirects))", goal_cases)
  case (2 x ops current redirects retries s w)
  then show ?case using next_hop_bounded by fastforce
qed simp

declare hop_loop.simps [simp del]

definition PerformExchange :: "'w exchange_args \<Rightarrow> 's RequestSink \<Rightarrow> Uri \<Rightarrow> nat \<Rightarrow> 's \<Rightarrow> 'w \<Rightarrow> ExchangeResult \<times> nat \<times> 's \<times> 'w" where
  "PerformExchange x ops start retriesRemaining s w = hop_loop x ops start 0 retriesRemaining s w"

section \<open>The loops, step by step\<close>

text \<open>One turn of the attempt loop, as the cases a proof by induction on the retries needs.\<close>

lemma attempt_loop_cases:
  assumes "attempt_loop x ops current redirects attempt retries s w = (r, retries', s', w')"
  obtains (refused) refusal where "request_headers x current redirects (attempt + 1) w = (Inl refusal, w')" "r = Inl refusal"
      "retries' = retries" "s' = s"
  | (answered) headers w1 response body us where
      "request_headers x current redirects (attempt + 1) w = (Inr headers, w1)"
      "xa_transport x (build_request x current headers) w1 = ((response, body, us), w')" "r = Inr (response, body)"
      "retries' = retries" "s' = sink_Request ops (xa_method x = Head) (rs_bodyBytes response) us s" "retries = 0 \<or> \<not> retryable response"
  | (retried) headers w1 response body us w2 n where
      "request_headers x current redirects (attempt + 1) w = (Inr headers, w1)"
      "xa_transport x (build_request x current headers) w1 = ((response, body, us), w2)" "retries = Suc n" "retryable response"
      "attempt_loop x ops current redirects (attempt + 1) n
         (sink_Retry ops (sink_Request ops (xa_method x = Head) (rs_bodyBytes response) us s)) w2 = (r, retries', s', w')"
proof -
  obtain h w1 where h: "request_headers x current redirects (attempt + 1) w = (h, w1)" by fastforce
  show thesis
  proof (cases h)
    case (Inl refusal)
    then show thesis using assms h by (intro refused [of refusal]) (auto simp: attempt_loop.simps [of x ops current redirects attempt])
  next
    case (Inr headers)
    obtain response body us w2 where p: "xa_transport x (build_request x current headers) w1 = ((response, body, us), w2)"
      by (metis surj_pair)
    show thesis
    proof (cases "retries = 0 \<or> \<not> retryable response")
      case True
      then show thesis
        using assms h Inr p by (intro answered [of headers w1 response body us]) (auto simp: attempt_loop.simps [of x ops current redirects attempt] Let_def split: if_splits)
    next
      case False
      then obtain n where "retries = Suc n" by (cases retries) auto
      then show thesis
        using assms h Inr p False by (intro retried [of headers w1 response body us w2 n])
          (auto simp: attempt_loop.simps [of x ops current redirects attempt "Suc n"] Let_def)
    qed
  qed
qed

lemma hop_loop_cases:
  assumes "hop_loop x ops current redirects retries s w = (res, retries', s', w')"
  obtains (literal) c where "refused_literal x current = Some c" "retries' = retries" "s' = s" "w' = w"
      "res = \<lparr>ex_response = TransportResponse_empty, ex_body = [], ex_status = DestinationRefusedStatus (Some c) current, ex_finalUri = current\<rparr>"
  | (declined) refusal where "refused_literal x current = None"
      "attempt_loop x ops current redirects 0 retries s w = (Inl refusal, retries', s', w')"
      "res = \<lparr>ex_response = TransportResponse_empty, ex_body = [], ex_status = refusal, ex_finalUri = current\<rparr>"
  | (final) response body where "refused_literal x current = None"
      "attempt_loop x ops current redirects 0 retries s w = (Inr (response, body), retries', s', w')"
      "next_hop x current redirects response body = Inl res"
  | (hop) response body retries1 s1 w1 target where "refused_literal x current = None"
      "attempt_loop x ops current redirects 0 retries s w = (Inr (response, body), retries1, s1, w1)"
      "next_hop x current redirects response body = Inr target"
      "hop_loop x ops target (redirects + 1) retries1 (sink_Redirect ops s1) w1 = (res, retries', s', w')"
proof (cases "refused_literal x current")
  case (Some c)
  then show thesis using assms by (intro literal [of c]) (auto simp: hop_loop.simps [of x ops current])
next
  case None
  obtain r retries1 s1 w1 where a: "attempt_loop x ops current redirects 0 retries s w = (r, retries1, s1, w1)" by (metis surj_pair)
  show thesis
  proof (cases r)
    case (Inl refusal)
    then show thesis using assms a None by (intro declined [of refusal]) (auto simp: hop_loop.simps [of x ops current])
  next
    case (Inr rb)
    then obtain response body where rb: "r = Inr (response, body)" by (cases rb) auto
    show thesis
      using assms a None rb by (cases "next_hop x current redirects response body")
        (auto simp: hop_loop.simps [of x ops current] intro: final hop)
  qed
qed

lemma admit_headers_code: "admit_headers u n seen hs = Some st \<Longrightarrow> code st = InvalidArgument"
  by (induction u n seen hs rule: admit_headers.induct) (auto simp: Let_def split: if_splits)

lemma request_headers_refused: "request_headers x u n m w = (Inl st, w') \<Longrightarrow> code st = AccessDenied \<or> code st = InvalidArgument"
  by (auto simp: request_headers_def Intercept_def Let_def dest: admit_headers_code split: option.splits if_splits prod.splits)

text \<open>
  The rule by which a property of the world is carried through an exchange: if every
  request that satisfies \<open>A\<close> keeps it and the interceptor does, the exchange does; the
  final response satisfies what every response to such a request satisfies.
\<close>

lemma attempt_loop_rule:
  assumes "attempt_loop x ops current redirects attempt retries s w = (r, retries', s', w')" "I w"
    and headers: "\<And>n m w h w'. I w \<Longrightarrow> request_headers x current n m w = (h, w') \<Longrightarrow> I w' \<and> (\<forall>hs. h = Inr hs \<longrightarrow> A (build_request x current hs))"
    and perform: "\<And>req w resp body us w'. I w \<Longrightarrow> A req \<Longrightarrow> xa_transport x req w = ((resp, body, us), w') \<Longrightarrow> I w' \<and> P resp body"
  shows "I w' \<and> retries' \<le> retries \<and> (\<forall>resp body. r = Inr (resp, body) \<longrightarrow> P resp body) \<and> (\<forall>st. r = Inl st \<longrightarrow> \<not> IsOk st)"
  using assms(1,2)
proof (induction retries arbitrary: attempt s w rule: less_induct)
  case (less retries)
  from less.prems(1) show ?case
  proof (cases rule: attempt_loop_cases)
    case (refused refusal)
    then show ?thesis using headers [OF less.prems(2)] request_headers_refused [OF refused(1)] by (auto simp: IsOk_def)
  next
    case (answered hs w1 response body us)
    then show ?thesis using headers [OF less.prems(2) answered(1)] perform [OF _ _ answered(2)] by auto
  next
    case (retried hs w1 response body us w2 n)
    have "I w2" using headers [OF less.prems(2) retried(1)] perform [OF _ _ retried(2)] by auto
    then show ?thesis using less.IH [OF _ retried(5)] retried(3) by fastforce
  qed
qed

lemma next_hop_target:
  "next_hop x current redirects response body = Inr target \<Longrightarrow> IsSecure current \<Longrightarrow> IsSecure target"
  by (auto simp: next_hop_def Let_def IsSchemeDowngrade_def split: if_splits option.splits sum.splits)

lemma code_DestinationRefusedStatus [simp]: "code (DestinationRefusedStatus c u) = AccessDenied"
  by (simp add: DestinationRefusedStatus_def)

lemma code_ProjectTransportError_Ok [simp]: "code (ProjectTransportError e u) = Ok \<longleftrightarrow> e = TE_None"
  by (cases e) simp_all

lemma next_hop_result:
  assumes "next_hop x current redirects response body = Inl res"
  shows "ex_response res = response \<and> ex_body res = body \<and> ex_finalUri res = current"
  using assms by (simp add: next_hop_def Let_def split: if_splits option.splits sum.splits) auto

lemma next_hop_ok:
  assumes "next_hop x current redirects response body = Inl res" "IsOk (ex_status res)"
  shows "rs_error response \<noteq> DestinationRefused" "rs_error response \<noteq> HeadersTooLarge" "\<not> IsRedirect (rs_status response)"
    "rs_status response = 0 \<longrightarrow> rs_error response = TE_None"
proof -
  show d: "rs_error response \<noteq> DestinationRefused" using assms by (auto simp: next_hop_def Let_def IsOk_def)
  show h: "rs_error response \<noteq> HeadersTooLarge" using assms by (auto simp: next_hop_def Let_def IsOk_def split: if_splits)
  show z: "rs_status response = 0 \<longrightarrow> rs_error response = TE_None" using assms d h by (auto simp: next_hop_def Let_def IsOk_def)
  show "\<not> IsRedirect (rs_status response)"
  proof
    assume r: "IsRedirect (rs_status response)"
    then have "rs_status response \<noteq> 0" by (auto simp: IsRedirect_def)
    then show False using assms d h r by (auto simp: next_hop_def Let_def IsOk_def split: if_splits option.splits sum.splits)
  qed
qed

definition hop_ok :: "'w exchange_args \<Rightarrow> Uri \<Rightarrow> Uri \<Rightarrow> bool" where
  "hop_ok x start u \<longleftrightarrow> refused_literal x u = None \<and> (IsSecure start \<longrightarrow> IsSecure u)"

lemma hop_loop_rule:
  assumes "hop_loop x ops current redirects retries s w = (res, retries', s', w')" "I w" "IsSecure start \<longrightarrow> IsSecure current"
    and headers: "\<And>u n m w h w'. hop_ok x start u \<Longrightarrow> I w \<Longrightarrow> request_headers x u n m w = (h, w') \<Longrightarrow>
      I w' \<and> (\<forall>hs. h = Inr hs \<longrightarrow> A (build_request x u hs))"
    and perform: "\<And>req w resp body us w'. I w \<Longrightarrow> A req \<Longrightarrow> xa_transport x req w = ((resp, body, us), w') \<Longrightarrow> I w' \<and> P resp body"
  shows "I w' \<and> retries' \<le> retries \<and> (IsOk (ex_status res) \<longrightarrow>
    P (ex_response res) (ex_body res) \<and> rs_error (ex_response res) \<noteq> HeadersTooLarge \<and> \<not> IsRedirect (rs_status (ex_response res)))"
  using assms(1-3)
proof (induction "nat (ho_maxRedirects (xa_options x) - int redirects)" arbitrary: current redirects retries s w rule: less_induct)
  case less
  have attempts: "I w1 \<and> retries1 \<le> retries \<and> (\<forall>resp body. r = Inr (resp, body) \<longrightarrow> P resp body) \<and> (\<forall>st. r = Inl st \<longrightarrow> \<not> IsOk st)"
    if "refused_literal x current = None" "attempt_loop x ops current redirects 0 retries s w = (r, retries1, s1, w1)" for r retries1 s1 w1
  proof (rule attempt_loop_rule [where I = I and A = A and P = P, OF that(2) less.prems(2)])
    have "hop_ok x start current" using that(1) less.prems(3) by (simp add: hop_ok_def)
    then show "\<And>n m w h w'. I w \<Longrightarrow> request_headers x current n m w = (h, w') \<Longrightarrow>
        I w' \<and> (\<forall>hs. h = Inr hs \<longrightarrow> A (build_request x current hs))" by (rule headers)
  qed (rule perform)
  from less.prems(1) show ?case
  proof (cases rule: hop_loop_cases)
    case (literal c)
    then show ?thesis using less.prems(2) by (simp add: IsOk_def)
  next
    case (declined refusal)
    then show ?thesis using attempts [OF declined(1,2)] by simp
  next
    case (final response body)
    then show ?thesis using attempts [OF final(1,2)] next_hop_result [OF final(3)] next_hop_ok [OF final(3)] by auto
  next
    case (hop response body retries1 s1 w1 target)
    have "nat (ho_maxRedirects (xa_options x) - int (redirects + 1)) < nat (ho_maxRedirects (xa_options x) - int redirects)"
      using next_hop_bounded [OF hop(3)] by simp
    moreover have "IsSecure start \<longrightarrow> IsSecure target" using next_hop_target [OF hop(3)] less.prems(3) by blast
    ultimately show ?thesis using less.hyps [OF _ hop(4)] attempts [OF hop(1,2)] by (auto intro: le_trans)
  qed
qed

lemma hop_loop_final:
  assumes "hop_loop x ops current redirects retries s w = (res, retries', s', w')" "IsOk (ex_status res)" "IsSecure start \<longrightarrow> IsSecure current"
  shows "hop_ok x start (ex_finalUri res)"
  using assms(1,3)
proof (induction "nat (ho_maxRedirects (xa_options x) - int redirects)" arbitrary: current redirects retries s w rule: less_induct)
  case less
  from less.prems(1) show ?case
  proof (cases rule: hop_loop_cases)
    case (literal c)
    then show ?thesis using assms(2) by (simp add: IsOk_def)
  next
    case (declined refusal)
    then show ?thesis using less.prems(2) by (simp add: hop_ok_def)
  next
    case (final response body)
    then show ?thesis using next_hop_result [OF final(3)] less.prems(2) by (simp add: hop_ok_def)
  next
    case (hop response body retries1 s1 w1 target)
    have "nat (ho_maxRedirects (xa_options x) - int (redirects + 1)) < nat (ho_maxRedirects (xa_options x) - int redirects)"
      using next_hop_bounded [OF hop(3)] by simp
    then show ?thesis using less.hyps [OF _ hop(4)] next_hop_target [OF hop(3)] less.prems(2) by blast
  qed
qed

section \<open>What an exchange sends\<close>

text \<open>
  The same exchange with a transport that writes down each request it is handed; the
  interceptor does not touch the record.
\<close>

type_synonym 'w recording = "'w \<times> TransportRequest list"

definition recorded :: "'w transport \<Rightarrow> 'w recording transport" where
  "recorded perform req wl = (case perform req (fst wl) of (answer, w') \<Rightarrow> (answer, (w', snd wl @ [req])))"

definition recorded_interceptor :: "'w interceptor \<Rightarrow> 'w recording interceptor" where
  "recorded_interceptor i view wl = (case i view (fst wl) of (answer, w') \<Rightarrow> (answer, (w', snd wl)))"

definition recorded_options :: "'w HttpOptions \<Rightarrow> 'w recording HttpOptions" where
  "recorded_options opts = \<lparr>ho_connectTimeoutMs = ho_connectTimeoutMs opts, ho_responseTimeoutMs = ho_responseTimeoutMs opts,
     ho_transferTimeoutMs = ho_transferTimeoutMs opts, ho_maxRedirects = ho_maxRedirects opts, ho_maxAttempts = ho_maxAttempts opts,
     ho_destinations = ho_destinations opts, ho_userAgent = ho_userAgent opts,
     ho_interceptor = map_option recorded_interceptor (ho_interceptor opts)\<rparr>"

definition recorded_args :: "'w exchange_args \<Rightarrow> 'w recording exchange_args" where
  "recorded_args x = \<lparr>xa_transport = recorded (xa_transport x), xa_options = recorded_options (xa_options x), xa_origin = xa_origin x,
     xa_method = xa_method x, xa_range = xa_range x, xa_ifRange = xa_ifRange x, xa_hasBody = xa_hasBody x, xa_capacity = xa_capacity x\<rparr>"

definition sent_requests :: "'w exchange_args \<Rightarrow> 's RequestSink \<Rightarrow> Uri \<Rightarrow> nat \<Rightarrow> 's \<Rightarrow> 'w \<Rightarrow> TransportRequest list" where
  "sent_requests x ops start retries s w = snd (snd (snd (snd (PerformExchange (recorded_args x) ops start retries s (w, [])))))"

text \<open>What may be sent: nowhere the policy refuses, never in the clear after TLS, and added headers only to the opened origin.\<close>

definition header_bytes :: "RequestHeader list \<Rightarrow> nat" where
  "header_bytes hs = sum_list (map (\<lambda>h. length (rh_name h) + 2 + length (rh_value h) + 2) hs)"

definition headers_ok :: "RequestHeader list \<Rightarrow> bool" where
  "headers_ok hs \<longleftrightarrow> list_all (\<lambda>h. IsInterceptableHeader (rh_name h) (rh_value h)) hs \<and>
     distinct (map (\<lambda>h. LowerAscii (rh_name h)) hs) \<and> header_bytes hs \<le> kMaxInterceptedHeaderBytes"

definition admitted :: "'w exchange_args \<Rightarrow> Uri \<Rightarrow> TransportRequest \<Rightarrow> bool" where
  "admitted x start req \<longleftrightarrow> (\<exists>u. rq_url req = Uri_ToString u \<and> (IsSecure u \<or> \<not> IsSecure start) \<and>
     (case ClassifyHostLiteral (host u) of None \<Rightarrow> True | Some c \<Rightarrow> Permits (ho_destinations (xa_options x)) c) \<and>
     (rq_headers req = [] \<or> SameOrigin u (xa_origin x)) \<and> headers_ok (rq_headers req) \<and>
     rq_range req = xa_range x \<and> rq_ifRange req = xa_ifRange x \<and> rq_bodyCapacity req = xa_capacity x)"

lemma admit_headers_ok:
  "admit_headers u n seen hs = None \<Longrightarrow> n \<le> kMaxInterceptedHeaderBytes \<Longrightarrow>
     list_all (\<lambda>h. IsInterceptableHeader (rh_name h) (rh_value h)) hs \<and> distinct (map (\<lambda>h. LowerAscii (rh_name h)) hs) \<and>
     set (map (\<lambda>h. LowerAscii (rh_name h)) hs) \<inter> set seen = {} \<and> n + header_bytes hs \<le> kMaxInterceptedHeaderBytes"
proof (induction u n seen hs rule: admit_headers.induct)
  case (2 u n seen h hs)
  let ?n = "n + (length (rh_name h) + 2 + length (rh_value h) + 2)"
  have c: "IsInterceptableHeader (rh_name h) (rh_value h)" "LowerAscii (rh_name h) \<notin> set seen" "\<not> ?n > kMaxInterceptedHeaderBytes"
    "admit_headers u ?n (seen @ [LowerAscii (rh_name h)]) hs = None"
    using 2(2) by (auto simp: Let_def list_ex_iff split: if_splits)
  then have "list_all (\<lambda>h. IsInterceptableHeader (rh_name h) (rh_value h)) hs \<and> distinct (map (\<lambda>h. LowerAscii (rh_name h)) hs) \<and>
      set (map (\<lambda>h. LowerAscii (rh_name h)) hs) \<inter> set (seen @ [LowerAscii (rh_name h)]) = {} \<and> ?n + header_bytes hs \<le> kMaxInterceptedHeaderBytes"
    by (intro 2(1)) (auto simp: list_ex_iff)
  then show ?case using c(1,2) by (auto simp: header_bytes_def)
qed (simp add: header_bytes_def)

lemma request_headers_ok:
  assumes "request_headers x u n m w = (Inr hs, w')"
  shows "headers_ok hs \<and> (hs = [] \<or> SameOrigin u (xa_origin x))"
  using assms admit_headers_ok [of u 0 "[]" hs]
  by (auto simp: request_headers_def Intercept_def Let_def headers_ok_def header_bytes_def split: option.splits if_splits prod.splits)

lemma recorded_headers:
  "request_headers (recorded_args x) u n m (w, log) = (h, w') \<Longrightarrow> snd w' = log"
  by (auto simp: request_headers_def Intercept_def Let_def recorded_args_def recorded_options_def recorded_interceptor_def
      split: option.splits if_splits prod.splits)

lemma recorded_simps [simp]:
  "ho_destinations (xa_options (recorded_args x)) = ho_destinations (xa_options x)" "xa_origin (recorded_args x) = xa_origin x"
  "xa_range (recorded_args x) = xa_range x" "xa_ifRange (recorded_args x) = xa_ifRange x"
  "xa_capacity (recorded_args x) = xa_capacity x" "ho_maxRedirects (xa_options (recorded_args x)) = ho_maxRedirects (xa_options x)"
  "xa_transport (recorded_args x) = recorded (xa_transport x)"
  by (simp_all add: recorded_args_def recorded_options_def)

lemma build_request_admitted:
  assumes "hop_ok (recorded_args x) start u" "request_headers (recorded_args x) u n m w = (Inr hs, w')"
  shows "admitted x start (build_request (recorded_args x) u hs)"
  using assms(1) request_headers_ok [OF assms(2)]
  by (auto simp: admitted_def hop_ok_def refused_literal_def build_request_def Let_def intro!: exI [of _ u] split: option.splits if_splits)


section \<open>How many requests an exchange sends\<close>

lemma recorded_attempts:
  assumes "attempt_loop (recorded_args x) ops current redirects attempt retries s wl = (r, retries', s', wl')"
  shows "length (snd wl') + retries' \<le> length (snd wl) + retries + 1 \<and> retries' \<le> retries"
  using assms
proof (induction retries arbitrary: attempt s wl rule: less_induct)
  case (less retries)
  have same: "snd w1 = snd wl" if "request_headers (recorded_args x) u n m wl = (h, w1)" for u n m h w1
    using recorded_headers [of x u n m "fst wl" "snd wl"] that by simp
  have one: "length (snd w2) = length (snd w1) + 1" if "xa_transport (recorded_args x) req w1 = (a, w2)" for req a w1 w2
    using that by (auto simp: recorded_def split: prod.splits)
  from less.prems show ?case
  proof (cases rule: attempt_loop_cases)
    case (refused refusal)
    then show ?thesis using same [OF refused(1)] by simp
  next
    case (answered hs w1 response body us)
    then show ?thesis using same [OF answered(1)] one [OF answered(2)] by simp
  next
    case (retried hs w1 response body us w2 n)
    then show ?thesis using less.IH [OF _ retried(5)] same [OF retried(1)] one [OF retried(2)] by simp
  qed
qed

lemma recorded_hops:
  assumes "hop_loop (recorded_args x) ops current redirects retries s wl = (res, retries', s', wl')"
  shows "length (snd wl') + retries' \<le> length (snd wl) + retries + 1 + nat (ho_maxRedirects (xa_options x) - int redirects)"
  using assms
proof (induction "nat (ho_maxRedirects (xa_options x) - int redirects)" arbitrary: current redirects retries s wl rule: less_induct)
  case less
  from less.prems show ?case
  proof (cases rule: hop_loop_cases)
    case (declined refusal)
    then show ?thesis using recorded_attempts [OF declined(2)] by simp
  next
    case (final response body)
    then show ?thesis using recorded_attempts [OF final(2)] by simp
  next
    case (hop response body retries1 s1 w1 target)
    have "nat (ho_maxRedirects (xa_options x) - int (redirects + 1)) + 1 = nat (ho_maxRedirects (xa_options x) - int redirects)"
      using next_hop_bounded [OF hop(3)] by simp
    then show ?thesis using less.hyps [OF _ hop(4)] recorded_attempts [OF hop(2)] by linarith
  qed simp
qed

text \<open>
  An exchange always ends, after at most \<open>maxRedirects + 1\<close> requests and one more for
  each retry of the budget it was given, whatever the transport, the servers and the
  interceptor answer. For a whole budget of \<open>maxAttempts - 1\<close> retries this is the documented
  \<open>maxRedirects + maxAttempts\<close>.
\<close>

theorem exchange_request_bound:
  "length (sent_requests x ops start retries s w) \<le> nat (ho_maxRedirects (xa_options x)) + 1 + retries"
proof -
  obtain res retries' s' w' log where e: "hop_loop (recorded_args x) ops start 0 retries s (w, []) = (res, retries', s', (w', log))"
    by (metis surj_pair)
  show ?thesis using recorded_hops [OF e] e by (simp add: sent_requests_def PerformExchange_def)
qed

section \<open>Counters kept during open\<close>

text \<open>A map between sinks that respects the three operations respects every exchange.\<close>

definition sink_map :: "('s \<Rightarrow> 't) \<Rightarrow> 's RequestSink \<Rightarrow> 't RequestSink \<Rightarrow> bool" where
  "sink_map f ops ops' \<longleftrightarrow> (\<forall>md n us s. f (sink_Request ops md n us s) = sink_Request ops' md n us (f s)) \<and>
     (\<forall>s. f (sink_Retry ops s) = sink_Retry ops' (f s)) \<and> (\<forall>s. f (sink_Redirect ops s) = sink_Redirect ops' (f s))"

definition map_sink :: "('s \<Rightarrow> 't) \<Rightarrow> 'r \<times> nat \<times> 's \<times> 'w \<Rightarrow> 'r \<times> nat \<times> 't \<times> 'w" where
  "map_sink f = (\<lambda>(r, retries, s, w). (r, retries, f s, w))"

lemma attempt_loop_sink:
  assumes "sink_map f ops ops'"
  shows "attempt_loop x ops' current redirects attempt retries (f s) w = map_sink f (attempt_loop x ops current redirects attempt retries s w)"
proof (induction retries arbitrary: attempt s w rule: less_induct)
  case (less retries)
  have IH: "retries \<noteq> 0 \<Longrightarrow> attempt_loop x ops' current redirects (attempt + 1) (retries - 1)
      (sink_Retry ops' (sink_Request ops' md n us (f s))) w2 =
      map_sink f (attempt_loop x ops current redirects (attempt + 1) (retries - 1) (sink_Retry ops (sink_Request ops md n us s)) w2)" for md n us w2
    using less [of "retries - 1"] assms by (simp add: sink_map_def [symmetric]) (metis sink_map_def)
  show ?case
    using assms IH unfolding attempt_loop.simps [of x _ current redirects attempt retries]
    by (auto simp: map_sink_def sink_map_def Let_def split: prod.splits sum.splits)
qed

lemma hop_loop_sink:
  assumes "sink_map f ops ops'"
  shows "hop_loop x ops' current redirects retries (f s) w = map_sink f (hop_loop x ops current redirects retries s w)"
proof (induction "nat (ho_maxRedirects (xa_options x) - int redirects)" arbitrary: current redirects retries s w rule: less_induct)
  case less
  obtain r retries1 s1 w1 where a: "attempt_loop x ops current redirects 0 retries s w = (r, retries1, s1, w1)" by (metis surj_pair)
  have a': "attempt_loop x ops' current redirects 0 retries (f s) w = (r, retries1, f s1, w1)"
    unfolding attempt_loop_sink [OF assms] a by (simp add: map_sink_def)
  have IH: "hop_loop x ops' target (Suc redirects) retries1 (sink_Redirect ops' (f s1)) w1 =
      map_sink f (hop_loop x ops target (Suc redirects) retries1 (sink_Redirect ops s1) w1)"
    if "next_hop x current redirects response body = Inr target" for response body target
    using less [of "Suc redirects" target retries1 "sink_Redirect ops s1" w1] next_hop_bounded [OF that] assms by (simp add: sink_map_def)
  show ?case
    unfolding hop_loop.simps [of x _ current redirects retries] a a'
    by (auto simp: map_sink_def IH split: option.splits sum.splits prod.splits)
qed

lemma PerformExchange_sink:
  "sink_map f ops ops' \<Longrightarrow> PerformExchange x ops' start retries (f s) w = map_sink f (PerformExchange x ops start retries s w)"
  by (simp add: PerformExchange_def hop_loop_sink)

lemma replay_latencies:
  "fold (\<lambda>sample m. m\<lparr>rm_requestLatency := Record sample (rm_requestLatency m)\<rparr>) xs m =
     m\<lparr>rm_requestLatency := fold Record xs (rm_requestLatency m)\<rparr>"
  by (induction xs arbitrary: m) simp_all

lemma ReplayInto_sink: "sink_map (\<lambda>p. ReplayInto p m) PendingSink_ops ReaderSink_ops"
  by (simp add: sink_map_def PendingSink_ops_def ReaderSink_ops_def ReplayInto_def Pending_Request_def Reader_Request_def
      replay_latencies AddBytesTransferred_def AddRedirect_def AddRetry_def AddMetadataRequest_def AddRequest_def Let_def algebra_simps)

text \<open>
  The counters accumulated while an asset is opened and replayed once its reader
  exists are exactly the counters the reader would have kept itself, request by request.
\<close>

theorem ReplayInto_exact:
  "PerformExchange x ReaderSink_ops start retries m w =
     (case PerformExchange x PendingSink_ops start retries PendingSink_new w of
        (res, retries', pending, w') \<Rightarrow> (res, retries', ReplayInto pending m, w'))"
proof -
  have "ReplayInto PendingSink_new m = m"
    by (simp add: ReplayInto_def PendingSink_new_def AddBytesTransferred_def AddRedirect_def AddRetry_def AddMetadataRequest_def AddRequest_def)
  then show ?thesis
    using PerformExchange_sink [OF ReplayInto_sink [of m], of x start retries PendingSink_new w] by (simp add: map_sink_def)
qed

end
