(* ===== verification/CacheOptions.thy ===== *)
theory CacheOptions
  imports Prelude
begin

text \<open>
  \<open>libs/usd-asset-cache\<close>: the cache policy and its normalization
  (\<open>CacheOptions.h\<close>, \<open>CacheOptions.cpp\<close>). The doubling loop of
  \<open>RoundDownToPowerOfTwo\<close> runs on fuel; 64 turns are enough because the loop starts
  at \<open>2 ^ 12\<close> and stops below \<open>2 ^ 26\<close>, which \<open>RoundDown_spec\<close> proves by showing
  that the loop condition is false of the result.
\<close>

definition kMinBlockSize :: u64 where "kMinBlockSize = 4096"
definition kMaxBlockSize :: u64 where "kMaxBlockSize = 64 * 1024 * 1024"
definition kDefaultBlockSize :: u64 where "kDefaultBlockSize = 64 * 1024"
definition kDefaultBudgetBytes :: u64 where "kDefaultBudgetBytes = 128 * 1024 * 1024"
definition kDefaultCoalesceGapBlocks :: u32 where "kDefaultCoalesceGapBlocks = 1"
definition kDefaultMaxRequestBytes :: u64 where "kDefaultMaxRequestBytes = 8 * 1024 * 1024"
definition kDefaultBypassThresholdBytes :: u64 where "kDefaultBypassThresholdBytes = 1024 * 1024"

lemmas cache_constants = kMinBlockSize_def kMaxBlockSize_def kDefaultBlockSize_def
  kDefaultBudgetBytes_def kDefaultCoalesceGapBlocks_def kDefaultMaxRequestBytes_def
  kDefaultBypassThresholdBytes_def

record CacheOptions =
  blockSize :: u64
  budgetBytes :: u64
  coalesceGapBlocks :: u32
  maxRequestBytes :: u64
  bypassThresholdBytes :: u64

definition CacheOptions_default :: CacheOptions where
  "CacheOptions_default =
    \<lparr>blockSize = kDefaultBlockSize, budgetBytes = kDefaultBudgetBytes,
     coalesceGapBlocks = kDefaultCoalesceGapBlocks, maxRequestBytes = kDefaultMaxRequestBytes,
     bypassThresholdBytes = kDefaultBypassThresholdBytes\<rparr>"

primrec RoundDown_loop :: "nat \<Rightarrow> u64 \<Rightarrow> u64 \<Rightarrow> u64" where
  "RoundDown_loop 0 pw v = pw"
| "RoundDown_loop (Suc fuel) pw v =
    (if push_bit 1 pw \<le> v then RoundDown_loop fuel (push_bit 1 pw) v else pw)"

definition RoundDownToPowerOfTwo :: "u64 \<Rightarrow> u64" where
  "RoundDownToPowerOfTwo v =
    (if v < kMinBlockSize then kMinBlockSize
     else if v \<ge> kMaxBlockSize then kMaxBlockSize
     else RoundDown_loop 64 kMinBlockSize v)"

definition Normalized :: "CacheOptions \<Rightarrow> CacheOptions" where
  "Normalized opts =
    (let bs = RoundDownToPowerOfTwo (if blockSize opts = 0 then kDefaultBlockSize else blockSize opts);
         mx = max (maxRequestBytes opts) bs;
         blocksPerRequest = mx div bs;
         gapCeiling = (if blocksPerRequest \<ge> 2 then blocksPerRequest - 2 else 0)
     in \<lparr>blockSize = bs, budgetBytes = max (budgetBytes opts) bs,
         coalesceGapBlocks =
           (if (ucast (coalesceGapBlocks opts) :: u64) > gapCeiling
            then ucast (min gapCeiling 0xFFFFFFFF) else coalesceGapBlocks opts),
         maxRequestBytes = mx, bypassThresholdBytes = max (bypassThresholdBytes opts) bs\<rparr>)"

definition IsNormalized :: "CacheOptions \<Rightarrow> bool" where
  "IsNormalized opts \<longleftrightarrow>
    (let n = Normalized opts
     in blockSize n = blockSize opts \<and> budgetBytes n = budgetBytes opts \<and>
        coalesceGapBlocks n = coalesceGapBlocks opts \<and> maxRequestBytes n = maxRequestBytes opts \<and>
        bypassThresholdBytes n = bypassThresholdBytes opts)"

section \<open>Rounding\<close>

lemma unat_push_bit_1:
  fixes p :: u64
  assumes "unat p = 2 ^ k" "k < 63"
  shows "unat (push_bit 1 p) = 2 ^ Suc k"
proof -
  have "(2::nat) ^ Suc k < 2 ^ 64" using assms(2) by (intro power_strict_increasing) auto
  moreover have "push_bit 1 p = 2 * p" by (simp add: push_bit_eq_mult mult.commute)
  ultimately show ?thesis using assms(1) by (simp add: unat_u64_mult)
qed

lemma RoundDown_loop_spec:
  assumes "unat p = 2 ^ k" "p \<le> v" "unat v < 2 ^ (k + fuel)" "k + fuel < 63 \<or> unat v < 2 ^ 62"
  shows "\<exists>j \<ge> k. unat (RoundDown_loop fuel p v) = 2 ^ j \<and> 2 ^ j \<le> unat v \<and> unat v < 2 ^ Suc j"
  using assms
proof (induction fuel arbitrary: p k)
  case 0
  then show ?case by (simp add: word_le_nat_alt)
next
  case (Suc fuel)
  have "(2::nat) ^ k < 2 ^ 62 \<or> k < 62"
    using Suc.prems by (auto simp: word_le_nat_alt)
  then have k: "k < 62" by (metis power_less_imp_less_exp one_less_numeral_iff semiring_norm(76))
  then have d: "unat (push_bit 1 p) = 2 ^ Suc k" using Suc.prems(1) by (intro unat_push_bit_1) auto
  show ?case
  proof (cases "push_bit 1 p \<le> v")
    case True
    then have "\<exists>j \<ge> Suc k. unat (RoundDown_loop fuel (push_bit 1 p) v) = 2 ^ j \<and>
        2 ^ j \<le> unat v \<and> unat v < 2 ^ Suc j"
      using Suc.prems d by (intro Suc.IH) auto
    then show ?thesis using True by (auto intro: Suc_leD)
  next
    case False
    then show ?thesis
      using Suc.prems(1,2) d by (intro exI [of _ k]) (auto simp: word_le_nat_alt not_le)
  qed
qed

text \<open>The rounded size is the largest power of two within the bounds that is not above the request.\<close>

lemma RoundDown_spec:
  "\<exists>k. 12 \<le> k \<and> k \<le> 26 \<and> unat (RoundDownToPowerOfTwo v) = 2 ^ k \<and>
     (4096 \<le> unat v \<longrightarrow> 2 ^ k \<le> unat v) \<and> (unat v < 2 ^ 26 \<longrightarrow> unat v < 2 ^ Suc k)"
proof -
  consider "unat v < 4096" | "2 ^ 26 \<le> unat v" | "4096 \<le> unat v" "unat v < 2 ^ 26" by linarith
  then show ?thesis
  proof cases
    case 1
    then show ?thesis
      by (intro exI [of _ 12]) (simp add: RoundDownToPowerOfTwo_def cache_constants word_less_nat_alt)
  next
    case 2
    then show ?thesis
      by (intro exI [of _ 26])
        (simp add: RoundDownToPowerOfTwo_def cache_constants word_less_nat_alt word_le_nat_alt)
  next
    case 3
    have r: "RoundDownToPowerOfTwo v = RoundDown_loop 64 4096 v"
      using 3 by (simp add: RoundDownToPowerOfTwo_def cache_constants word_less_nat_alt word_le_nat_alt)
    have "\<exists>j \<ge> 12. unat (RoundDown_loop 64 4096 v) = 2 ^ j \<and> 2 ^ j \<le> unat v \<and> unat v < 2 ^ Suc j"
      using 3 by (intro RoundDown_loop_spec) (auto simp: word_le_nat_alt)
    then obtain j where j: "12 \<le> j" "unat (RoundDownToPowerOfTwo v) = 2 ^ j" "2 ^ j \<le> unat v"
      "unat v < 2 ^ Suc j" using r by auto
    have "(2::nat) ^ j < 2 ^ 26" using j(3) 3(2) by simp
    then have "j < 26" by (metis power_less_imp_less_exp one_less_numeral_iff semiring_norm(76))
    then show ?thesis using j by auto
  qed
qed


lemma RoundDown_power:
  assumes "unat v = 2 ^ k" "12 \<le> k" "k \<le> 26"
  shows "RoundDownToPowerOfTwo v = v"
proof -
  obtain j where j: "12 \<le> j" "j \<le> 26" "unat (RoundDownToPowerOfTwo v) = 2 ^ j"
    "4096 \<le> unat v \<longrightarrow> 2 ^ j \<le> unat v" "unat v < 2 ^ 26 \<longrightarrow> unat v < 2 ^ Suc j"
    using RoundDown_spec by blast
  have "(2::nat) ^ 12 \<le> 2 ^ k" using assms(2) by (intro power_increasing) auto
  then have "(2::nat) ^ j \<le> 2 ^ k" using j(4) assms(1) by simp
  then have "j \<le> k" by simp
  moreover have "k \<le> j"
  proof (cases "k = 26")
    case True
    then have "RoundDownToPowerOfTwo v = kMaxBlockSize"
      using assms(1) by (simp add: RoundDownToPowerOfTwo_def cache_constants word_less_nat_alt word_le_nat_alt)
    then have "(2::nat) ^ j = 2 ^ 26" using j(3) by (simp add: cache_constants)
    then have "j = 26" by (rule power_inject_exp [THEN iffD1, rotated]) simp
    then show ?thesis using True by simp
  next
    case False
    then have "(2::nat) ^ k < 2 ^ 26" using assms(3) by (intro power_strict_increasing) auto
    then have "(2::nat) ^ k < 2 ^ Suc j" using j(5) assms(1) by simp
    then have "k < Suc j" by (rule power_strict_increasing_iff [THEN iffD1, rotated]) simp
    then show ?thesis by simp
  qed
  ultimately show ?thesis using j(3) assms(1) by (simp add: word_unat_eq_iff)
qed

section \<open>Normalization\<close>

lemma max_u64_unat: "unat (max (x :: u64) y) = max (unat x) (unat y)"
  by (simp add: max_def word_le_nat_alt)

lemma Normalized_fields:
  "blockSize (Normalized opts) =
     RoundDownToPowerOfTwo (if blockSize opts = 0 then kDefaultBlockSize else blockSize opts)"
  "budgetBytes (Normalized opts) = max (budgetBytes opts) (blockSize (Normalized opts))"
  "maxRequestBytes (Normalized opts) = max (maxRequestBytes opts) (blockSize (Normalized opts))"
  "bypassThresholdBytes (Normalized opts) = max (bypassThresholdBytes opts) (blockSize (Normalized opts))"
  by (simp_all add: Normalized_def Let_def)

definition gap_ceiling :: "CacheOptions \<Rightarrow> u64" where
  "gap_ceiling opts =
    (let n = maxRequestBytes opts div blockSize opts in if n \<ge> 2 then n - 2 else 0)"

lemma Normalized_gap:
  "coalesceGapBlocks (Normalized opts) =
     (if (ucast (coalesceGapBlocks opts) :: u64) > gap_ceiling (Normalized opts)
      then ucast (min (gap_ceiling (Normalized opts)) 0xFFFFFFFF) else coalesceGapBlocks opts)"
  by (simp add: Normalized_def gap_ceiling_def Let_def)

lemma Normalized_gap_le: "unat (coalesceGapBlocks (Normalized opts)) \<le> unat (gap_ceiling (Normalized opts))"
proof (cases "(ucast (coalesceGapBlocks opts) :: u64) > gap_ceiling (Normalized opts)")
  case True
  then have "unat (gap_ceiling (Normalized opts)) < unat (coalesceGapBlocks opts)"
    by (simp add: word_less_nat_alt)
  then have "unat (gap_ceiling (Normalized opts)) < 2 ^ 32"
    using less_trans [OF _ unat_u32_less [of "coalesceGapBlocks opts"]] by simp
  moreover have "min (gap_ceiling (Normalized opts)) 0xFFFFFFFF = gap_ceiling (Normalized opts)"
    using calculation by (simp add: min_def word_le_nat_alt)
  ultimately show ?thesis using True by (simp add: Normalized_gap unat_ucast_u32)
next
  case False
  then have "unat (coalesceGapBlocks opts) \<le> unat (gap_ceiling (Normalized opts))"
    by (simp add: not_less word_le_nat_alt)
  then show ?thesis using False by (simp add: Normalized_gap)
qed

lemma Normalized_blockSize:
  obtains k where "12 \<le> k" "k \<le> 26" "unat (blockSize (Normalized opts)) = 2 ^ k"
  using RoundDown_spec [of "if blockSize opts = 0 then kDefaultBlockSize else blockSize opts"]
  by (auto simp: Normalized_fields)

lemma Normalized_blockSize_pos: "0 < unat (blockSize (Normalized opts))"
  by (rule Normalized_blockSize [of opts]) simp

lemma Normalized_idem: "Normalized (Normalized opts) = Normalized opts"
proof -
  let ?n = "Normalized opts"
  obtain k where k: "12 \<le> k" "k \<le> 26" "unat (blockSize ?n) = 2 ^ k" by (rule Normalized_blockSize)
  then have "blockSize ?n \<noteq> 0" by (metis unat_0 power_not_zero zero_neq_numeral)
  then have bs: "blockSize (Normalized ?n) = blockSize ?n"
    using RoundDown_power [OF k(3,1,2)] by (simp add: Normalized_fields(1) [of ?n])
  have mx: "maxRequestBytes (Normalized ?n) = maxRequestBytes ?n"
    and bu: "budgetBytes (Normalized ?n) = budgetBytes ?n"
    and byp: "bypassThresholdBytes (Normalized ?n) = bypassThresholdBytes ?n"
    using bs by (simp_all add: Normalized_fields(2-4))
  have "gap_ceiling (Normalized ?n) = gap_ceiling ?n" using bs mx by (simp add: gap_ceiling_def)
  then have "coalesceGapBlocks (Normalized ?n) = coalesceGapBlocks ?n"
    using Normalized_gap_le [of opts] by (simp add: Normalized_gap [of ?n] word_less_nat_alt)
  with bs mx bu byp show ?thesis by (intro CacheOptions.equality) simp_all
qed

lemma Normalized_gap_applies:
  "coalesceGapBlocks (Normalized opts) = 0 \<or>
   (unat (coalesceGapBlocks (Normalized opts)) + 2) * unat (blockSize (Normalized opts)) \<le>
     unat (maxRequestBytes (Normalized opts))"
proof (cases "unat (coalesceGapBlocks (Normalized opts)) = 0")
  case False
  let ?n = "Normalized opts" and ?g = "unat (coalesceGapBlocks (Normalized opts))"
  have "?g \<le> unat (gap_ceiling ?n)" by (rule Normalized_gap_le)
  then have "2 \<le> maxRequestBytes ?n div blockSize ?n" and
    g: "?g \<le> unat (maxRequestBytes ?n div blockSize ?n - 2)"
    using False by (auto simp: gap_ceiling_def Let_def split: if_splits)
  then have "?g + 2 \<le> unat (maxRequestBytes ?n) div unat (blockSize ?n)"
    by (simp add: unat_u64_sub unat_div word_le_nat_alt)
  then have "(?g + 2) * unat (blockSize ?n) \<le> unat (maxRequestBytes ?n)"
    using Normalized_blockSize_pos [of opts] by (simp only: less_eq_div_iff_mult_less_eq)
  then show ?thesis by simp
qed (simp add: word_unat_eq_iff)

text \<open>
  Normalizing any options yields a block size that is a power of two between 4 KiB
  and 64 MiB and, from 4 KiB on, never above the requested one; a request ceiling,
  budget and bypass threshold that each hold one block; a coalescing gap that a
  merged request can really span; and a second normalization changes nothing.
\<close>

theorem Normalized_spec:
  "let n = Normalized opts
   in (\<exists>k. 12 \<le> k \<and> k \<le> 26 \<and> unat (blockSize n) = 2 ^ k) \<and>
      (unat (blockSize opts) < 4096 \<or> unat (blockSize n) \<le> unat (blockSize opts)) \<and>
      unat (blockSize n) \<le> min (unat (maxRequestBytes n))
        (min (unat (budgetBytes n)) (unat (bypassThresholdBytes n))) \<and>
      (coalesceGapBlocks n = 0 \<or>
       (unat (coalesceGapBlocks n) + 2) * unat (blockSize n) \<le> unat (maxRequestBytes n)) \<and>
      Normalized n = n \<and> IsNormalized n"
proof -
  have "unat (blockSize opts) < 4096 \<or> unat (blockSize (Normalized opts)) \<le> unat (blockSize opts)"
    using RoundDown_spec [of "blockSize opts"] by (auto simp: Normalized_fields not_less)
  moreover have "\<exists>k. 12 \<le> k \<and> k \<le> 26 \<and> unat (blockSize (Normalized opts)) = 2 ^ k"
    using Normalized_blockSize by metis
  ultimately show ?thesis
    using Normalized_idem [of opts] Normalized_gap_applies [of opts]
    by (simp add: Let_def IsNormalized_def Normalized_fields(2-4) max_u64_unat)
qed

end
