(* ===== verification/Sha256.thy ===== *)
theory Sha256
  imports Prelude
begin

text \<open>
  \<open>libs/usd-asset-cache/src/Sha256.h\<close>: the digest of the persistent tier. The class is a
  buffer of one block with an incremental \<open>Update\<close>; the reference below is the digest of a
  whole message, padded and cut into blocks as FIPS 180-4 states it.
\<close>

unbundle bit_operations_syntax

record Sha256 =
  sha_state :: "u32 list"
  sha_buffer :: bytes
  sha_pending :: nat
  sha_length :: u64

definition sha_k :: "u32 list" where
  "sha_k = concat [
    [0x428a2f98, 0x71374491, 0xb5c0fbcf, 0xe9b5dba5, 0x3956c25b],
    [0x59f111f1, 0x923f82a4, 0xab1c5ed5, 0xd807aa98, 0x12835b01],
    [0x243185be, 0x550c7dc3, 0x72be5d74, 0x80deb1fe, 0x9bdc06a7],
    [0xc19bf174, 0xe49b69c1, 0xefbe4786, 0x0fc19dc6, 0x240ca1cc],
    [0x2de92c6f, 0x4a7484aa, 0x5cb0a9dc, 0x76f988da, 0x983e5152],
    [0xa831c66d, 0xb00327c8, 0xbf597fc7, 0xc6e00bf3, 0xd5a79147],
    [0x06ca6351, 0x14292967, 0x27b70a85, 0x2e1b2138, 0x4d2c6dfc],
    [0x53380d13, 0x650a7354, 0x766a0abb, 0x81c2c92e, 0x92722c85],
    [0xa2bfe8a1, 0xa81a664b, 0xc24b8b70, 0xc76c51a3, 0xd192e819],
    [0xd6990624, 0xf40e3585, 0x106aa070, 0x19a4c116, 0x1e376c08],
    [0x2748774c, 0x34b0bcb5, 0x391c0cb3, 0x4ed8aa4a, 0x5b9cca4f],
    [0x682e6ff3, 0x748f82ee, 0x78a5636f, 0x84c87814, 0x8cc70208],
    [0x90befffa, 0xa4506ceb, 0xbef9a3f7, 0xc67178f2]]"

definition Rotr :: "u32 \<Rightarrow> nat \<Rightarrow> u32" where
  "Rotr v bits = drop_bit bits v OR push_bit (32 - bits) v"

definition sha_word :: "bytes \<Rightarrow> nat \<Rightarrow> u32" where
  "sha_word block i =
    push_bit 24 (ucast (block ! (4 * i))) OR push_bit 16 (ucast (block ! (4 * i + 1))) OR
    push_bit 8 (ucast (block ! (4 * i + 2))) OR ucast (block ! (4 * i + 3))"

definition sha_extend :: "nat \<Rightarrow> u32 list \<Rightarrow> u32 list" where
  "sha_extend i w =
    (let s0 = Rotr (w ! (i - 15)) 7 XOR Rotr (w ! (i - 15)) 18 XOR drop_bit 3 (w ! (i - 15));
         s1 = Rotr (w ! (i - 2)) 17 XOR Rotr (w ! (i - 2)) 19 XOR drop_bit 10 (w ! (i - 2))
     in w @ [w ! (i - 16) + s0 + w ! (i - 7) + s1])"

definition sha_schedule :: "bytes \<Rightarrow> u32 list" where
  "sha_schedule block = fold sha_extend [16..<64] (map (sha_word block) [0..<16])"

text \<open>One round on the working variables \<open>a\<close> to \<open>h\<close>, with the round constant and the word.\<close>

fun sha_round :: "u32 \<times> u32 \<Rightarrow> u32 list \<Rightarrow> u32 list" where
  "sha_round (ki, wi) [a, b, c, d, e, f, g, h] =
    (let s1 = Rotr e 6 XOR Rotr e 11 XOR Rotr e 25;
         ch = (e AND f) XOR (NOT e AND g);
         t1 = h + s1 + ch + ki + wi;
         s0 = Rotr a 2 XOR Rotr a 13 XOR Rotr a 22;
         maj = (a AND b) XOR (a AND c) XOR (b AND c);
         t2 = s0 + maj
     in [t1 + t2, a, b, c, d + t1, e, f, g])"
| "sha_round _ st = st"

definition Compress :: "bytes \<Rightarrow> u32 list \<Rightarrow> u32 list" where
  "Compress block st = map2 (+) st (fold sha_round (zip sha_k (sha_schedule block)) st)"

definition sha_H0 :: "u32 list" where
  "sha_H0 = [0x6a09e667, 0xbb67ae85, 0x3c6ef372, 0xa54ff53a, 0x510e527f, 0x9b05688c, 0x1f83d9ab, 0x5be0cd19]"

definition Sha256_new :: Sha256 where
  "Sha256_new = \<lparr>sha_state = sha_H0, sha_buffer = replicate 64 0, sha_pending = 0, sha_length = 0\<rparr>"

definition sha_byte :: "u8 \<Rightarrow> Sha256 \<Rightarrow> Sha256" where
  "sha_byte b s =
    (let s1 = s\<lparr>sha_buffer := (sha_buffer s)[sha_pending s := b], sha_pending := sha_pending s + 1\<rparr>
     in if sha_pending s1 = 64
        then s1\<lparr>sha_state := Compress (sha_buffer s1) (sha_state s1), sha_pending := 0\<rparr> else s1)"

definition Sha256_Update :: "bytes \<Rightarrow> Sha256 \<Rightarrow> Sha256" where
  "Sha256_Update data s =
    (let s1 = fold sha_byte data s in s1\<lparr>sha_length := sha_length s1 + of_nat (length data) * 8\<rparr>)"

text \<open>The zero padding; 64 turns are enough since every turn advances the buffer by one.\<close>

primrec sha_zeros :: "nat \<Rightarrow> Sha256 \<Rightarrow> Sha256" where
  "sha_zeros 0 s = s"
| "sha_zeros (Suc fuel) s = (if sha_pending s \<noteq> 56 then sha_zeros fuel (Sha256_Update [0] s) else s)"

definition be64 :: "u64 \<Rightarrow> bytes" where
  "be64 v = map (\<lambda>i. ucast (drop_bit (8 * i) v AND 0xFF)) [7, 6, 5, 4, 3, 2, 1, 0]"

definition be32 :: "u32 \<Rightarrow> bytes" where
  "be32 v = map (\<lambda>i. ucast (drop_bit i v AND 0xFF)) [24, 16, 8, 0]"

definition Sha256_Finish :: "Sha256 \<Rightarrow> bytes" where
  "Sha256_Finish s =
    (let bits = sha_length s;
         s1 = sha_zeros 64 (Sha256_Update [0x80] s);
         buffer = take (sha_pending s1) (sha_buffer s1) @ be64 bits @ drop (sha_pending s1 + 8) (sha_buffer s1);
         final_state = Compress buffer (sha_state s1)
     in concat (map be32 final_state))"

section \<open>The digest of a message\<close>

fun blocks64 :: "bytes \<Rightarrow> bytes list" where
  "blocks64 xs = (if length xs < 64 then [] else take 64 xs # blocks64 (drop 64 xs))"

declare blocks64.simps [simp del]

definition sha_pad :: "bytes \<Rightarrow> bytes" where
  "sha_pad xs = xs @ [0x80] @ replicate ((119 - length xs mod 64) mod 64) 0 @ be64 (of_nat (length xs) * 8)"

definition sha256 :: "bytes \<Rightarrow> bytes" where
  "sha256 xs = concat (map be32 (fold Compress (blocks64 (sha_pad xs)) sha_H0))"

section \<open>Proofs\<close>

definition tail64 :: "bytes \<Rightarrow> bytes" where
  "tail64 xs = drop (64 * (length xs div 64)) xs"

lemma length_tail64: "length (tail64 xs) = length xs mod 64"
  by (simp add: tail64_def minus_mult_div_eq_mod)

lemma blocks64_snoc:
  "blocks64 (xs @ [b]) =
    (if Suc (length xs) mod 64 = 0 then blocks64 xs @ [tail64 xs @ [b]] else blocks64 xs)"
proof (induction xs rule: blocks64.induct)
  case (1 xs)
  show ?case
  proof (cases "length xs < 64")
    case True
    then consider "length xs = 63" | "length xs < 63" by linarith
    then show ?thesis
      by cases (simp_all add: blocks64.simps tail64_def)
  next
    case False
    have m: "Suc (length (drop 64 xs)) mod 64 = Suc (length xs) mod 64"
      using False by (simp add: mod_if Suc_diff_le [symmetric])
    have "length xs div 64 = Suc ((length xs - 64) div 64)"
      using False by (simp add: div_if)
    then have t: "tail64 (drop 64 xs) = tail64 xs" by (simp add: tail64_def add.commute)
    show ?thesis
      using False 1 [OF False] unfolding m t by (simp add: blocks64.simps [of "xs @ [b]"] blocks64.simps [of xs])
  qed
qed

lemma tail64_snoc:
  "tail64 (xs @ [b]) = (if Suc (length xs) mod 64 = 0 then [] else tail64 xs @ [b])"
proof (cases "Suc (length xs) mod 64 = 0")
  case True
  then show ?thesis using length_tail64 [of "xs @ [b]"] by simp
next
  case False
  then have "Suc (length xs) div 64 = length xs div 64" by (metis div_Suc)
  then show ?thesis using False by (simp add: tail64_def)
qed

definition sha_inv :: "bytes \<Rightarrow> Sha256 \<Rightarrow> bool" where
  "sha_inv xs s \<longleftrightarrow> length (sha_buffer s) = 64 \<and> sha_pending s = length xs mod 64 \<and>
     take (sha_pending s) (sha_buffer s) = tail64 xs \<and> sha_state s = fold Compress (blocks64 xs) sha_H0"

lemma sha_inv_new: "sha_inv [] Sha256_new"
  by (simp add: sha_inv_def Sha256_new_def tail64_def blocks64.simps)

lemma sha_inv_byte:
  assumes "sha_inv xs s"
  shows "sha_inv (xs @ [b]) (sha_byte b s)"
proof -
  let ?p = "sha_pending s" and ?buf = "(sha_buffer s)[sha_pending s := b]"
  have inv: "length (sha_buffer s) = 64" "?p = length xs mod 64" "take ?p (sha_buffer s) = tail64 xs"
    "sha_state s = fold Compress (blocks64 xs) sha_H0"
    using assms by (auto simp: sha_inv_def)
  have p: "?p < 64" using inv(2) by simp
  have buf: "take (Suc ?p) ?buf = tail64 xs @ [b]"
    using p inv(1,3) by (simp add: take_Suc_conv_app_nth)
  have m: "Suc (length xs) mod 64 = (if Suc ?p = 64 then 0 else Suc ?p)"
    using inv(2) by (simp add: mod_Suc)
  show ?thesis
  proof (cases "Suc ?p = 64")
    case True
    then have "?buf = tail64 xs @ [b]" using buf inv(1) by simp
    then show ?thesis
      using True m inv by (simp add: sha_inv_def sha_byte_def blocks64_snoc tail64_snoc length_tail64)
  next
    case False
    then show ?thesis
      using m inv buf by (simp add: sha_inv_def sha_byte_def blocks64_snoc tail64_snoc)
  qed
qed

lemma sha_inv_fold: "sha_inv xs s \<Longrightarrow> sha_inv (xs @ ys) (fold sha_byte ys s)"
proof (induction ys arbitrary: xs s)
  case (Cons y ys)
  then show ?case using Cons.IH [OF sha_inv_byte [OF Cons.prems, of y]] by simp
qed simp

lemma sha_byte_length: "sha_length (sha_byte b s) = sha_length s"
  by (simp add: sha_byte_def Let_def)

lemma fold_sha_byte_length: "sha_length (fold sha_byte bs s) = sha_length s"
  by (induction bs arbitrary: s) (simp_all add: sha_byte_length)

lemma Update_facts:
  assumes "sha_inv xs s"
  shows "sha_inv (xs @ ys) (Sha256_Update ys s)"
    "sha_length (Sha256_Update ys s) = sha_length s + of_nat (length ys) * 8"
  using sha_inv_fold [OF assms, of ys]
  by (auto simp: Sha256_Update_def sha_inv_def fold_sha_byte_length Let_def)

lemma Updates_facts:
  "sha_inv xs s \<Longrightarrow> sha_inv (xs @ concat yss) (fold Sha256_Update yss s) \<and>
    sha_length (fold Sha256_Update yss s) = sha_length s + of_nat (length (concat yss)) * 8"
proof (induction yss arbitrary: xs s)
  case (Cons ys yss)
  then show ?case
    using Cons.IH [OF Update_facts(1) [OF Cons.prems, of ys]] Update_facts(2) [OF Cons.prems, of ys]
    by (simp add: algebra_simps)
qed simp

text \<open>The padding loop stops with exactly 56 bytes in the buffer.\<close>

lemma gap56: "m < 64 \<Longrightarrow> (120 - m) mod 64 = (if m \<le> 56 then 56 - m else 120 - (m::nat))"
  by (cases "m \<le> 56") (simp_all add: le_mod_geq)

lemma sha_zeros_facts:
  assumes "sha_inv xs s" "(120 - length xs mod 64) mod 64 < fuel"
  shows "sha_inv (xs @ replicate ((120 - length xs mod 64) mod 64) 0) (sha_zeros fuel s)"
  using assms
proof (induction fuel arbitrary: xs s)
  case (Suc fuel)
  have p: "sha_pending s = length xs mod 64" using Suc.prems(1) by (simp add: sha_inv_def)
  show ?case
  proof (cases "length xs mod 64 = 56")
    case True
    then show ?thesis using Suc.prems(1) p by simp
  next
    case False
    define m where "m = length xs mod 64"
    have m: "m < 64" "m \<noteq> 56" using False by (simp_all add: m_def)
    have "length (xs @ [0 :: u8]) mod 64 = (if Suc m = 64 then 0 else Suc m)" by (simp add: mod_Suc m_def)
    then have step: "(120 - length xs mod 64) mod 64 = Suc ((120 - length (xs @ [0 :: u8]) mod 64) mod 64)"
      using m by (auto simp: gap56 m_def [symmetric])
    have "sha_inv ((xs @ [0]) @ replicate ((120 - length (xs @ [0 :: u8]) mod 64) mod 64) 0)
        (sha_zeros fuel (Sha256_Update [0] s))"
      using Suc.prems(2) step by (intro Suc.IH Update_facts Suc.prems(1)) linarith
    then show ?thesis using False p by (simp add: step)
  qed
qed simp

lemma blocks64_last:
  assumes "length xs mod 64 = 56" "length ys = 8"
  shows "blocks64 (xs @ ys) = blocks64 xs @ [tail64 xs @ ys]"
  using assms
proof (induction xs rule: blocks64.induct)
  case (1 xs)
  show ?case
  proof (cases "length xs < 64")
    case True
    then have "length xs = 56" using 1(2) by simp
    then show ?thesis using 1(3) by (simp add: blocks64.simps tail64_def)
  next
    case False
    have "length xs div 64 = Suc ((length xs - 64) div 64)" using False by (simp add: div_if)
    then have t: "tail64 (drop 64 xs) = tail64 xs" by (simp add: tail64_def add.commute)
    have "length (drop 64 xs) mod 64 = 56" using False 1(2) by (simp add: mod_if)
    then show ?thesis
      using False 1(1) [OF False _ 1(3)] t
      by (simp add: blocks64.simps [of "xs @ ys"] blocks64.simps [of xs])
  qed
qed

lemma Finish_digest:
  "Sha256_Finish (fold Sha256_Update chunks Sha256_new) = sha256 (concat chunks)"
proof -
  let ?xs = "concat chunks" and ?s = "fold Sha256_Update chunks Sha256_new"
  let ?z = "(119 - length ?xs mod 64) mod 64"
  have s: "sha_inv ?xs ?s" "sha_length ?s = of_nat (length ?xs) * 8"
    using Updates_facts [OF sha_inv_new, of chunks] by (simp_all add: Sha256_new_def)
  have l: "length ?xs mod 64 < 64" by simp
  have z: "(120 - length (?xs @ [0x80 :: u8]) mod 64) mod 64 = ?z"
    by (cases "length ?xs mod 64 = 63") (simp_all add: mod_Suc)
  define s1 where "s1 = sha_zeros 64 (Sha256_Update [0x80] ?s)"
  have s1: "sha_inv ((?xs @ [0x80]) @ replicate ?z 0) s1"
    unfolding s1_def z [symmetric] by (rule sha_zeros_facts [OF Update_facts(1) [OF s(1)]]) simp
  let ?m = "?xs @ [0x80] @ replicate ?z 0"
  have m: "length ?m mod 64 = 56"
  proof -
    have "length ?m = length ?xs + (1 + ?z)" by simp
    then have "length ?m mod 64 = (length ?xs mod 64 + (1 + ?z)) mod 64" by (simp only: mod_add_left_eq)
    also have "\<dots> = 56" using l by (cases "length ?xs mod 64 \<le> 55") (simp_all add: le_mod_geq)
    finally show ?thesis .
  qed
  have i: "sha_pending s1 = 56" "length (sha_buffer s1) = 64" "take 56 (sha_buffer s1) = tail64 ?m"
    "sha_state s1 = fold Compress (blocks64 ?m) sha_H0"
    using s1 m by (auto simp: sha_inv_def)
  have "blocks64 (sha_pad ?xs) = blocks64 ?m @ [tail64 ?m @ be64 (of_nat (length ?xs) * 8)]"
    using blocks64_last [OF m, of "be64 (of_nat (length ?xs) * 8)"] by (simp add: sha_pad_def be64_def)
  then show ?thesis
    using i s(2) by (simp add: Sha256_Finish_def s1_def [symmetric] sha256_def Let_def)
qed

text \<open>
  The digest of a message does not depend on how it is cut into calls of \<open>Update\<close>, and
  it is the digest FIPS 180-4 defines: the compression function folded over the 64-byte
  blocks of the message followed by one bit, zeros and the 64-bit message length.
\<close>

theorem Sha256_incremental:
  "Sha256_Finish (fold Sha256_Update chunks Sha256_new) = sha256 (concat chunks)"
  by (rule Finish_digest)

text \<open>
  Fed the three bytes of \<open>abc\<close>, in two calls, the class writes the digest published for
  that message, so the constants, the schedule and the rounds are those of SHA-256.
\<close>

theorem Sha256_abc:
  "Sha256_Finish (Sha256_Update [0x62, 0x63] (Sha256_Update [0x61] Sha256_new)) =
    [0xba, 0x78, 0x16, 0xbf, 0x8f, 0x01, 0xcf, 0xea, 0x41, 0x41, 0x40, 0xde, 0x5d, 0xae, 0x22, 0x23,
     0xb0, 0x03, 0x61, 0xa3, 0x96, 0x17, 0x7a, 0x9c, 0xb4, 0x10, 0xff, 0x61, 0xf2, 0x00, 0x15, 0xad]"
proof -
  have "Sha256_Finish (Sha256_Update [0x62, 0x63] (Sha256_Update [0x61] Sha256_new)) = sha256 [0x61, 0x62, 0x63]"
    using Finish_digest [of "[[0x61], [0x62, 0x63]]"] by simp
  also have "\<dots> =
    [0xba, 0x78, 0x16, 0xbf, 0x8f, 0x01, 0xcf, 0xea, 0x41, 0x41, 0x40, 0xde, 0x5d, 0xae, 0x22, 0x23,
     0xb0, 0x03, 0x61, 0xa3, 0x96, 0x17, 0x7a, 0x9c, 0xb4, 0x10, 0xff, 0x61, 0xf2, 0x00, 0x15, 0xad]"
    by code_simp
  finally show ?thesis .
qed

end
