(* ===== verification/CacheKey.thy ===== *)
theory CacheKey
  imports Validator
begin

text \<open>
  \<open>libs/usd-asset-cache\<close>: cache identity (\<open>CacheKey.h\<close>, \<open>CacheKey.cpp\<close>). \<open>operator==\<close> on both
  structs compares every field, which is equality of the records. \<open>std::hash\<close> is the
  standard library's; the two instances the source uses are parameters of the hash
  functions, which only choose a bucket.
\<close>

unbundle bit_operations_syntax

record AssetIdentity =
  id_resolvedIdentifier :: string
  id_validator :: string
  id_blockSize :: u64

record CacheKey =
  key_identity :: AssetIdentity
  key_blockIndex :: u64

definition AssetIdentity_eq :: "AssetIdentity \<Rightarrow> AssetIdentity \<Rightarrow> bool" where
  "AssetIdentity_eq lhs rhs \<longleftrightarrow>
     id_blockSize lhs = id_blockSize rhs \<and>
     id_resolvedIdentifier lhs = id_resolvedIdentifier rhs \<and>
     id_validator lhs = id_validator rhs"

definition CacheKey_eq :: "CacheKey \<Rightarrow> CacheKey \<Rightarrow> bool" where
  "CacheKey_eq lhs rhs \<longleftrightarrow>
     key_blockIndex lhs = key_blockIndex rhs \<and> AssetIdentity_eq (key_identity lhs) (key_identity rhs)"

definition HashCombine :: "u64 \<Rightarrow> u64 \<Rightarrow> u64" where
  "HashCombine seed v = seed XOR (v + 0x9E3779B97F4A7C15 + push_bit 6 seed + drop_bit 2 seed)"

definition HashAssetIdentity :: "(string \<Rightarrow> u64) \<Rightarrow> (u64 \<Rightarrow> u64) \<Rightarrow> AssetIdentity \<Rightarrow> u64" where
  "HashAssetIdentity hash_string hash_u64 identity =
    (let seed = hash_string (id_resolvedIdentifier identity);
         seed = HashCombine seed (hash_string (id_validator identity))
     in HashCombine seed (hash_u64 (id_blockSize identity)))"

definition HashCacheKey :: "(string \<Rightarrow> u64) \<Rightarrow> (u64 \<Rightarrow> u64) \<Rightarrow> CacheKey \<Rightarrow> u64" where
  "HashCacheKey hash_string hash_u64 key =
     HashCombine (HashAssetIdentity hash_string hash_u64 (key_identity key)) (hash_u64 (key_blockIndex key))"

definition IsShareable :: "Validator \<Rightarrow> bool" where
  "IsShareable v \<longleftrightarrow> IsUsable v \<and> v_strength v = Strong"

lemma AssetIdentity_eq_iff [simp]: "AssetIdentity_eq a b \<longleftrightarrow> a = b"
  by (cases a; cases b) (auto simp: AssetIdentity_eq_def)

lemma CacheKey_eq_iff [simp]: "CacheKey_eq a b \<longleftrightarrow> a = b"
  by (cases a; cases b) (auto simp: CacheKey_eq_def)

lemma IsShareable_stable: "IsShareable v \<longleftrightarrow> ClassifyStability v = Stable"
  by (simp add: IsShareable_def ClassifyStability_Stable)

end
