(* ===== verification/DiskFormat.thy ===== *)
theory DiskFormat
  imports Sha256 CacheKey CacheOptions
begin

text \<open>
  \<open>libs/usd-asset-cache/src/DiskBlockStore.cpp\<close>, the entry format: key images, digests,
  file names, the encoding of an entry and its decoding with every check the source
  makes, in its order.
\<close>

definition kHeaderBytes :: nat where "kHeaderBytes = 88"
definition kDigestBytes :: nat where "kDigestBytes = 32"
definition kFormatVersion :: u32 where "kFormatVersion = 1"
definition kMaxEntryPayload :: u64 where "kMaxEntryPayload = kMaxBlockSize"
definition kFnvOffsetBasis :: u64 where "kFnvOffsetBasis = 0xCBF29CE484222325"

definition kMagic :: bytes where
  "kMagic = [0x55, 0x53, 0x44, 0x42, 0x4C, 0x4B, 0x00, 0x31]"

definition fnv_step :: "u8 \<Rightarrow> u64 \<Rightarrow> u64" where
  "fnv_step b hash = (hash XOR ucast b) * 0x00000100000001B3"

definition Fnv1a :: "bytes \<Rightarrow> u64 \<Rightarrow> u64" where
  "Fnv1a data seed = fold fnv_step data seed"

definition AppendLittleEndian64 :: "bytes \<Rightarrow> u64 \<Rightarrow> bytes" where
  "AppendLittleEndian64 out v = out @ map (\<lambda>i. ucast (drop_bit (8 * i) v AND 0xFF)) [0..<8]"

definition AppendLittleEndian32 :: "bytes \<Rightarrow> u32 \<Rightarrow> bytes" where
  "AppendLittleEndian32 out v = out @ map (\<lambda>i. ucast (drop_bit (8 * i) v AND 0xFF)) [0..<4]"

definition ReadLittleEndian64 :: "bytes \<Rightarrow> u64" where
  "ReadLittleEndian64 bs = fold (\<lambda>i v. v OR push_bit (8 * i) (ucast (bs ! i))) [0..<8] 0"

definition ReadLittleEndian32 :: "bytes \<Rightarrow> u32" where
  "ReadLittleEndian32 bs = fold (\<lambda>i v. v OR push_bit (8 * i) (ucast (bs ! i))) [0..<4] 0"

definition string_bytes :: "string \<Rightarrow> bytes" where
  "string_bytes s = map of_char s"

definition KeyImage :: "AssetIdentity \<Rightarrow> u64 \<Rightarrow> bytes" where
  "KeyImage identity blockIndex =
    (let image = AppendLittleEndian64 [] (of_nat (length (id_resolvedIdentifier identity)));
         image = image @ string_bytes (id_resolvedIdentifier identity);
         image = AppendLittleEndian64 image (of_nat (length (id_validator identity)));
         image = image @ string_bytes (id_validator identity);
         image = AppendLittleEndian64 image (id_blockSize identity)
     in AppendLittleEndian64 image blockIndex)"

definition DigestOf :: "AssetIdentity \<Rightarrow> u64 \<Rightarrow> bytes" where
  "DigestOf identity blockIndex = Sha256_Finish (Sha256_Update (KeyImage identity blockIndex) Sha256_new)"

definition kHex :: string where
  "kHex = ''0123456789abcdef''"

definition NameFor :: "bytes \<Rightarrow> string" where
  "NameFor digest =
    concat (map (\<lambda>i. [kHex ! unat (drop_bit 4 (digest ! i) AND 0xF), kHex ! unat (digest ! i AND 0xF)]) [0..<16])"

definition HexOf :: "u64 \<Rightarrow> string" where
  "HexOf v = map (\<lambda>i. kHex ! unat (drop_bit (60 - 4 * i) v AND 0xF)) [0..<16]"

definition EncodeEntry :: "AssetIdentity \<Rightarrow> bytes \<Rightarrow> u64 \<Rightarrow> bytes \<Rightarrow> bytes" where
  "EncodeEntry identity digest blockIndex payload =
    (let entry = kMagic;
         entry = AppendLittleEndian32 entry kFormatVersion;
         entry = AppendLittleEndian32 entry 0;
         entry = AppendLittleEndian64 entry (id_blockSize identity);
         entry = AppendLittleEndian64 entry blockIndex;
         entry = AppendLittleEndian64 entry (of_nat (length payload));
         entry = entry @ digest;
         entry = AppendLittleEndian64 entry (Fnv1a payload kFnvOffsetBasis);
         entry = AppendLittleEndian64 entry (Fnv1a entry kFnvOffsetBasis)
     in entry @ payload)"

datatype DecodeOutcome = DecodeOk | Corrupt | OtherKey | WrongShape

text \<open>The outcome and the vector behind the out-parameter, which only success replaces.\<close>

definition DecodeEntry :: "bytes \<Rightarrow> AssetIdentity \<Rightarrow> bytes \<Rightarrow> u64 \<Rightarrow> u64 \<Rightarrow> bytes \<Rightarrow> DecodeOutcome \<times> bytes" where
  "DecodeEntry raw identity digest blockIndex expectedLength out =
    (if length raw < kHeaderBytes then (Corrupt, out)
     else if take 8 raw \<noteq> kMagic then (Corrupt, out)
     else if Fnv1a (take (kHeaderBytes - 8) raw) kFnvOffsetBasis \<noteq> ReadLittleEndian64 (drop 80 raw)
     then (Corrupt, out)
     else if ReadLittleEndian32 (drop 8 raw) \<noteq> kFormatVersion then (Corrupt, out)
     else let payloadLength = ReadLittleEndian64 (drop 32 raw) in
       if payloadLength > kMaxEntryPayload then (Corrupt, out)
       else if length raw \<noteq> kHeaderBytes + unat payloadLength then (Corrupt, out)
       else let payload = drop kHeaderBytes raw in
         if Fnv1a (take (unat payloadLength) payload) kFnvOffsetBasis \<noteq> ReadLittleEndian64 (drop 72 raw)
         then (Corrupt, out)
         else if segment raw 40 kDigestBytes \<noteq> digest then (OtherKey, out)
         else if ReadLittleEndian64 (drop 16 raw) \<noteq> id_blockSize identity \<or>
                 ReadLittleEndian64 (drop 24 raw) \<noteq> blockIndex then (WrongShape, out)
         else if payloadLength \<noteq> expectedLength then (WrongShape, out)
         else (DecodeOk, take (unat payloadLength) payload))"

lemmas disk_constants = kHeaderBytes_def kDigestBytes_def kFormatVersion_def kMaxEntryPayload_def
  kMaxBlockSize_def

section \<open>Little-endian fields\<close>

definition le64 :: "u64 \<Rightarrow> bytes" where
  "le64 v = map (\<lambda>i. ucast (drop_bit (8 * i) v AND 0xFF)) [0..<8]"

definition le32 :: "u32 \<Rightarrow> bytes" where
  "le32 v = map (\<lambda>i. ucast (drop_bit (8 * i) v AND 0xFF)) [0..<4]"

lemma Append_le: "AppendLittleEndian64 out v = out @ le64 v" "AppendLittleEndian32 out w = out @ le32 w"
  by (simp_all add: AppendLittleEndian64_def AppendLittleEndian32_def le64_def le32_def)

lemma length_le [simp]: "length (le64 v) = 8" "length (le32 w) = 4"
  by (simp_all add: le64_def le32_def)

lemma and_byte: "x AND 0xFF = take_bit 8 (x :: 'a :: len word)"
proof -
  have "(0xFF :: 'a word) = mask 8" by (simp add: mask_eq_exp_minus_1)
  then show ?thesis by (simp only: take_bit_eq_mask)
qed

lemma bit_le:
  "bit (ucast (drop_bit (8 * i) v AND 0xFF) :: u8) n \<longleftrightarrow> n < 8 \<and> bit (v :: 'a :: len word) (8 * i + n)"
  using bit_imp_le_length [of v "8 * i + n"]
  unfolding and_byte by (auto simp: bit_ucast_iff bit_take_bit_iff bit_drop_bit_eq)

lemma bit_u8_less: "bit (b :: u8) n \<Longrightarrow> n < 8"
  using bit_imp_le_length [of b n] by simp

lemma bit_read_le:
  "bit (fold (\<lambda>i v. v OR push_bit (8 * i) (ucast ((bs :: bytes) ! i))) [0..<k] (0 :: 'a :: len word)) n \<longleftrightarrow>
    n < LENGTH('a) \<and> n < 8 * k \<and> bit (bs ! (n div 8)) (n mod 8)"
proof (induction k)
  case (Suc k)
  have new: "bit (push_bit (8 * k) (ucast (bs ! k)) :: 'a word) n \<longleftrightarrow>
      n < LENGTH('a) \<and> 8 * k \<le> n \<and> n < 8 * Suc k \<and> bit (bs ! (n div 8)) (n mod 8)"
  proof (cases "8 * k \<le> n \<and> n < 8 * Suc k")
    case True
    then have "n div 8 = k" by (intro div_nat_eqI) auto
    moreover then have "n mod 8 = n - 8 * k" by (simp add: modulo_nat_def)
    ultimately show ?thesis using True by (auto simp: bit_push_bit_iff bit_ucast_iff)
  next
    case False
    then show ?thesis using bit_u8_less [of "bs ! k" "n - 8 * k"] by (auto simp: bit_push_bit_iff bit_ucast_iff)
  qed
  show ?case using Suc by (auto simp: bit_or_iff new)
qed simp

lemma read64_bit: "bit (ReadLittleEndian64 bs) n \<longleftrightarrow> n < 64 \<and> bit (bs ! (n div 8)) (n mod 8)"
  unfolding ReadLittleEndian64_def by (subst bit_read_le) auto

lemma read32_bit: "bit (ReadLittleEndian32 bs) n \<longleftrightarrow> n < 32 \<and> bit (bs ! (n div 8)) (n mod 8)"
  unfolding ReadLittleEndian32_def by (subst bit_read_le) auto

lemma nth_le64: "i < 8 \<Longrightarrow> le64 v ! i = ucast (drop_bit (8 * i) v AND 0xFF)"
  by (simp add: le64_def del: upt_conv_Cons_Cons)

lemma nth_le32: "i < 4 \<Longrightarrow> le32 v ! i = ucast (drop_bit (8 * i) v AND 0xFF)"
  by (simp add: le32_def)

lemma read64_le64 [simp]: "ReadLittleEndian64 (le64 v @ rest) = v"
proof (rule bit_word_eqI)
  fix n assume n: "n < LENGTH(64)"
  then have "n div 8 < 8" by (simp add: less_mult_imp_div_less)
  then show "bit (ReadLittleEndian64 (le64 v @ rest)) n = bit v n"
    using n by (simp add: read64_bit nth_append nth_le64 bit_le)
qed

lemma read32_le32 [simp]: "ReadLittleEndian32 (le32 v @ rest) = v"
proof (rule bit_word_eqI)
  fix n assume n: "n < LENGTH(32)"
  then have "n div 8 < 4" by (simp add: less_mult_imp_div_less)
  then show "bit (ReadLittleEndian32 (le32 v @ rest)) n = bit v n"
    using n by (simp add: read32_bit nth_append nth_le32 bit_le)
qed

lemma le64_read64:
  assumes "8 \<le> length bs"
  shows "le64 (ReadLittleEndian64 bs) = take 8 bs"
proof (rule nth_equalityI)
  show "length (le64 (ReadLittleEndian64 bs)) = length (take 8 bs)" using assms by simp
  fix i assume "i < length (le64 (ReadLittleEndian64 bs))"
  then have i: "i < 8" by simp
  show "le64 (ReadLittleEndian64 bs) ! i = take 8 bs ! i"
  proof (rule bit_word_eqI)
    fix n assume "n < LENGTH(8)"
    then have "n < 8" by simp
    then show "bit (le64 (ReadLittleEndian64 bs) ! i) n = bit (take 8 bs ! i) n"
      using i by (simp add: nth_le64 bit_le read64_bit)
  qed
qed

lemma read64_inj:
  assumes "8 \<le> length xs" "8 \<le> length ys" "ReadLittleEndian64 xs = ReadLittleEndian64 ys"
  shows "take 8 xs = take 8 ys"
  using assms le64_read64 by metis

lemma le64_inject: "le64 v = le64 w \<longleftrightarrow> v = w"
  using read64_le64 [of v "[]"] read64_le64 [of w "[]"] by metis

section \<open>Key images\<close>

lemma string_bytes_inject: "string_bytes s = string_bytes t \<longleftrightarrow> s = t"
proof -
  have "inj (of_char :: char \<Rightarrow> u8)"
  proof (rule injI)
    fix c d :: char
    assume eq: "(of_char c :: u8) = of_char d"
    have "unat (of_char x :: u8) = ord x" for x
    proof -
      have "unat (of_nat (of_char x) :: u8) = of_char x" using ord_less [of x] by (simp add: ord_def unat_of_nat)
      then show ?thesis by (simp only: of_nat_of_char ord_def)
    qed
    then show "c = d" using eq ord_inject by metis
  qed
  then show ?thesis unfolding string_bytes_def by (simp add: inj_map_eq_map)
qed

text \<open>
  Two keys have the same image only if they are the same key: the lengths written in
  front of the two strings keep a byte from moving between identifier and validator.
\<close>

theorem KeyImage_inject:
  assumes "length (id_resolvedIdentifier a) < 2 ^ 64" "length (id_resolvedIdentifier b) < 2 ^ 64"
    and "length (id_validator a) < 2 ^ 64" "length (id_validator b) < 2 ^ 64"
  shows "KeyImage a i = KeyImage b j \<longleftrightarrow> AssetIdentity_eq a b \<and> i = j"
proof
  assume eq: "KeyImage a i = KeyImage b j"
  have img: "KeyImage x n = le64 (of_nat (length (id_resolvedIdentifier x))) @ string_bytes (id_resolvedIdentifier x) @
      le64 (of_nat (length (id_validator x))) @ string_bytes (id_validator x) @ le64 (id_blockSize x) @ le64 n" for x n
    by (simp add: KeyImage_def Append_le Let_def)
  have "le64 (of_nat (length (id_resolvedIdentifier a))) = le64 (of_nat (length (id_resolvedIdentifier b)))"
    using eq unfolding img by (simp add: append_eq_append_conv)
  then have l1: "length (id_resolvedIdentifier a) = length (id_resolvedIdentifier b)"
    using assms(1,2) by (metis le64_inject unat_of_nat_u64)
  then have e1: "string_bytes (id_resolvedIdentifier a) = string_bytes (id_resolvedIdentifier b)"
    using eq unfolding img by (simp add: append_eq_append_conv string_bytes_def)
  then have "le64 (of_nat (length (id_validator a))) = le64 (of_nat (length (id_validator b)))"
    using eq l1 unfolding img by (simp add: append_eq_append_conv)
  then have l2: "length (id_validator a) = length (id_validator b)"
    using assms(3,4) by (metis le64_inject unat_of_nat_u64)
  then have l3: "length (string_bytes (id_validator a)) = length (string_bytes (id_validator b))"
    by (simp add: string_bytes_def)
  then have "string_bytes (id_validator a) = string_bytes (id_validator b)"
    "le64 (id_blockSize a) = le64 (id_blockSize b)" "le64 i = le64 j"
    using eq e1 l1 l2 unfolding img by (simp_all add: append_eq_append_conv)
  then show "AssetIdentity_eq a b \<and> i = j"
    using e1 unfolding AssetIdentity_eq_def le64_inject string_bytes_inject by blast
next
  assume "AssetIdentity_eq a b \<and> i = j"
  then show "KeyImage a i = KeyImage b j" by (simp add: KeyImage_def AssetIdentity_eq_def)
qed

theorem KeyImage_inject_witness:
  "KeyImage \<lparr>id_resolvedIdentifier = ''ab'', id_validator = ''c'', id_blockSize = 4096\<rparr> 0 \<noteq>
   KeyImage \<lparr>id_resolvedIdentifier = ''a'', id_validator = ''bc'', id_blockSize = 4096\<rparr> 0"
  using KeyImage_inject [of "\<lparr>id_resolvedIdentifier = ''ab'', id_validator = ''c'', id_blockSize = 4096\<rparr>"
      "\<lparr>id_resolvedIdentifier = ''a'', id_validator = ''bc'', id_blockSize = 4096\<rparr>" 0 0]
  by simp

section \<open>The checksum\<close>

lemma fnv_step_inj: "fnv_step b h = fnv_step b h' \<longleftrightarrow> h = h'" "fnv_step b h = fnv_step b' h \<longleftrightarrow> b = b'"
proof -
  have unit: "x * 0x00000100000001B3 = y * 0x00000100000001B3 \<Longrightarrow> x = y" for x y :: u64
  proof -
    assume "x * 0x00000100000001B3 = y * 0x00000100000001B3"
    then have "x * 0x00000100000001B3 * 0xCE965057AFF6957B = y * 0x00000100000001B3 * 0xCE965057AFF6957B"
      by (rule arg_cong)
    moreover have "(0x00000100000001B3 :: u64) * 0xCE965057AFF6957B = 1" by simp
    ultimately show "x = y" by (simp only: mult.assoc mult_1_right)
  qed
  have cancel: "x XOR z = y XOR z \<longleftrightarrow> x = y" "z XOR x = z XOR y \<longleftrightarrow> x = y" for x y z :: u64
    by (auto simp: bit_eq_iff bit_xor_iff)
  show "fnv_step b h = fnv_step b h' \<longleftrightarrow> h = h'"
    using unit cancel(1) unfolding fnv_step_def by blast
  have "unat (ucast b :: u64) = unat b" for b :: u8
  proof -
    have "unat b < 2 ^ LENGTH(8)" by (rule unsigned_less)
    then have "unat b < 2 ^ 64" by simp
    then show ?thesis by (simp add: unsigned_ucast_eq take_bit_nat_eq_self)
  qed
  then have "(ucast b :: u64) = ucast b' \<longleftrightarrow> b = b'" by (metis word_unat_eq_iff)
  then show "fnv_step b h = fnv_step b' h \<longleftrightarrow> b = b'"
    using unit cancel(2) unfolding fnv_step_def by metis
qed

lemma fold_fnv_inj: "fold fnv_step xs h = fold fnv_step xs h' \<longleftrightarrow> h = h'"
  by (induction xs arbitrary: h h') (simp_all add: fnv_step_inj)

text \<open>One changed byte always changes the checksum.\<close>

lemma Fnv1a_update:
  assumes "p < length xs" "b \<noteq> xs ! p"
  shows "Fnv1a (xs[p := b]) seed \<noteq> Fnv1a xs seed"
proof -
  have "Fnv1a (xs[p := b]) seed = fold fnv_step (drop (Suc p) xs) (fnv_step b (fold fnv_step (take p xs) seed))"
    using assms(1) by (simp add: Fnv1a_def upd_conv_take_nth_drop)
  moreover have "Fnv1a (take p xs @ xs ! p # drop (Suc p) xs) seed =
      fold fnv_step (drop (Suc p) xs) (fnv_step (xs ! p) (fold fnv_step (take p xs) seed))"
    by (simp add: Fnv1a_def)
  ultimately show ?thesis
    using assms(2) by (simp add: id_take_nth_drop [OF assms(1), symmetric] fold_fnv_inj fnv_step_inj)
qed

section \<open>Entries\<close>

definition entry_sound :: "bytes \<Rightarrow> bool" where
  "entry_sound raw \<longleftrightarrow> \<not> length raw < kHeaderBytes \<and> take 8 raw = kMagic \<and>
     Fnv1a (take (kHeaderBytes - 8) raw) kFnvOffsetBasis = ReadLittleEndian64 (drop 80 raw) \<and>
     ReadLittleEndian32 (drop 8 raw) = kFormatVersion \<and>
     \<not> ReadLittleEndian64 (drop 32 raw) > kMaxEntryPayload \<and>
     length raw = kHeaderBytes + unat (ReadLittleEndian64 (drop 32 raw)) \<and>
     Fnv1a (take (unat (ReadLittleEndian64 (drop 32 raw))) (drop kHeaderBytes raw)) kFnvOffsetBasis =
       ReadLittleEndian64 (drop 72 raw)"

lemma DecodeEntry_sound:
  "DecodeEntry raw identity digest i n out =
    (if \<not> entry_sound raw then (Corrupt, out)
     else if segment raw 40 kDigestBytes \<noteq> digest then (OtherKey, out)
     else if ReadLittleEndian64 (drop 16 raw) \<noteq> id_blockSize identity \<or>
             ReadLittleEndian64 (drop 24 raw) \<noteq> i \<or> ReadLittleEndian64 (drop 32 raw) \<noteq> n then (WrongShape, out)
     else (DecodeOk, drop kHeaderBytes raw))"
proof -
  have all: "take (unat (ReadLittleEndian64 (drop 32 raw))) (drop kHeaderBytes raw) = drop kHeaderBytes raw"
    if "length raw = kHeaderBytes + unat (ReadLittleEndian64 (drop 32 raw))"
    using that by (intro take_all) simp
  show ?thesis
  proof (cases "entry_sound raw")
    case True
    note c = True [unfolded entry_sound_def]
    have "DecodeEntry raw identity digest i n out =
        (if segment raw 40 kDigestBytes \<noteq> digest then (OtherKey, out)
         else if ReadLittleEndian64 (drop 16 raw) \<noteq> id_blockSize identity \<or>
                 ReadLittleEndian64 (drop 24 raw) \<noteq> i then (WrongShape, out)
         else if ReadLittleEndian64 (drop 32 raw) \<noteq> n then (WrongShape, out)
         else (DecodeOk, take (unat (ReadLittleEndian64 (drop 32 raw))) (drop kHeaderBytes raw)))"
      unfolding DecodeEntry_def Let_def using c by (simp only: simp_thms if_False not_False_eq_True not_add_less1)
    then show ?thesis using True all c by (simp only: simp_thms if_True if_False) presburger
  next
    case False
    then show ?thesis unfolding DecodeEntry_def Let_def entry_sound_def by presburger
  qed
qed

definition entry_head :: "AssetIdentity \<Rightarrow> bytes \<Rightarrow> u64 \<Rightarrow> bytes \<Rightarrow> bytes" where
  "entry_head identity digest i payload =
    kMagic @ le32 kFormatVersion @ le32 0 @ le64 (id_blockSize identity) @ le64 i @
    le64 (of_nat (length payload)) @ digest @ le64 (Fnv1a payload kFnvOffsetBasis)"

lemma EncodeEntry_split:
  "EncodeEntry identity digest i payload =
    entry_head identity digest i payload @ le64 (Fnv1a (entry_head identity digest i payload) kFnvOffsetBasis) @ payload"
  by (simp add: EncodeEntry_def entry_head_def Append_le Let_def)

lemma length_kMagic [simp]: "length kMagic = 8"
  by (simp add: kMagic_def)

lemma EncodeEntry_fields:
  fixes identity i
  assumes "length digest = kDigestBytes" "length payload \<le> unat kMaxEntryPayload"
  defines "e \<equiv> EncodeEntry identity digest i payload"
  shows "length e = 88 + length payload" "take 8 e = kMagic" "ReadLittleEndian32 (drop 8 e) = kFormatVersion"
    "ReadLittleEndian64 (drop 16 e) = id_blockSize identity" "ReadLittleEndian64 (drop 24 e) = i"
    "ReadLittleEndian64 (drop 32 e) = of_nat (length payload)" "segment e 40 32 = digest"
    "ReadLittleEndian64 (drop 72 e) = Fnv1a payload kFnvOffsetBasis"
    "ReadLittleEndian64 (drop 80 e) = Fnv1a (take 80 e) kFnvOffsetBasis" "drop 88 e = payload"
  unfolding e_def EncodeEntry_split entry_head_def segment_def using assms(1)
  by (simp_all add: kDigestBytes_def)

lemma EncodeEntry_sound:
  assumes "length digest = kDigestBytes" "length payload \<le> unat kMaxEntryPayload"
  shows "entry_sound (EncodeEntry identity digest i payload)"
proof -
  have "unat kMaxEntryPayload = 67108864" by (simp add: disk_constants)
  then have "unat (of_nat (length payload) :: u64) = length payload" using assms(2) by simp
  then show ?thesis
    using EncodeEntry_fields [OF assms, of identity i] assms(2)
    by (simp add: entry_sound_def kHeaderBytes_def word_less_nat_alt)
qed

text \<open>
  Decoding an encoded entry answers exactly for the key it was written under: the
  payload comes back when digest, block size, block index and length agree; another
  digest is another key's entry; anything else is an entry of the wrong shape.
\<close>

theorem DecodeEntry_EncodeEntry:
  assumes "length digest = kDigestBytes" "length payload \<le> unat kMaxEntryPayload"
  shows "DecodeEntry (EncodeEntry identity digest i payload) identity' digest' i' n out =
    (if digest \<noteq> digest' then (OtherKey, out)
     else if id_blockSize identity \<noteq> id_blockSize identity' \<or> i \<noteq> i' \<or> of_nat (length payload) \<noteq> n
     then (WrongShape, out) else (DecodeOk, payload))"
  unfolding DecodeEntry_sound kDigestBytes_def kHeaderBytes_def EncodeEntry_fields [OF assms, of identity i]
  using EncodeEntry_sound [OF assms, of identity i] by simp

definition sample_identity :: AssetIdentity where
  "sample_identity = \<lparr>id_resolvedIdentifier = ''https://h/a'', id_validator = ''e1'', id_blockSize = 4096\<rparr>"

lemma kMaxEntryPayload_unat: "unat kMaxEntryPayload = 67108864"
  by (simp add: disk_constants)

theorem DecodeEntry_EncodeEntry_witness:
  "DecodeEntry (EncodeEntry sample_identity (replicate 32 7) 3 [1, 2, 3]) sample_identity (replicate 32 7) 3 3 [] =
    (DecodeOk, [1, 2, 3])"
  using DecodeEntry_EncodeEntry [of "replicate 32 7" "[1, 2, 3]"]
  by (simp add: kDigestBytes_def kMaxEntryPayload_unat)

lemma drop_update: "drop n (xs[p := b]) = (if p < n then drop n xs else (drop n xs)[p - n := b])"
  by (simp add: drop_update_swap)

lemma read64_update:
  assumes "p < 8" "8 \<le> length xs" "b \<noteq> xs ! p"
  shows "ReadLittleEndian64 (xs[p := b]) \<noteq> ReadLittleEndian64 xs"
proof
  assume "ReadLittleEndian64 (xs[p := b]) = ReadLittleEndian64 xs"
  then have "take 8 (xs[p := b]) = take 8 xs" using assms(2) by (intro read64_inj) simp_all
  then have "take 8 (xs[p := b]) ! p = take 8 xs ! p" by simp
  then show False using assms by simp
qed

lemma read64_update_other:
  assumes "8 \<le> p"
  shows "ReadLittleEndian64 (xs[p := b]) = ReadLittleEndian64 xs"
proof (rule bit_word_eqI)
  fix n assume n: "n < LENGTH(64)"
  then have "n div 8 < 8" by (simp add: less_mult_imp_div_less)
  then have "p \<noteq> n div 8" using assms by simp
  then show "bit (ReadLittleEndian64 (xs[p := b])) n = bit (ReadLittleEndian64 xs) n" by (simp add: read64_bit)
qed

lemma entry_soundD:
  assumes "entry_sound raw"
  shows "88 \<le> length raw" "length raw = 88 + unat (ReadLittleEndian64 (drop 32 raw))"
    "Fnv1a (take 80 raw) kFnvOffsetBasis = ReadLittleEndian64 (drop 80 raw)"
    "Fnv1a (drop 88 raw) kFnvOffsetBasis = ReadLittleEndian64 (drop 72 raw)"
proof -
  have 80: "(88 :: nat) - 8 = 80" by simp
  note c = assms [unfolded entry_sound_def kHeaderBytes_def 80 not_less]
  show "88 \<le> length raw" "Fnv1a (take 80 raw) kFnvOffsetBasis = ReadLittleEndian64 (drop 80 raw)"
    using c by blast+
  show l: "length raw = 88 + unat (ReadLittleEndian64 (drop 32 raw))" using c by blast
  then have "take (unat (ReadLittleEndian64 (drop 32 raw))) (drop 88 raw) = drop 88 raw"
    by (intro take_all) (simp only: length_drop)
  then show "Fnv1a (drop 88 raw) kFnvOffsetBasis = ReadLittleEndian64 (drop 72 raw)" using c by metis
qed

lemma entry_sound_update:
  assumes "entry_sound raw" "p < length raw" "b \<noteq> raw ! p"
  shows "\<not> entry_sound (raw[p := b])"
proof
  assume s: "entry_sound (raw[p := b])"
  note len = entry_soundD(1) [OF assms(1)]
  note head = entry_soundD(3) [OF assms(1)] entry_soundD(3) [OF s]
  consider "p < 80" | "80 \<le> p" "p < 88" | "88 \<le> p" by linarith
  then show False
  proof cases
    case 1
    then have "Fnv1a ((take 80 raw)[p := b]) kFnvOffsetBasis = Fnv1a (take 80 raw) kFnvOffsetBasis"
      using head by (simp add: drop_update take_update_swap)
    then show False using Fnv1a_update [of p "take 80 raw" b] 1 len assms(3) by simp
  next
    case 2
    then have "ReadLittleEndian64 ((drop 80 raw)[p - 80 := b]) = ReadLittleEndian64 (drop 80 raw)"
      using head by (simp add: drop_update)
    then show False using read64_update [of "p - 80" "drop 80 raw" b] 2 len assms(3) by simp
  next
    case 3
    note pay = entry_soundD(4) [OF assms(1)] entry_soundD(4) [OF s]
    have "Fnv1a ((drop 88 raw)[p - 88 := b]) kFnvOffsetBasis = Fnv1a (drop 88 raw) kFnvOffsetBasis"
      using 3 pay by (simp add: drop_update read64_update_other)
    then show False using Fnv1a_update [of "p - 88" "drop 88 raw" b] 3 assms(2,3) by simp
  qed
qed

lemma entry_sound_resize:
  assumes "entry_sound raw" "length raw' \<noteq> length raw" "take 88 raw' = take 88 raw"
  shows "\<not> entry_sound raw'"
proof
  assume s: "entry_sound raw'"
  note len = entry_soundD(1) [OF assms(1)] entry_soundD(1) [OF s]
  have nth: "raw' ! k = raw ! k" if "k < 88" for k
    using arg_cong [OF assms(3), of "\<lambda>xs. xs ! k"] that len by simp
  have "ReadLittleEndian64 (drop 32 raw') = ReadLittleEndian64 (drop 32 raw)"
  proof (rule bit_word_eqI)
    fix n assume n: "n < LENGTH(64)"
    then have "n div 8 < 8" by (simp add: less_mult_imp_div_less)
    then have "drop 32 raw' ! (n div 8) = drop 32 raw ! (n div 8)" using nth [of "32 + n div 8"] len by simp
    then show "bit (ReadLittleEndian64 (drop 32 raw')) n = bit (ReadLittleEndian64 (drop 32 raw)) n"
      by (simp add: read64_bit)
  qed
  then show False using entry_soundD(2) [OF assms(1)] entry_soundD(2) [OF s] assms(2) by metis
qed

text \<open>
  C36: no entry that lost or gained bytes at its end, and no entry with one byte changed,
  whether in the header, in a checksum or in the payload, is ever decoded; each is
  reported as corrupt, whatever key asks.
\<close>

theorem DecodeEntry_detects:
  assumes "length digest = kDigestBytes" "length payload \<le> unat kMaxEntryPayload"
  shows "let e = EncodeEntry identity digest i payload;
             corrupt = (\<lambda>raw. fst (DecodeEntry raw ident dg j n out) = Corrupt)
         in (\<forall>p b. p < length e \<longrightarrow> b \<noteq> e ! p \<longrightarrow> corrupt (e[p := b])) \<and>
            (\<forall>m. m < length e \<longrightarrow> corrupt (take m e)) \<and> (\<forall>xs. xs \<noteq> [] \<longrightarrow> corrupt (e @ xs))"
proof -
  let ?e = "EncodeEntry identity digest i payload"
  note s = EncodeEntry_sound [OF assms, of identity i]
  have short: "\<not> entry_sound (take m ?e)" if "m < length ?e" for m
  proof (cases "m < 88")
    case True
    then show ?thesis using entry_soundD(1) [of "take m ?e"] by fastforce
  next
    case False
    then show ?thesis using that by (intro entry_sound_resize [OF s]) simp_all
  qed
  have long: "\<not> entry_sound (?e @ xs)" if "xs \<noteq> []" for xs
    using that EncodeEntry_fields(1) [OF assms, of identity i] by (intro entry_sound_resize [OF s]) simp_all
  show ?thesis
    unfolding Let_def DecodeEntry_sound using entry_sound_update [OF s] short long by simp
qed

theorem DecodeEntry_detects_witness:
  "fst (DecodeEntry ((EncodeEntry sample_identity (replicate 32 7) 3 [1, 2, 3])[90 := 9])
     sample_identity (replicate 32 7) 3 3 []) = Corrupt"
proof -
  have "length (EncodeEntry sample_identity (replicate 32 7) 3 [1, 2, 3]) = 91"
    "EncodeEntry sample_identity (replicate 32 7) 3 [1, 2, 3] ! 90 = 3"
    by (simp_all add: EncodeEntry_split entry_head_def nth_append)
  then show ?thesis
    using DecodeEntry_detects [of "replicate 32 7" "[1, 2, 3]" sample_identity 3]
    by (simp add: kDigestBytes_def kMaxEntryPayload_unat Let_def)
qed

end
