(* ===== verification/DiskStore.thy ===== *)
theory DiskStore
  imports DiskFormat "HOL-Library.AList" "HOL-Library.Multiset"
begin

text \<open>
  \<open>libs/usd-asset-cache/src/DiskBlockStore.cpp\<close>, the store: configuration, loading, storing
  through a temporary file and a rename, and the sweep. The files are an association list
  from paths (lists of components) to contents and write times, in the order a directory
  walk visits them. What the operating system decides (whether a call fails, how much of a
  failed write reached the disk, the clock) is an argument of the operation, a record of
  answers, so that the properties hold for all of them. Each operation is one step; the
  sweep keeps the split of the source into its locked and its unlocked parts.
\<close>

type_synonym path = "string list"

record disk_file =
  f_bytes :: bytes
  f_written :: int

type_synonym filesystem = "(path \<times> disk_file) list"

definition kEntryRoot :: string where "kEntryRoot = ''blocks-v1''"
definition kEntrySuffix :: string where "kEntrySuffix = ''.blk''"
definition kTempSuffix :: string where "kTempSuffix = ''.tmp''"
definition kMinBudgetEntries :: u64 where "kMinBudgetEntries = 4"
definition kDefaultPersistentBudgetBytes :: u64 where "kDefaultPersistentBudgetBytes = 1024 * 1024 * 1024"
definition kMinPersistentBudgetBytes :: u64 where "kMinPersistentBudgetBytes = 1024 * 1024"

record DiskCacheOptions =
  dc_directory :: string
  dc_budgetBytes :: u64

definition DiskCacheOptions_default :: DiskCacheOptions where
  "DiskCacheOptions_default = \<lparr>dc_directory = [], dc_budgetBytes = kDefaultPersistentBudgetBytes\<rparr>"

definition DiskOptions_Normalized :: "DiskCacheOptions \<Rightarrow> DiskCacheOptions" where
  "DiskOptions_Normalized opts = opts\<lparr>dc_budgetBytes := max (dc_budgetBytes opts) kMinPersistentBudgetBytes\<rparr>"

definition Persistable :: "Validator \<Rightarrow> bool" where
  "Persistable v \<longleftrightarrow> v_strength v = Strong \<and> v_kind v = EntityTag"

record DiskStats =
  dk_enabled :: bool
  dk_hits :: u64
  dk_misses :: u64
  dk_writes :: u64
  dk_writeFailures :: u64
  dk_rejected :: u64
  dk_discarded :: u64
  dk_collisions :: u64
  dk_bytesRead :: u64
  dk_bytesWritten :: u64
  dk_sweeps :: u64
  dk_trimmed :: u64
  dk_trimmedBytes :: u64
  dk_residentBytes :: u64

definition DiskStats_zero :: DiskStats where
  "DiskStats_zero = \<lparr>dk_enabled = False, dk_hits = 0, dk_misses = 0, dk_writes = 0, dk_writeFailures = 0,
     dk_rejected = 0, dk_discarded = 0, dk_collisions = 0, dk_bytesRead = 0, dk_bytesWritten = 0,
     dk_sweeps = 0, dk_trimmed = 0, dk_trimmedBytes = 0, dk_residentBytes = 0\<rparr>"

record DiskBlockStore =
  ds_options :: DiskCacheOptions
  ds_root :: path
  ds_enabled :: bool
  ds_swept :: bool
  ds_knownBytes :: u64
  ds_bytesSinceSweep :: u64
  ds_largestEntryBytes :: u64
  ds_epoch :: u64
  ds_sweeping :: bool
  ds_tempCounter :: u64
  ds_stats :: DiskStats

section \<open>Configuration\<close>

text \<open>\<open>prepared\<close>: the entry directory exists or could be created.\<close>

definition Disk_Configure :: "bool \<Rightarrow> DiskCacheOptions \<Rightarrow> DiskBlockStore \<Rightarrow> bool \<times> DiskBlockStore" where
  "Disk_Configure prepared requested s =
    (let s1 = s\<lparr>ds_options := DiskOptions_Normalized requested, ds_enabled := False, ds_root := [],
                ds_swept := False, ds_knownBytes := 0, ds_bytesSinceSweep := 0,
                ds_largestEntryBytes := 0, ds_epoch := ds_epoch s + 1\<rparr>
     in if dc_directory (ds_options s1) = [] then (False, s1)
        else if \<not> prepared then (False, s1)
        else (True, s1\<lparr>ds_root := [dc_directory (ds_options s1), kEntryRoot], ds_enabled := True\<rparr>))"

definition DiskBlockStore_new :: "bool \<Rightarrow> DiskCacheOptions \<Rightarrow> DiskBlockStore" where
  "DiskBlockStore_new prepared requested =
    snd (Disk_Configure prepared requested
      \<lparr>ds_options = DiskCacheOptions_default, ds_root = [], ds_enabled = False, ds_swept = False,
       ds_knownBytes = 0, ds_bytesSinceSweep = 0, ds_largestEntryBytes = 0, ds_epoch = 0,
       ds_sweeping = False, ds_tempCounter = 0, ds_stats = DiskStats_zero\<rparr>)"

definition PathFor :: "DiskBlockStore \<Rightarrow> string \<Rightarrow> path" where
  "PathFor s name = ds_root s @ [take 2 name, name @ kEntrySuffix]"

definition Disk_Snapshot :: "DiskBlockStore \<Rightarrow> DiskStats" where
  "Disk_Snapshot s = (ds_stats s)\<lparr>dk_enabled := ds_enabled s,
     dk_residentBytes := ds_knownBytes s + ds_bytesSinceSweep s\<rparr>"

section \<open>Files\<close>

definition fs_put :: "path \<Rightarrow> disk_file \<Rightarrow> filesystem \<Rightarrow> filesystem" where
  "fs_put p f fs = AList.update p f fs"

text \<open>Removal: whether a file was removed, and the files left; a failing call removes nothing.\<close>

definition fs_remove :: "bool \<Rightarrow> path \<Rightarrow> filesystem \<Rightarrow> bool \<times> filesystem" where
  "fs_remove ok p fs = (if ok then (map_of fs p \<noteq> None, AList.delete p fs) else (False, fs))"

text \<open>\<open>readable\<close>: the size query, the open and the whole read succeed.\<close>

definition ReadWholeFile :: "bool \<Rightarrow> path \<Rightarrow> filesystem \<Rightarrow> bytes option" where
  "ReadWholeFile readable p fs =
    (case map_of fs p of
       None \<Rightarrow> None
     | Some f \<Rightarrow> if \<not> readable \<or> length (f_bytes f) > kHeaderBytes + unat kMaxEntryPayload then None
               else Some (f_bytes f))"

section \<open>Sweeping\<close>

record SweepPlan =
  sp_root :: path
  sp_budget :: u64
  sp_epoch :: u64

record Candidate =
  c_path :: path
  c_size :: u64
  c_written :: int

text \<open>
  The system's answers during a sweep: whether the directory opens, how many steps the
  iteration makes before an increment fails, whether the attributes of a file can be read,
  whether a removal works, and the clock in nanoseconds.
\<close>

record sweep_io =
  sw_opens :: bool
  sw_steps :: nat
  sw_stats :: "path \<Rightarrow> bool"
  sw_removes :: "path \<Rightarrow> bool"
  sw_now :: int

definition EffectiveBudgetLocked :: "DiskBlockStore \<Rightarrow> u64" where
  "EffectiveBudgetLocked s = max (dc_budgetBytes (ds_options s)) (ds_largestEntryBytes s * kMinBudgetEntries)"

definition SweepIntervalLocked :: "DiskBlockStore \<Rightarrow> u64" where
  "SweepIntervalLocked s = max (EffectiveBudgetLocked s div 8) kMinPersistentBudgetBytes"

definition BeginSweepLocked :: "DiskBlockStore \<Rightarrow> SweepPlan option \<times> DiskBlockStore" where
  "BeginSweepLocked s =
    (if ds_sweeping s \<or> \<not> ds_enabled s then (None, s)
     else (Some \<lparr>sp_root = ds_root s, sp_budget = EffectiveBudgetLocked s, sp_epoch = ds_epoch s\<rparr>,
           s\<lparr>ds_sweeping := True, ds_swept := True, ds_bytesSinceSweep := 0,
             ds_stats := (ds_stats s)\<lparr>dk_sweeps := dk_sweeps (ds_stats s) + 1\<rparr>\<rparr>))"

definition under :: "path \<Rightarrow> path \<Rightarrow> bool" where
  "under root p \<longleftrightarrow> length root < length p \<and> take (length root) p = root"

definition isTemporary :: "path \<Rightarrow> bool" where
  "isTemporary p \<longleftrightarrow> (let filename = last p in
     length filename > 4 \<and> drop (length filename - 4) filename = kTempSuffix)"

definition kHourNs :: int where "kHourNs = 3600 * 1000000000"

fun sweep_walk :: "sweep_io \<Rightarrow> (path \<times> disk_file) list \<Rightarrow> filesystem \<Rightarrow> u64 \<Rightarrow> Candidate list \<Rightarrow>
    filesystem \<times> u64 \<times> Candidate list" where
  "sweep_walk io [] fs tot entries = (fs, tot, entries)"
| "sweep_walk io ((p, f) # rest) fs tot entries =
    (if \<not> sw_stats io p then sweep_walk io rest fs tot entries
     else if isTemporary p \<and> sw_now io - f_written f > kHourNs
     then sweep_walk io rest (snd (fs_remove (sw_removes io p) p fs)) tot entries
     else sweep_walk io rest fs (tot + of_nat (length (f_bytes f)))
            (entries @ [\<lparr>c_path = p, c_size = of_nat (length (f_bytes f)), c_written = f_written f\<rparr>]))"

fun sweep_trim :: "sweep_io \<Rightarrow> u64 \<Rightarrow> Candidate list \<Rightarrow> filesystem \<Rightarrow> u64 \<Rightarrow> u64 \<Rightarrow> u64 \<Rightarrow>
    filesystem \<times> u64 \<times> u64 \<times> u64" where
  "sweep_trim io target [] fs tot trimmed trimmedBytes = (fs, tot, trimmed, trimmedBytes)"
| "sweep_trim io target (c # cs) fs tot trimmed trimmedBytes =
    (if tot \<le> target then (fs, tot, trimmed, trimmedBytes)
     else let (removed, fs1) = fs_remove (sw_removes io (c_path c)) (c_path c) fs
          in if removed
             then sweep_trim io target cs fs1 (tot - c_size c) (trimmed + 1) (trimmedBytes + c_size c)
             else sweep_trim io target cs fs1 tot trimmed trimmedBytes)"

text \<open>The unlocked part: the walk, then the trim in the order of the write times.\<close>

definition sweep_files :: "sweep_io \<Rightarrow> SweepPlan \<Rightarrow> filesystem \<Rightarrow> filesystem \<times> u64 \<times> u64 \<times> u64" where
  "sweep_files io plan fs =
    (let (fs1, tot, entries) =
           (if sw_opens io
            then sweep_walk io (take (sw_steps io) (filter (\<lambda>(p, f). under (sp_root plan) p) fs)) fs 0 []
            else (fs, 0, []))
     in if tot > sp_budget plan
        then sweep_trim io (sp_budget plan - sp_budget plan div 8) (sort_key c_written entries) fs1 tot 0 0
        else (fs1, tot, 0, 0))"

definition FinishSweep :: "SweepPlan \<Rightarrow> u64 \<Rightarrow> u64 \<Rightarrow> u64 \<Rightarrow> DiskBlockStore \<Rightarrow> DiskBlockStore" where
  "FinishSweep plan tot trimmed trimmedBytes s =
    (let s1 = s\<lparr>ds_sweeping := False,
                ds_stats := (ds_stats s)\<lparr>dk_trimmed := dk_trimmed (ds_stats s) + trimmed,
                  dk_trimmedBytes := dk_trimmedBytes (ds_stats s) + trimmedBytes\<rparr>\<rparr>
     in if ds_epoch s1 = sp_epoch plan then s1\<lparr>ds_knownBytes := tot\<rparr> else s1)"

definition RunSweep :: "sweep_io \<Rightarrow> SweepPlan \<Rightarrow> DiskBlockStore \<Rightarrow> filesystem \<Rightarrow> DiskBlockStore \<times> filesystem" where
  "RunSweep io plan s fs =
    (let (fs1, tot, trimmed, trimmedBytes) = sweep_files io plan fs
     in (FinishSweep plan tot trimmed trimmedBytes s, fs1))"

section \<open>Loading and storing\<close>

definition count_stat :: "(DiskStats \<Rightarrow> DiskStats) \<Rightarrow> DiskBlockStore \<Rightarrow> DiskBlockStore" where
  "count_stat f s = s\<lparr>ds_stats := f (ds_stats s)\<rparr>"

record load_io =
  li_readable :: bool
  li_removes :: bool

text \<open>Whether the block was loaded, the out-vector, the store and the files.\<close>

definition Disk_Load :: "load_io \<Rightarrow> AssetIdentity \<Rightarrow> u64 \<Rightarrow> u64 \<Rightarrow> bytes \<Rightarrow> DiskBlockStore \<Rightarrow> filesystem \<Rightarrow>
    (bool \<times> bytes) \<times> DiskBlockStore \<times> filesystem" where
  "Disk_Load io identity blockIndex expectedLength out s fs =
    (if expectedLength = 0 \<or> expectedLength > kMaxEntryPayload then ((False, out), s, fs)
     else if \<not> ds_enabled s then ((False, out), s, fs)
     else
       let digest = DigestOf identity blockIndex;
           p = PathFor s (NameFor digest);
           raw = ReadWholeFile (li_readable io) p fs;
           (outcome, out1) = (case raw of None \<Rightarrow> (Corrupt, out)
                              | Some r \<Rightarrow> DecodeEntry r identity digest blockIndex expectedLength out);
           (s1, fs1) = (if outcome = Corrupt \<and> raw \<noteq> None
                        then (count_stat (\<lambda>st. st\<lparr>dk_discarded := dk_discarded st + 1\<rparr>) s,
                              snd (fs_remove (li_removes io) p fs))
                        else (s, fs))
       in if outcome = DecodeOk
          then ((True, out1), count_stat (\<lambda>st. st\<lparr>dk_hits := dk_hits st + 1,
                  dk_bytesRead := dk_bytesRead st + expectedLength\<rparr>) s1, fs1)
          else let s2 = (if outcome = OtherKey
                         then count_stat (\<lambda>st. st\<lparr>dk_collisions := dk_collisions st + 1\<rparr>) s1 else s1)
               in ((False, out1), count_stat (\<lambda>st. st\<lparr>dk_misses := dk_misses st + 1\<rparr>) s2, fs1))"

text \<open>
  The system's answers to a store: the directory, the open, how much of the entry is written
  and whether the flush works, the rename, removals of the temporary, the existence query, the clock, the
  process nonce, and the answers to the sweep that may follow.
\<close>

record store_io =
  si_mkdir :: bool
  si_open :: bool
  si_partial :: nat
  si_flush :: bool
  si_rename :: bool
  si_unlink :: bool
  si_exists :: bool
  si_now :: int
  si_nonce :: u64
  si_sweep :: sweep_io

definition temporary_path :: "path \<Rightarrow> u64 \<Rightarrow> u64 \<Rightarrow> path" where
  "temporary_path p nonce n =
    butlast p @ [last p @ ''.'' @ HexOf nonce @ ''.'' @ HexOf n @ kTempSuffix]"

definition write_failed :: "DiskBlockStore \<Rightarrow> DiskBlockStore" where
  "write_failed = count_stat (\<lambda>st. st\<lparr>dk_writeFailures := dk_writeFailures st + 1\<rparr>)"

definition published :: "u64 \<Rightarrow> DiskBlockStore \<Rightarrow> DiskBlockStore" where
  "published n s =
    (count_stat (\<lambda>st. st\<lparr>dk_writes := dk_writes st + 1, dk_bytesWritten := dk_bytesWritten st + n\<rparr>) s)
      \<lparr>ds_bytesSinceSweep := ds_bytesSinceSweep s + n,
       ds_largestEntryBytes := max (ds_largestEntryBytes s) n\<rparr>"

definition Disk_Store :: "store_io \<Rightarrow> AssetIdentity \<Rightarrow> u64 \<Rightarrow> bool \<Rightarrow> bytes \<Rightarrow> DiskBlockStore \<Rightarrow> filesystem \<Rightarrow>
    bool \<times> DiskBlockStore \<times> filesystem" where
  "Disk_Store io identity blockIndex persistable payload s fs =
    (if payload = [] \<or> length payload > unat kMaxEntryPayload then (False, s, fs)
     else if \<not> ds_enabled s then (False, s, fs)
     else if \<not> persistable
     then (False, count_stat (\<lambda>st. st\<lparr>dk_rejected := dk_rejected st + 1\<rparr>) s, fs)
     else
       let digest = DigestOf identity blockIndex;
           p = PathFor s (NameFor digest);
           encoded = EncodeEntry identity digest blockIndex payload
       in if \<not> si_mkdir io then (False, write_failed s, fs)
          else
            let temporary = temporary_path p (si_nonce io) (ds_tempCounter s);
                s1 = s\<lparr>ds_tempCounter := ds_tempCounter s + 1\<rparr>
            in if \<not> si_open io then (False, write_failed s1, fs)
               else if \<not> si_flush io
               then (False, write_failed s1, snd (fs_remove (si_unlink io) temporary
                      (fs_put temporary \<lparr>f_bytes = take (si_partial io) encoded, f_written = si_now io\<rparr> fs)))
               else
                 let file = \<lparr>f_bytes = encoded, f_written = si_now io\<rparr>;
                     fs1 = fs_put temporary file fs
                 in if \<not> si_rename io
                    then (False, (if map_of fs1 p \<noteq> None \<and> si_exists io then s1 else write_failed s1),
                          snd (fs_remove (si_unlink io) temporary fs1))
                    else
                      let fs2 = fs_put p file (AList.delete temporary fs1);
                          s2 = published (of_nat (length encoded)) s1
                      in if \<not> ds_swept s2 \<or> ds_bytesSinceSweep s2 \<ge> SweepIntervalLocked s2
                         then (case BeginSweepLocked s2 of
                                 (None, s3) \<Rightarrow> (True, s3, fs2)
                               | (Some plan, s3) \<Rightarrow>
                                   let (s4, fs3) = RunSweep (si_sweep io) plan s3 fs2 in (True, s4, fs3))
                         else (True, s2, fs2))"

text \<open>\<open>cleared\<close>: the recursive removal of the entry directory worked.\<close>

definition Disk_Clear :: "bool \<Rightarrow> DiskBlockStore \<Rightarrow> filesystem \<Rightarrow> DiskBlockStore \<times> filesystem" where
  "Disk_Clear cleared s fs =
    (if \<not> ds_enabled s then (s, fs)
     else (s\<lparr>ds_knownBytes := 0, ds_bytesSinceSweep := 0, ds_largestEntryBytes := 0, ds_swept := False,
             ds_epoch := ds_epoch s + 1\<rparr>,
           if cleared then filter (\<lambda>(p, f). \<not> under (ds_root s) p) fs else fs))"

section \<open>Digests and names\<close>

lemma length_sha_round: "length (sha_round kw st) = length st"
  by (induction kw st rule: sha_round.induct) (simp_all add: Let_def)

lemma length_Compress: "length (Compress block st) = length st"
proof -
  have "length (fold sha_round kws st) = length st" for kws st
    by (induction kws arbitrary: st) (simp_all add: length_sha_round)
  then show ?thesis by (simp add: Compress_def)
qed

lemma length_DigestOf: "length (DigestOf identity i) = kDigestBytes"
proof -
  have "length (fold Compress blocks st) = length st" for blocks st
    by (induction blocks arbitrary: st) (simp_all add: length_Compress)
  moreover have "length (concat (map be32 st)) = 4 * length st" for st
    by (induction st) (simp_all add: be32_def)
  ultimately have "length (sha256 xs) = kDigestBytes" for xs
    by (simp add: sha256_def sha_H0_def kDigestBytes_def)
  then show ?thesis
    using Finish_digest [of "[KeyImage identity i]"] by (simp add: DigestOf_def)
qed

lemma length_NameFor: "length (NameFor digest) = 32"
proof -
  have "length (concat (map (\<lambda>i. [f i, g i]) xs)) = 2 * length xs" for f g :: "nat \<Rightarrow> char" and xs
    by (induction xs) simp_all
  then show ?thesis by (simp only: NameFor_def length_upt)
qed

lemma kHex_nibble: "kHex ! unat ((b :: 'a :: len word) AND 0xF) \<in> set kHex"
proof -
  have "b AND 0xF = take_bit 4 b"
  proof -
    have "(0xF :: 'a word) = mask 4" by (simp add: mask_eq_exp_minus_1)
    then show ?thesis by (simp only: take_bit_eq_mask)
  qed
  then have "unat (b AND 0xF) = take_bit 4 (unat b)" by (simp add: unsigned_take_bit_eq)
  then have "unat (b AND 0xF) < 16" using take_bit_nat_less_exp [of 4 "unat b"] by simp
  then show ?thesis by (intro nth_mem) (simp add: kHex_def)
qed

lemma set_NameFor: "set (NameFor digest) \<subseteq> set kHex"
  unfolding NameFor_def set_concat set_map
  by (intro UN_least) (auto simp: kHex_nibble simp del: set_upt)

lemma set_HexOf: "set (HexOf v) \<subseteq> set kHex"
  unfolding HexOf_def set_map by (intro image_subsetI kHex_nibble)

section \<open>What a sweep leaves\<close>

definition file_sum :: "filesystem \<Rightarrow> nat" where
  "file_sum fs = sum_list (map (\<lambda>pf. length (f_bytes (snd pf))) fs)"

definition disk_bytes :: "path \<Rightarrow> filesystem \<Rightarrow> nat" where
  "disk_bytes root fs = file_sum (filter (\<lambda>(p, f). under root p) fs)"

definition stale :: "int \<Rightarrow> path \<times> disk_file \<Rightarrow> bool" where
  "stale now pf \<longleftrightarrow> isTemporary (fst pf) \<and> now - f_written (snd pf) > kHourNs"

definition candidate :: "path \<times> disk_file \<Rightarrow> Candidate" where
  "candidate pf = \<lparr>c_path = fst pf, c_size = of_nat (length (f_bytes (snd pf))), c_written = f_written (snd pf)\<rparr>"

text \<open>A sweep nobody disturbs: every call of the system succeeds and the walk is complete.\<close>

definition undisturbed :: "sweep_io \<Rightarrow> filesystem \<Rightarrow> bool" where
  "undisturbed io fs \<longleftrightarrow> sw_opens io \<and> length fs \<le> sw_steps io \<and>
     (\<forall>pf \<in> set fs. sw_stats io (fst pf) \<and> sw_removes io (fst pf))"

lemma file_sum_simps [simp]: "file_sum [] = 0" "file_sum (pf # fs) = length (f_bytes (snd pf)) + file_sum fs"
  by (simp_all add: file_sum_def)

definition drop_paths :: "path set \<Rightarrow> filesystem \<Rightarrow> filesystem" where
  "drop_paths ps fs = filter (\<lambda>(p, f). p \<notin> ps) fs"

lemma delete_drop_paths: "AList.delete p (drop_paths ps fs) = drop_paths (insert p ps) fs"
  by (auto simp: AList.delete_eq drop_paths_def intro!: filter_cong)

lemma drop_paths_none [simp]: "drop_paths {} fs = fs"
  by (simp add: drop_paths_def)

lemma map_of_drop_paths: "map_of (drop_paths ps fs) p = (if p \<in> ps then None else map_of fs p)"
  by (induction fs) (auto simp: drop_paths_def)

lemma sweep_walk_spec:
  assumes "\<forall>pf \<in> set walk. sw_stats io (fst pf) \<and> sw_removes io (fst pf)"
  shows "sweep_walk io walk (drop_paths ps fs) tot entries =
    (drop_paths (ps \<union> fst ` set (filter (stale (sw_now io)) walk)) fs,
     tot + of_nat (file_sum (filter (\<lambda>pf. \<not> stale (sw_now io) pf) walk)),
     entries @ map candidate (filter (\<lambda>pf. \<not> stale (sw_now io) pf) walk))"
  using assms
proof (induction walk arbitrary: ps tot entries)
  case (Cons pf walk)
  obtain p f where pf: "pf = (p, f)" by fastforce
  have io: "sw_stats io p" "sw_removes io p" using Cons.prems pf by auto
  show ?case
  proof (cases "stale (sw_now io) pf")
    case True
    then show ?thesis
      using Cons.IH [of "insert p ps" tot entries] Cons.prems io pf
      by (simp add: fs_remove_def delete_drop_paths stale_def)
  next
    case False
    then have fresh: "\<not> (isTemporary p \<and> sw_now io - f_written f > kHourNs)" using pf by (simp add: stale_def)
    show ?thesis
      using Cons.IH [of ps "tot + of_nat (length (f_bytes f))" "entries @ [candidate pf]"] Cons.prems io pf False
      unfolding pf sweep_walk.simps if_not_P [OF fresh] by (simp add: candidate_def)
  qed
qed simp

definition cand_sum :: "Candidate list \<Rightarrow> nat" where
  "cand_sum cs = sum_list (map (\<lambda>c. unat (c_size c)) cs)"

lemma sweep_trim_spec:
  assumes "\<forall>c\<in>set cs. sw_removes io (c_path c) \<and> map_of fs (c_path c) \<noteq> None \<and> c_path c \<notin> ps"
    and "distinct (map c_path cs)" "unat tot = cand_sum cs"
  shows "\<exists>k \<le> length cs. \<exists>tr tb. sweep_trim io target cs (drop_paths ps fs) tot trimmed trimmedBytes =
      (drop_paths (ps \<union> c_path ` set (take k cs)) fs, of_nat (cand_sum (drop k cs)), tr, tb) \<and>
    cand_sum (drop k cs) \<le> unat target \<and> (\<forall>j<k. unat target < cand_sum (drop j cs))"
  using assms
proof (induction cs arbitrary: ps tot trimmed trimmedBytes)
  case Nil
  then show ?case by (simp add: cand_sum_def unat_eq_0)
next
  case (Cons c cs)
  show ?case
  proof (cases "tot \<le> target")
    case True
    have "of_nat (cand_sum (c # cs)) = tot" unfolding Cons.prems(3) [symmetric] by simp
    then show ?thesis
      using True Cons.prems(3) by (intro exI [of _ 0]) (simp add: word_le_nat_alt)
  next
    case False
    have sz: "unat (c_size c) \<le> unat tot" using Cons.prems(3) by (simp add: cand_sum_def)
    have rest: "unat (tot - c_size c) = cand_sum cs"
      using Cons.prems(3) sz by (subst unat_u64_sub) (simp_all add: cand_sum_def word_le_nat_alt)
    have rm: "fs_remove (sw_removes io (c_path c)) (c_path c) (drop_paths ps fs) =
        (True, drop_paths (insert (c_path c) ps) fs)"
      using Cons.prems(1) by (simp add: fs_remove_def delete_drop_paths map_of_drop_paths)
    have "\<forall>x\<in>set cs. sw_removes io (c_path x) \<and> map_of fs (c_path x) \<noteq> None \<and> c_path x \<notin> insert (c_path c) ps"
      using Cons.prems(1,2) by (auto simp: image_iff)
    from Cons.IH [OF this _ rest, of "trimmed + 1" "trimmedBytes + c_size c"] Cons.prems(2)
    obtain k tr tb where k: "k \<le> length cs"
      "sweep_trim io target cs (drop_paths (insert (c_path c) ps) fs) (tot - c_size c) (trimmed + 1)
        (trimmedBytes + c_size c) =
       (drop_paths (insert (c_path c) ps \<union> c_path ` set (take k cs)) fs, of_nat (cand_sum (drop k cs)), tr, tb)"
      "cand_sum (drop k cs) \<le> unat target" "\<forall>j<k. unat target < cand_sum (drop j cs)" by auto
    have "\<forall>j<Suc k. unat target < cand_sum (drop j (c # cs))"
      using k(4) False Cons.prems(3) by (auto simp: less_Suc_eq_0_disj word_le_nat_alt)
    then show ?thesis
      using False rm k by (intro exI [of _ "Suc k"]) (simp add: Un_insert_left)
  qed
qed

definition live_files :: "int \<Rightarrow> path \<Rightarrow> filesystem \<Rightarrow> filesystem" where
  "live_files now root fs = filter (\<lambda>pf. \<not> stale now pf) (filter (\<lambda>(p, f). under root p) fs)"

definition stale_files :: "int \<Rightarrow> path \<Rightarrow> filesystem \<Rightarrow> filesystem" where
  "stale_files now root fs = filter (stale now) (filter (\<lambda>(p, f). under root p) fs)"

definition victims :: "int \<Rightarrow> path \<Rightarrow> filesystem \<Rightarrow> Candidate list" where
  "victims now root fs = sort_key c_written (map candidate (live_files now root fs))"

lemma file_sum_filter_le: "file_sum (filter P fs) \<le> file_sum fs"
  by (induction fs) simp_all

lemma length_file_le: "pf \<in> set fs \<Longrightarrow> length (f_bytes (snd pf)) \<le> file_sum fs"
  by (induction fs) auto

lemma cand_sum_mset: "mset cs = mset ds \<Longrightarrow> cand_sum cs = cand_sum ds"
  unfolding cand_sum_def by (metis mset_map sum_mset_sum_list)

lemma cand_sum_candidates: "file_sum fs < 2 ^ 64 \<Longrightarrow> cand_sum (map candidate fs) = file_sum fs"
  by (induction fs) (simp_all add: cand_sum_def candidate_def)

lemma c_path_candidate [simp]: "c_path (candidate pf) = fst pf" "c_written (candidate pf) = f_written (snd pf)"
  by (simp_all add: candidate_def)

lemma victims_facts:
  assumes "distinct (map fst fs)"
  shows "mset (victims now root fs) = mset (map candidate (live_files now root fs))"
    "distinct (map c_path (victims now root fs))"
    "c \<in> set (victims now root fs) \<longleftrightarrow> c \<in> candidate ` set (live_files now root fs)"
proof -
  show m: "mset (victims now root fs) = mset (map candidate (live_files now root fs))"
    by (simp add: victims_def)
  have "distinct (map fst (live_files now root fs))"
    using assms by (simp add: live_files_def distinct_map_filter)
  then have "distinct (map c_path (map candidate (live_files now root fs)))" by (simp add: comp_def)
  then show "distinct (map c_path (victims now root fs))"
    using m by (metis mset_eq_imp_distinct_iff mset_map)
  show "c \<in> set (victims now root fs) \<longleftrightarrow> c \<in> candidate ` set (live_files now root fs)"
    by (simp add: victims_def)
qed

lemma stale_path:
  assumes "distinct (map fst fs)" "(p, f) \<in> set fs"
  shows "p \<in> fst ` set (stale_files now root fs) \<longleftrightarrow> under root p \<and> stale now (p, f)"
proof
  assume "p \<in> fst ` set (stale_files now root fs)"
  then obtain g where g: "(p, g) \<in> set fs" "stale now (p, g)" "under root p" by (auto simp: stale_files_def)
  then have "g = f" using assms eq_key_imp_eq_value by metis
  then show "under root p \<and> stale now (p, f)" using g by simp
next
  assume "under root p \<and> stale now (p, f)"
  then have "(p, f) \<in> set (stale_files now root fs)" using assms(2) by (simp add: stale_files_def)
  then show "p \<in> fst ` set (stale_files now root fs)" by force
qed

lemma sweep_files_spec:
  fixes plan
  assumes "distinct (map fst fs)" "undisturbed io fs" "file_sum fs < 2 ^ 64"
  defines "cs \<equiv> victims (sw_now io) (sp_root plan) fs"
  defines "budget \<equiv> unat (sp_budget plan)"
  shows "\<exists>k \<le> length cs. \<exists>tr tb. sweep_files io plan fs =
      (drop_paths (fst ` set (stale_files (sw_now io) (sp_root plan) fs) \<union> c_path ` set (take k cs)) fs,
       of_nat (cand_sum (drop k cs)), tr, tb) \<and>
    cand_sum (drop k cs) \<le> budget \<and> (\<forall>j<k. budget - budget div 8 < cand_sum (drop j cs))"
proof -
  let ?root = "sp_root plan" and ?now = "sw_now io"
  let ?walk = "filter (\<lambda>(p, f). under ?root p) fs"
  let ?live = "live_files ?now ?root fs"
  have steps: "take (sw_steps io) ?walk = ?walk"
    using assms(2) length_filter_le [of _ fs] unfolding undisturbed_def by (meson le_trans take_all)
  have "\<forall>pf\<in>set ?walk. sw_stats io (fst pf) \<and> sw_removes io (fst pf)"
    using assms(2) by (auto simp: undisturbed_def)
  note w = sweep_walk_spec [OF this, of "{}" fs 0 "[]"]
  have lt: "file_sum ?live < 2 ^ 64"
    using assms(3) unfolding live_files_def filter_filter by (rule le_less_trans [OF file_sum_filter_le])
  have tot: "unat (of_nat (file_sum ?live) :: u64) = cand_sum cs"
    using lt cand_sum_candidates [OF lt] cand_sum_mset [OF victims_facts(1) [OF assms(1)]] by (simp add: cs_def)
  have div8: "unat (sp_budget plan - sp_budget plan div 8) = budget - budget div 8"
    by (subst unat_u64_sub) (simp_all add: budget_def word_le_nat_alt unat_div)
  have cs: "of_nat (cand_sum cs) = (of_nat (file_sum ?live) :: u64)" unfolding tot [symmetric] by simp
  have walked: "sweep_files io plan fs =
      (if of_nat (file_sum ?live) > sp_budget plan
       then sweep_trim io (sp_budget plan - sp_budget plan div 8) cs
         (drop_paths (fst ` set (stale_files ?now ?root fs)) fs) (of_nat (file_sum ?live)) 0 0
       else (drop_paths (fst ` set (stale_files ?now ?root fs)) fs, of_nat (file_sum ?live), 0, 0))"
    using w steps assms(2)
    by (simp add: sweep_files_def undisturbed_def stale_files_def live_files_def cs_def victims_def)
  show ?thesis
  proof (cases "of_nat (file_sum ?live) > sp_budget plan")
    case False
    then have "cand_sum cs \<le> budget" using tot by (simp add: budget_def word_less_nat_alt)
    then show ?thesis
      unfolding walked using False cs by (intro exI [of _ 0]) simp
  next
    case True
    have "sw_removes io (c_path c) \<and> map_of fs (c_path c) \<noteq> None \<and>
        c_path c \<notin> fst ` set (stale_files ?now ?root fs)" if c_in: "c \<in> set cs" for c
    proof -
      obtain pf where pf: "pf \<in> set fs" "\<not> stale ?now pf" "c = candidate pf"
        using c_in victims_facts(3) [OF assms(1)] by (auto simp: cs_def live_files_def)
      then have "map_of fs (fst pf) = Some (snd pf)" using assms(1) by (metis map_of_is_SomeI prod.collapse)
      moreover have "fst pf \<notin> fst ` set (stale_files ?now ?root fs)"
        using stale_path [OF assms(1), of "fst pf" "snd pf"] pf(1,2) by simp
      ultimately show ?thesis using pf assms(2) by (auto simp: undisturbed_def)
    qed
    then have c: "\<forall>c\<in>set cs. sw_removes io (c_path c) \<and> map_of fs (c_path c) \<noteq> None \<and>
        c_path c \<notin> fst ` set (stale_files ?now ?root fs)" by blast
    have d: "distinct (map c_path cs)" using victims_facts(2) [OF assms(1)] by (simp add: cs_def)
    obtain k tr tb where k: "k \<le> length cs"
      "sweep_trim io (sp_budget plan - sp_budget plan div 8) cs
        (drop_paths (fst ` set (stale_files ?now ?root fs)) fs) (of_nat (file_sum ?live)) 0 0 =
       (drop_paths (fst ` set (stale_files ?now ?root fs) \<union> c_path ` set (take k cs)) fs,
        of_nat (cand_sum (drop k cs)), tr, tb)"
      "cand_sum (drop k cs) \<le> budget - budget div 8" "\<forall>j<k. budget - budget div 8 < cand_sum (drop j cs)"
      using sweep_trim_spec [OF c d tot, of "sp_budget plan - sp_budget plan div 8" 0 0] unfolding div8 by blast
    have "cand_sum (drop k cs) \<le> budget" using k(3) by linarith
    then show ?thesis unfolding walked using True k by (intro exI [of _ k]) simp
  qed
qed

text \<open>What is left under the root are the candidates that were not trimmed.\<close>

lemma cand_sum_filter_drop:
  assumes "distinct (map c_path cs)"
  shows "cand_sum (filter (\<lambda>c. c_path c \<notin> c_path ` set (take k cs)) cs) = cand_sum (drop k cs)"
proof -
  have "distinct (map c_path (take k cs @ drop k cs))" using assms by simp
  then have disj: "c_path ` set (take k cs) \<inter> c_path ` set (drop k cs) = {}"
    unfolding map_append distinct_append by simp
  have "filter (\<lambda>c. c_path c \<notin> c_path ` set (take k cs)) (take k cs @ drop k cs) = drop k cs"
    unfolding filter_append using disj by (auto simp: filter_empty_conv filter_id_conv)
  then show ?thesis by simp
qed

lemma disk_bytes_after:
  fixes now root
  assumes "distinct (map fst fs)" "file_sum fs < 2 ^ 64"
  defines "cs \<equiv> victims now root fs"
  shows "disk_bytes root (drop_paths (fst ` set (stale_files now root fs) \<union> c_path ` set (take k cs)) fs) =
    cand_sum (drop k cs)"
proof -
  let ?T = "c_path ` set (take k cs)" and ?S = "fst ` set (stale_files now root fs)"
  have keep: "filter (\<lambda>(p, f). under root p) (drop_paths (?S \<union> ?T) fs) =
      filter (\<lambda>pf. fst pf \<notin> ?T) (live_files now root fs)"
  proof -
    have "(case pf of (p, f) \<Rightarrow> under root p) \<and> (case pf of (p, f) \<Rightarrow> p \<notin> ?S \<union> ?T) \<longleftrightarrow>
        ((case pf of (p, f) \<Rightarrow> under root p) \<and> \<not> stale now pf) \<and> fst pf \<notin> ?T" if "pf \<in> set fs" for pf
      using that stale_path [OF assms(1), of "fst pf" "snd pf" now root] by (simp add: case_prod_beta) blast
    then show ?thesis
      unfolding drop_paths_def live_files_def filter_filter by (intro filter_cong) auto
  qed
  have lt: "file_sum (filter (\<lambda>pf. fst pf \<notin> ?T) (live_files now root fs)) < 2 ^ 64"
    using assms(2) unfolding live_files_def filter_filter by (rule le_less_trans [OF file_sum_filter_le])
  have "disk_bytes root (drop_paths (?S \<union> ?T) fs) =
      cand_sum (map candidate (filter (\<lambda>pf. fst pf \<notin> ?T) (live_files now root fs)))"
    unfolding disk_bytes_def keep by (rule cand_sum_candidates [OF lt, symmetric])
  also have "\<dots> = cand_sum (filter (\<lambda>c. c_path c \<notin> ?T) (map candidate (live_files now root fs)))"
    by (simp add: filter_map comp_def)
  also have "\<dots> = cand_sum (filter (\<lambda>c. c_path c \<notin> ?T) cs)"
    using victims_facts(1) [OF assms(1), of now root] unfolding cs_def by (intro cand_sum_mset) (simp add: mset_filter)
  also have "\<dots> = cand_sum (drop k cs)"
    using victims_facts(2) [OF assms(1)] unfolding cs_def by (intro cand_sum_filter_drop)
  finally show ?thesis .
qed


definition calm_sweep :: "sweep_io" where
  "calm_sweep = \<lparr>sw_opens = True, sw_steps = 1000, sw_stats = (\<lambda>p. True), sw_removes = (\<lambda>p. True), sw_now = 100\<rparr>"

definition sample_root :: path where "sample_root = [''cache'', ''blocks-v1'']"

definition sample_files :: filesystem where
  "sample_files = [(sample_root @ [''ab'', ''x.blk''], \<lparr>f_bytes = replicate 9 1, f_written = 1\<rparr>),
     (sample_root @ [''cd'', ''y.blk''], \<lparr>f_bytes = replicate 5 1, f_written = 2\<rparr>)]"


section \<open>Storing and loading\<close>

lemma sorted_greatest_last:
  assumes "x \<in> set xs" "sorted (map f xs)" "\<forall>y\<in>set xs. y \<noteq> x \<longrightarrow> f y < f x"
  shows "last xs = x"
proof (rule ccontr)
  assume ne: "last xs \<noteq> x"
  have xs: "xs \<noteq> []" using assms(1) by auto
  then have "f (last xs) < f x" using assms(3) ne by simp
  moreover have "f x \<le> f (last xs)"
  proof -
    have "sorted (map f (butlast xs @ [last xs]))" using assms(2) xs by simp
    then have "\<forall>y\<in>set (butlast xs). f y \<le> f (last xs)" by (simp add: sorted_append)
    moreover have "x \<in> set (butlast xs @ [last xs])" using assms(1) xs by simp
    ultimately show ?thesis using ne by auto
  qed
  ultimately show False by simp
qed

lemma last_in_take:
  assumes "distinct xs" "xs \<noteq> []" "last xs \<in> set (take k xs)" "k \<le> length xs"
  shows "k = length xs"
proof -
  obtain i where i: "i < k" "xs ! i = last xs" using assms(3,4) by (auto simp: in_set_conv_nth)
  then have "xs ! i = xs ! (length xs - 1)" using assms(2) by (simp add: last_conv_nth)
  then have "i = length xs - 1" using assms(1,4) i(1) by (simp add: nth_eq_iff_index_eq)
  then show ?thesis using i(1) assms(4) by simp
qed

lemma drop_to_last: "xs \<noteq> [] \<Longrightarrow> drop (length xs - 1) xs = [last xs]"
  by (induction xs rule: rev_induct) simp_all

lemma newest_survives:
  assumes "distinct (map fst fs)" "undisturbed io fs" "file_sum fs < 2 ^ 64"
    and p: "(p, f) \<in> set fs" "\<not> stale (sw_now io) (p, f)"
    and newest: "\<forall>(q, g) \<in> set fs. q \<noteq> p \<longrightarrow> f_written g < f_written f"
    and fits: "length (f_bytes f) \<le> unat (sp_budget plan) - unat (sp_budget plan) div 8"
  shows "map_of (fst (sweep_files io plan fs)) p = Some f"
proof -
  let ?cs = "victims (sw_now io) (sp_root plan) fs"
  obtain k tr tb where k: "k \<le> length ?cs" "sweep_files io plan fs =
      (drop_paths (fst ` set (stale_files (sw_now io) (sp_root plan) fs) \<union> c_path ` set (take k ?cs)) fs,
       of_nat (cand_sum (drop k ?cs)), tr, tb)"
    "\<forall>j<k. unat (sp_budget plan) - unat (sp_budget plan) div 8 < cand_sum (drop j ?cs)"
    using sweep_files_spec [OF assms(1-3), of plan] by blast
  have d: "distinct (map c_path ?cs)" using victims_facts(2) [OF assms(1)] .
  have "p \<notin> c_path ` set (take k ?cs)"
  proof
    assume "p \<in> c_path ` set (take k ?cs)"
    then obtain c where c: "c \<in> set (take k ?cs)" "c_path c = p" by auto
    then have "c \<in> set ?cs" by (rule_tac in_set_takeD)
    then obtain g where "(p, g) \<in> set fs" "c = candidate (p, g)"
      using victims_facts(3) [OF assms(1)] c(2) by (auto simp: live_files_def)
    then have cf: "c = candidate (p, f)" using p(1) assms(1) eq_key_imp_eq_value by metis
    have lst: "last ?cs = c"
    proof (rule sorted_greatest_last [where f = c_written])
      show "c \<in> set ?cs" by fact
      show "sorted (map c_written ?cs)" by (simp add: victims_def)
      show "\<forall>y\<in>set ?cs. y \<noteq> c \<longrightarrow> c_written y < c_written c"
      proof (intro ballI impI)
        fix y assume y: "y \<in> set ?cs" "y \<noteq> c"
        then obtain q g where q: "(q, g) \<in> set fs" "y = candidate (q, g)"
          using victims_facts(3) [OF assms(1)] by (auto simp: live_files_def)
        then have "q \<noteq> p" using y(2) cf p(1) assms(1) eq_key_imp_eq_value by metis
        then show "c_written y < c_written c" using newest q cf by auto
      qed
    qed
    have ne: "?cs \<noteq> []" using \<open>c \<in> set ?cs\<close> by auto
    have "distinct ?cs" using d by (simp add: distinct_map)
    then have "k = length ?cs" using last_in_take [OF _ ne _ k(1)] c(1) lst by simp
    then have "unat (sp_budget plan) - unat (sp_budget plan) div 8 < cand_sum (drop (length ?cs - 1) ?cs)"
      using k(3) ne by simp
    moreover have "drop (length ?cs - 1) ?cs = [c]" using drop_to_last [OF ne] lst by simp
    moreover have "cand_sum [c] = length (f_bytes f)"
      using length_file_le [OF p(1)] assms(3) by (simp add: cf cand_sum_def candidate_def)
    ultimately show False using fits by simp
  qed
  moreover have "p \<notin> fst ` set (stale_files (sw_now io) (sp_root plan) fs)"
    using stale_path [OF assms(1) p(1)] p(2) by simp
  ultimately show ?thesis
    using k(2) p(1) assms(1) by (simp add: map_of_drop_paths)
qed

end
