(* ===== verification/Configuration.thy ===== *)
theory Configuration
  imports HttpExchange CacheOptions DiskStore "HOL-Library.List_Lexorder"
begin

text \<open>
  \<open>plugins/http-resolver\<close>: configuration (\<open>Configuration.cpp\<close>): reading the environment's
  variables into transport, cache and persistence options, the overrides of a resolver
  context, and the fingerprint of the transport options. A lookup is a function from
  names to values, and \<open>std::map\<close> is a list of pairs sorted by key. Every function that
  collects problems returns them in the order in which the code appends them.
\<close>

type_synonym EnvironmentLookup = "string \<Rightarrow> string option"

type_synonym string_map = "(string \<times> string) list"

record ConfigurationProblem =
  cp_variable :: string
  cp_value :: string
  cp_reason :: string
  cp_adjusted :: bool
  cp_fromContext :: bool

record 'w ResolverConfiguration =
  rc_transport :: "'w HttpOptions"
  rc_cache :: CacheOptions
  rc_persistence :: DiskCacheOptions

section \<open>Names\<close>

definition kConnectTimeout :: string where "kConnectTimeout = ''USD_HTTP_RESOLVER_CONNECT_TIMEOUT_MS''"
definition kReadTimeout :: string where "kReadTimeout = ''USD_HTTP_RESOLVER_READ_TIMEOUT_MS''"
definition kTotalTimeout :: string where "kTotalTimeout = ''USD_HTTP_RESOLVER_TOTAL_TIMEOUT_MS''"
definition kMaxRetries :: string where "kMaxRetries = ''USD_HTTP_RESOLVER_MAX_RETRIES''"
definition kMaxRedirects :: string where "kMaxRedirects = ''USD_HTTP_RESOLVER_MAX_REDIRECTS''"
definition kDestinations :: string where "kDestinations = ''USD_HTTP_RESOLVER_DESTINATIONS''"
definition kBlockSize :: string where "kBlockSize = ''USD_HTTP_RESOLVER_BLOCK_SIZE''"
definition kCacheBudget :: string where "kCacheBudget = ''USD_HTTP_RESOLVER_CACHE_BUDGET''"
definition kCoalesceGap :: string where "kCoalesceGap = ''USD_HTTP_RESOLVER_COALESCE_GAP''"
definition kMaxRequestBytes :: string where "kMaxRequestBytes = ''USD_HTTP_RESOLVER_MAX_REQUEST_BYTES''"
definition kPersistentDirectory :: string where "kPersistentDirectory = ''USD_HTTP_RESOLVER_PERSISTENT_CACHE_DIR''"
definition kPersistentBudget :: string where "kPersistentBudget = ''USD_HTTP_RESOLVER_PERSISTENT_CACHE_BUDGET''"

definition ConfiguredVariables :: "string list" where
  "ConfiguredVariables = [kBlockSize, kCacheBudget, kCoalesceGap, kMaxRequestBytes, kPersistentDirectory, kPersistentBudget,
     kConnectTimeout, kReadTimeout, kTotalTimeout, kMaxRetries, kMaxRedirects, kDestinations]"

definition ContextVariables :: "string list" where
  "ContextVariables = [kCoalesceGap, kMaxRequestBytes, kConnectTimeout, kReadTimeout, kTotalTimeout, kMaxRetries, kMaxRedirects, kDestinations]"

section \<open>Values\<close>

definition out_of_range :: "int \<Rightarrow> int \<Rightarrow> string" where
  "out_of_range mn mx = ''out of range ['' @ to_string_int mn @ '', '' @ to_string_int mx @ '']''"

fun count_loop :: "int \<Rightarrow> int \<Rightarrow> string \<Rightarrow> int \<Rightarrow> string + int" where
  "count_loop mn mx [] v = Inr v"
| "count_loop mn mx (c # cs) v =
    (if \<not> is_digit c then Inl ''not a non-negative integer''
     else let v' = v * 10 + int (digit_val c) in if v' > mx then Inl (out_of_range mn mx) else count_loop mn mx cs v')"

definition ParseCount :: "string \<Rightarrow> int \<Rightarrow> int \<Rightarrow> string + int" where
  "ParseCount str mn mx =
    (if str = [] then Inl ''empty''
     else case count_loop mn mx str 0 of
            Inl reason \<Rightarrow> Inl reason
          | Inr v \<Rightarrow> if v < mn then Inl (out_of_range mn mx) else Inr v)"

definition Problem :: "string \<Rightarrow> string \<Rightarrow> string \<Rightarrow> ConfigurationProblem" where
  "Problem variable v reason =
    \<lparr>cp_variable = variable, cp_value = v, cp_reason = reason, cp_adjusted = False, cp_fromContext = False\<rparr>"

definition Adjusted :: "string \<Rightarrow> string \<Rightarrow> string \<Rightarrow> ConfigurationProblem" where
  "Adjusted variable v reason = (Problem variable v reason)\<lparr>cp_adjusted := True\<rparr>"

definition IsBlank :: "char \<Rightarrow> bool" where
  "IsBlank c \<longleftrightarrow> c = CHR '' '' \<or> c = CHR 0x09 \<or> c = CHR 0x0D \<or> c = CHR 0x0A"

definition Config_Trim :: "string \<Rightarrow> string" where
  "Config_Trim str = trim_by IsBlank str"

definition Contains :: "string list \<Rightarrow> string \<Rightarrow> bool" where
  "Contains names name \<longleftrightarrow> list_ex (\<lambda>candidate. name = candidate) names"

definition ReadInto :: "EnvironmentLookup \<Rightarrow> string \<Rightarrow> int \<Rightarrow> int \<Rightarrow> int \<Rightarrow> int \<times> ConfigurationProblem list" where
  "ReadInto lookup name mn mx target =
    (case lookup name of
       None \<Rightarrow> (target, [])
     | Some str \<Rightarrow> (case ParseCount str mn mx of Inl reason \<Rightarrow> (target, [Problem name str reason]) | Inr v \<Rightarrow> (v, [])))"

definition ReadBytesInto :: "EnvironmentLookup \<Rightarrow> string \<Rightarrow> int \<Rightarrow> int \<Rightarrow> u64 \<Rightarrow> u64 \<times> ConfigurationProblem list" where
  "ReadBytesInto lookup name mn mx target =
    (case lookup name of
       None \<Rightarrow> (target, [])
     | Some str \<Rightarrow> (case ParseCount str mn mx of Inl reason \<Rightarrow> (target, [Problem name str reason]) | Inr v \<Rightarrow> (word_of_int v, [])))"

section \<open>Destinations\<close>

definition kAddressClasses :: "AddressClass list" where
  "kAddressClasses = [Public, Private, Loopback, LinkLocal, Metadata]"

definition DestinationsString :: "DestinationPolicy \<Rightarrow> string" where
  "DestinationsString policy =
    foldl (\<lambda>str c. if \<not> Permits policy c then str else (if str \<noteq> [] then str @ '','' else str) @ AddressClassName c) [] kAddressClasses"

primrec permit_class :: "AddressClass \<Rightarrow> DestinationPolicy \<Rightarrow> DestinationPolicy" where
  "permit_class Public policy = policy\<lparr>dp_publicAddresses := True\<rparr>"
| "permit_class Private policy = policy\<lparr>dp_privateNetworks := True\<rparr>"
| "permit_class Loopback policy = policy\<lparr>dp_loopback := True\<rparr>"
| "permit_class LinkLocal policy = policy\<lparr>dp_linkLocal := True\<rparr>"
| "permit_class Metadata policy = policy\<lparr>dp_metadata := True\<rparr>"

text \<open>One name of the list: the classes it names are permitted, and none is an error.\<close>

definition permit_name :: "string \<Rightarrow> DestinationPolicy \<Rightarrow> string + DestinationPolicy" where
  "permit_name name policy =
    (if name = [] then Inl ''an empty entry in the list''
     else case filter (\<lambda>c. name = AddressClassName c) kAddressClasses of
            [] \<Rightarrow> Inl (''unknown address class '' @ [CHR 0x27] @ name @ [CHR 0x27] @
                    ''; expected public, private, loopback, link-local, or metadata'')
          | known \<Rightarrow> Inr (fold permit_class known policy))"

fun destinations_loop :: "string list \<Rightarrow> DestinationPolicy \<Rightarrow> string + DestinationPolicy" where
  "destinations_loop [] policy = Inr policy"
| "destinations_loop (part # parts) policy =
    (case permit_name (Config_Trim part) policy of Inl reason \<Rightarrow> Inl reason | Inr policy' \<Rightarrow> destinations_loop parts policy')"

definition no_destinations :: DestinationPolicy where
  "no_destinations = DestinationPolicy_default\<lparr>dp_publicAddresses := False, dp_privateNetworks := False, dp_loopback := False, dp_linkLocal := False\<rparr>"

definition ParseDestinations :: "string \<Rightarrow> string + DestinationPolicy" where
  "ParseDestinations str = (if str = [] then Inl ''empty'' else destinations_loop (split_on (CHR '','') str) no_destinations)"

section \<open>Options\<close>

definition PersistenceOptionsFrom :: "EnvironmentLookup \<Rightarrow> DiskCacheOptions \<times> ConfigurationProblem list" where
  "PersistenceOptionsFrom lookup =
    (let (directory, p1) = (case lookup kPersistentDirectory of
           None \<Rightarrow> (dc_directory DiskCacheOptions_default, [])
         | Some directory \<Rightarrow> if directory = [] then (dc_directory DiskCacheOptions_default, [Problem kPersistentDirectory directory ''empty''])
                             else (directory, []));
         (budget, p2) = ReadBytesInto lookup kPersistentBudget (uint kMinPersistentBudgetBytes) (1024 * 1024 * 1024 * 1024)
           (dc_budgetBytes DiskCacheOptions_default)
     in (\<lparr>dc_directory = directory, dc_budgetBytes = budget\<rparr>, p1 @ p2))"

text \<open>What normalization would change is reported, in the order of the tests.\<close>

definition adjustments :: "CacheOptions \<Rightarrow> ConfigurationProblem list" where
  "adjustments opts =
    (let n = Normalized opts
     in (if blockSize n \<noteq> blockSize opts
         then [Adjusted kBlockSize (to_dec (unat (blockSize opts))) (''rounded down to the power of two '' @ to_dec (unat (blockSize n)))] else []) @
        (if coalesceGapBlocks n \<noteq> coalesceGapBlocks opts
         then [Adjusted kCoalesceGap (to_dec (unat (coalesceGapBlocks opts))) (''capped at '' @ to_dec (unat (coalesceGapBlocks n)) @
                 '', the widest gap that can fit under USD_HTTP_RESOLVER_MAX_REQUEST_BYTES'')] else []) @
        (if budgetBytes n \<noteq> budgetBytes opts
         then [Adjusted kCacheBudget (to_dec (unat (budgetBytes opts))) (''raised to '' @ to_dec (unat (budgetBytes n)) @
                 '', one block: a budget that cannot hold a block does not cache nothing, it fetches a block and drops it'')] else []) @
        (if maxRequestBytes n \<noteq> maxRequestBytes opts
         then [Adjusted kMaxRequestBytes (to_dec (unat (maxRequestBytes opts))) (''raised to '' @ to_dec (unat (maxRequestBytes n)) @
                 '', one block: a merged request that cannot carry a block cannot carry the block it was merging'')] else []))"

definition CacheOptionsFrom :: "EnvironmentLookup \<Rightarrow> CacheOptions \<times> ConfigurationProblem list" where
  "CacheOptionsFrom lookup =
    (let opts = CacheOptions_default;
         (block, p1) = ReadBytesInto lookup kBlockSize (uint kMinBlockSize) (uint kMaxBlockSize) (blockSize opts);
         (budget, p2) = ReadBytesInto lookup kCacheBudget (uint kMinBlockSize) (64 * 1024 * 1024 * 1024) (budgetBytes opts);
         (gap, p3) = ReadBytesInto lookup kCoalesceGap 0 1024 (ucast (coalesceGapBlocks opts));
         (request, p4) = ReadBytesInto lookup kMaxRequestBytes (uint kMinBlockSize) (4 * 1024 * 1024 * 1024) (maxRequestBytes opts);
         opts = opts\<lparr>blockSize := block, budgetBytes := budget, coalesceGapBlocks := ucast gap, maxRequestBytes := request\<rparr>
     in (opts, p1 @ p2 @ p3 @ p4 @ adjustments opts))"

definition read_destinations :: "EnvironmentLookup \<Rightarrow> DestinationPolicy \<Rightarrow> DestinationPolicy \<times> ConfigurationProblem list" where
  "read_destinations lookup target =
    (case lookup kDestinations of
       None \<Rightarrow> (target, [])
     | Some str \<Rightarrow> (case ParseDestinations str of Inl reason \<Rightarrow> (target, [Problem kDestinations str reason]) | Inr policy \<Rightarrow> (policy, [])))"

definition OptionsFrom :: "EnvironmentLookup \<Rightarrow> 'w HttpOptions \<times> ConfigurationProblem list" where
  "OptionsFrom lookup =
    (let opts = HttpOptions_default;
         (connect, p1) = ReadInto lookup kConnectTimeout 1 3600000 (ho_connectTimeoutMs opts);
         (response, p2) = ReadInto lookup kReadTimeout 1 3600000 (ho_responseTimeoutMs opts);
         (transfer, p3) = ReadInto lookup kTotalTimeout 1 3600000 (ho_transferTimeoutMs opts);
         (retries, p4) = ReadInto lookup kMaxRetries 0 100 (ho_maxAttempts opts - 1);
         (redirects, p5) = ReadInto lookup kMaxRedirects 0 100 (ho_maxRedirects opts);
         (policy, p6) = read_destinations lookup (ho_destinations opts)
     in (opts\<lparr>ho_connectTimeoutMs := connect, ho_responseTimeoutMs := response, ho_transferTimeoutMs := transfer,
              ho_maxAttempts := retries + 1, ho_maxRedirects := redirects, ho_destinations := policy\<rparr>,
         p1 @ p2 @ p3 @ p4 @ p5 @ p6))"

definition ConfigurationFrom :: "EnvironmentLookup \<Rightarrow> 'w ResolverConfiguration \<times> ConfigurationProblem list" where
  "ConfigurationFrom lookup =
    (let (transport, p1) = OptionsFrom lookup;
         (cache, p2) = CacheOptionsFrom lookup;
         (persistence, p3) = PersistenceOptionsFrom lookup
     in (\<lparr>rc_transport = transport, rc_cache = cache, rc_persistence = persistence\<rparr>, p1 @ p2 @ p3))"

section \<open>Contexts\<close>

fun map_set :: "string \<Rightarrow> string \<Rightarrow> string_map \<Rightarrow> string_map" where
  "map_set k v [] = [(k, v)]"
| "map_set k v ((k', v') # rest) =
    (if k < k' then (k, v) # (k', v') # rest else if k = k' then (k, v) # rest else (k', v') # map_set k v rest)"

definition map_erase :: "string \<Rightarrow> string_map \<Rightarrow> string_map" where
  "map_erase k entries = filter (\<lambda>entry. fst entry \<noteq> k) entries"

definition LookupIn :: "string_map \<Rightarrow> EnvironmentLookup" where
  "LookupIn values name = map_of values name"

definition Layered :: "string_map \<Rightarrow> EnvironmentLookup \<Rightarrow> EnvironmentLookup" where
  "Layered overrides base name = (case map_of overrides name of Some v \<Rightarrow> Some v | None \<Rightarrow> base name)"

definition Snapshot :: "EnvironmentLookup \<Rightarrow> string_map" where
  "Snapshot lookup = fold (\<lambda>name values. case lookup name of None \<Rightarrow> values | Some v \<Rightarrow> map_set name v values) ConfiguredVariables []"

definition context_problem :: "ConfigurationProblem \<Rightarrow> ConfigurationProblem" where
  "context_problem problem = problem\<lparr>cp_fromContext := True\<rparr>"

text \<open>One entry of a context string.\<close>

definition context_entry :: "string \<Rightarrow> string_map \<times> ConfigurationProblem list \<Rightarrow> string_map \<times> ConfigurationProblem list" where
  "context_entry part state =
    (let entry = Config_Trim part; (entries, problems) = state;
         refuse = (\<lambda>variable v reason. (entries, problems @ [context_problem (Problem variable v reason)]))
     in if entry = [] then state
        else case find_index (\<lambda>c. c = CHR ''='') entry of
               None \<Rightarrow> refuse [] entry ''not a NAME=value entry''
             | Some equals \<Rightarrow>
                 let name = Config_Trim (take equals entry); v = Config_Trim (drop (equals + 1) entry)
                 in if \<not> Contains ConfiguredVariables name then refuse name v ''not a variable this resolver reads''
                    else if \<not> Contains ContextVariables name then
                      refuse name v ''shared by every stage in the process, so it is read from the environment and not from a context''
                    else (map_set name v entries,
                      problems @ (if map_of entries name \<noteq> None
                        then [context_problem (Adjusted name v ''set more than once in one context; only the last value is considered'')] else [])))"

text \<open>A refused value leaves the context; an adjusted one stays.\<close>

definition judge_problem :: "ConfigurationProblem \<Rightarrow> string_map \<times> ConfigurationProblem list \<Rightarrow> string_map \<times> ConfigurationProblem list" where
  "judge_problem problem state =
    (let (entries, problems) = state
     in if map_of entries (cp_variable problem) = None then state
        else (if \<not> cp_adjusted problem then map_erase (cp_variable problem) entries else entries, problems @ [context_problem problem]))"

definition canonical_value :: "'w ResolverConfiguration \<Rightarrow> string \<Rightarrow> string \<Rightarrow> string" where
  "canonical_value applied name v =
    (let transport = rc_transport applied
     in if name = kConnectTimeout then to_string_int (ho_connectTimeoutMs transport)
        else if name = kReadTimeout then to_string_int (ho_responseTimeoutMs transport)
        else if name = kTotalTimeout then to_string_int (ho_transferTimeoutMs transport)
        else if name = kMaxRetries then to_string_int (ho_maxAttempts transport - 1)
        else if name = kMaxRedirects then to_string_int (ho_maxRedirects transport)
        else if name = kDestinations then DestinationsString (ho_destinations transport)
        else if name = kCoalesceGap then to_dec (unat (coalesceGapBlocks (rc_cache applied)))
        else if name = kMaxRequestBytes then to_dec (unat (maxRequestBytes (rc_cache applied)))
        else v)"

definition OverridesFrom :: "string \<Rightarrow> EnvironmentLookup \<Rightarrow> string_map \<times> ConfigurationProblem list" where
  "OverridesFrom str base =
    (let (entries, problems) = fold context_entry (split_on (CHR '';'') str) ([], []);
         (applied, valueProblems) = (ConfigurationFrom (Layered entries base) :: unit ResolverConfiguration \<times> ConfigurationProblem list);
         (entries, problems) = fold judge_problem valueProblems (entries, problems)
     in (map (\<lambda>(name, v). (name, canonical_value applied name v)) entries, problems))"

definition CanonicalContextString :: "string_map \<Rightarrow> string" where
  "CanonicalContextString overrides =
    foldl (\<lambda>str entry. (if str \<noteq> [] then str @ '';'' else str) @ fst entry @ ''='' @ snd entry) [] overrides"

section \<open>The fingerprint of transport options\<close>

text \<open>\<open>address\<close> is where an interceptor object lives.\<close>

definition TransportFingerprint :: "('w interceptor \<Rightarrow> nat) \<Rightarrow> 'w HttpOptions \<Rightarrow> string" where
  "TransportFingerprint address opts =
    (let reach = ho_destinations opts; mark = (\<lambda>b c. if b then c else CHR ''-'')
     in ''connect='' @ to_string_int (ho_connectTimeoutMs opts) @ '';response='' @ to_string_int (ho_responseTimeoutMs opts) @
        '';transfer='' @ to_string_int (ho_transferTimeoutMs opts) @ '';attempts='' @ to_string_int (ho_maxAttempts opts) @
        '';redirects='' @ to_string_int (ho_maxRedirects opts) @ '';reach='' @
        [mark (dp_publicAddresses reach) (CHR ''P''), mark (dp_privateNetworks reach) (CHR ''R''), mark (dp_loopback reach) (CHR ''L''),
         mark (dp_linkLocal reach) (CHR ''K''), mark (dp_metadata reach) (CHR ''M'')] @
        '';agent='' @ ho_userAgent opts @ '';interceptor='' @
        (case ho_interceptor opts of None \<Rightarrow> ''none'' | Some i \<Rightarrow> to_dec (address i)))"

section \<open>Counts\<close>

lemma count_loop_Inr:
  assumes "int n \<le> mx"
  shows "count_loop mn mx s (int n) = Inr v \<longleftrightarrow>
    (\<forall>c\<in>set s. is_digit c) \<and> v = int (foldl (\<lambda>acc c. acc * 10 + digit_val c) n s) \<and> v \<le> mx"
  using assms
proof (induction s arbitrary: n)
  case Nil
  then show ?case by auto
next
  case (Cons c s)
  have grows: "m \<le> foldl (\<lambda>acc c. acc * 10 + digit_val c) m s" for m
  proof (induction s arbitrary: m)
    case (Cons d s)
    show ?case using Cons [of "m * 10 + digit_val d"] by simp
  qed simp
  let ?m = "n * 10 + digit_val c"
  have step: "int n * 10 + int (digit_val c) = int ?m" by simp
  show ?case
  proof (cases "int ?m \<le> mx")
    case True
    then show ?thesis using Cons.IH [OF True] by (auto simp: Let_def step simp del: of_nat_add of_nat_mult)
  next
    case False
    then show ?thesis using grows [of ?m] by (auto simp: Let_def step simp del: of_nat_add of_nat_mult)
  qed
qed

lemma ParseCount_exact:
  assumes "0 \<le> mx"
  shows "ParseCount s mn mx = Inr v \<longleftrightarrow> s \<noteq> [] \<and> (\<forall>c\<in>set s. is_digit c) \<and> v = int (dec_value s) \<and> mn \<le> v \<and> v \<le> mx"
  using count_loop_Inr [of 0 mx mn s] assms
  by (auto simp: ParseCount_def dec_value_def split: sum.splits)

lemma ParseCount_string:
  assumes "ParseCount s mn mx = Inr v" "0 \<le> mn" "mn \<le> mx"
  shows "ParseCount (to_string_int v) mn mx = Inr v" "mn \<le> v" "v \<le> mx" "to_string_int v = to_dec (nat v)"
  using assms ParseCount_exact [of mx s mn v] ParseCount_exact [of mx "to_dec (nat v)" mn v]
  by (auto simp: to_string_int_def dest: to_dec_digits)

section \<open>Destinations\<close>

definition permits_some :: "DestinationPolicy \<Rightarrow> bool" where
  "permits_some p \<longleftrightarrow> list_ex (Permits p) kAddressClasses"

lemma permit_class_some: "permits_some (permit_class c p)"
  by (cases c) (simp_all add: permits_some_def kAddressClasses_def)

lemma fold_permit_class_some: "permits_some p \<Longrightarrow> permits_some (fold permit_class cs p)"
  by (induction cs arbitrary: p) (simp_all add: permit_class_some)

lemma permit_name_some: "permit_name n p = Inr q \<Longrightarrow> permits_some q"
  by (auto simp: permit_name_def fold_permit_class_some permit_class_some split: if_splits list.splits)

lemma destinations_loop_some: "destinations_loop parts p = Inr q \<Longrightarrow> permits_some p \<or> parts \<noteq> [] \<Longrightarrow> permits_some q"
proof (induction parts arbitrary: p)
  case (Cons part parts)
  then show ?case by (auto split: sum.splits dest: permit_name_some)
qed simp

lemma ParseDestinations_some: "ParseDestinations s = Inr p \<Longrightarrow> permits_some p"
  by (auto simp: ParseDestinations_def split: if_splits dest!: destinations_loop_some)

definition canonical_destinations :: "DestinationPolicy \<Rightarrow> bool" where
  "canonical_destinations p \<longleftrightarrow> \<not> permits_some p \<or> ParseDestinations (DestinationsString p) = Inr p \<and>
     DestinationsString p \<noteq> [] \<and> list_all (\<lambda>c. c \<noteq> CHR '';'' \<and> \<not> IsBlank c) (DestinationsString p)"

lemma canonical_destinations_all:
  "\<forall>a b c d e. canonical_destinations
     \<lparr>dp_publicAddresses = a, dp_privateNetworks = b, dp_loopback = c, dp_linkLocal = d, dp_metadata = e\<rparr>"
  by code_simp

lemma destinations_roundtrip:
  assumes "ParseDestinations s = Inr p"
  shows "ParseDestinations (DestinationsString p) = Inr p" "DestinationsString p \<noteq> []"
    "\<forall>c\<in>set (DestinationsString p). c \<noteq> CHR '';'' \<and> \<not> IsBlank c"
proof -
  have "canonical_destinations p" using canonical_destinations_all by (cases p) simp
  then show "ParseDestinations (DestinationsString p) = Inr p" "DestinationsString p \<noteq> []"
    "\<forall>c\<in>set (DestinationsString p). c \<noteq> CHR '';'' \<and> \<not> IsBlank c"
    using ParseDestinations_some [OF assms] by (simp_all add: canonical_destinations_def list_all_iff)
qed

section \<open>What a lookup sets\<close>

lemma names_distinct: "distinct ConfiguredVariables" "distinct (rev ConfiguredVariables)"
  by code_simp+

lemmas names_neq [simp] = names_distinct [unfolded ConfiguredVariables_def, simplified rev.simps append.simps distinct.simps list.set, simplified]

lemma context_is_configured: "set ContextVariables \<subseteq> set ConfiguredVariables"
  by (auto simp: ContextVariables_def ConfiguredVariables_def)

lemma OptionsFrom_snd:
  "snd (OptionsFrom lookup :: 'w HttpOptions \<times> _) =
    snd (ReadInto lookup kConnectTimeout 1 3600000 10000) @ snd (ReadInto lookup kReadTimeout 1 3600000 30000) @
    snd (ReadInto lookup kTotalTimeout 1 3600000 300000) @ snd (ReadInto lookup kMaxRetries 0 100 2) @
    snd (ReadInto lookup kMaxRedirects 0 100 5) @ snd (read_destinations lookup DestinationPolicy_default)"
  by (simp add: OptionsFrom_def Let_def split_def HttpOptions_default_def)

lemma OptionsFrom_fst:
  "fst (OptionsFrom lookup) =
    \<lparr>ho_connectTimeoutMs = fst (ReadInto lookup kConnectTimeout 1 3600000 10000),
     ho_responseTimeoutMs = fst (ReadInto lookup kReadTimeout 1 3600000 30000),
     ho_transferTimeoutMs = fst (ReadInto lookup kTotalTimeout 1 3600000 300000),
     ho_maxRedirects = fst (ReadInto lookup kMaxRedirects 0 100 5),
     ho_maxAttempts = fst (ReadInto lookup kMaxRetries 0 100 2) + 1,
     ho_destinations = fst (read_destinations lookup DestinationPolicy_default), ho_userAgent = [], ho_interceptor = None\<rparr>"
  by (simp add: OptionsFrom_def Let_def split_def HttpOptions_default_def)

lemma CacheOptionsFrom_fst:
  "fst (CacheOptionsFrom lookup) = CacheOptions_default
    \<lparr>blockSize := fst (ReadBytesInto lookup kBlockSize (uint kMinBlockSize) (uint kMaxBlockSize) (blockSize CacheOptions_default)),
     budgetBytes := fst (ReadBytesInto lookup kCacheBudget (uint kMinBlockSize) (64 * 1024 * 1024 * 1024) (budgetBytes CacheOptions_default)),
     coalesceGapBlocks := ucast (fst (ReadBytesInto lookup kCoalesceGap 0 1024 (ucast (coalesceGapBlocks CacheOptions_default)))),
     maxRequestBytes := fst (ReadBytesInto lookup kMaxRequestBytes (uint kMinBlockSize) (4 * 1024 * 1024 * 1024) (maxRequestBytes CacheOptions_default))\<rparr>"
  unfolding CacheOptionsFrom_def Let_def split_def by (simp only: fst_conv)

lemma CacheOptionsFrom_snd:
  "snd (CacheOptionsFrom lookup) =
    snd (ReadBytesInto lookup kBlockSize (uint kMinBlockSize) (uint kMaxBlockSize) (blockSize CacheOptions_default)) @
    snd (ReadBytesInto lookup kCacheBudget (uint kMinBlockSize) (64 * 1024 * 1024 * 1024) (budgetBytes CacheOptions_default)) @
    snd (ReadBytesInto lookup kCoalesceGap 0 1024 (ucast (coalesceGapBlocks CacheOptions_default))) @
    snd (ReadBytesInto lookup kMaxRequestBytes (uint kMinBlockSize) (4 * 1024 * 1024 * 1024) (maxRequestBytes CacheOptions_default)) @
    adjustments (fst (CacheOptionsFrom lookup))"
  unfolding CacheOptionsFrom_def Let_def split_def by (simp only: fst_conv snd_conv)

lemma ConfigurationFrom_fst:
  "rc_transport (fst (ConfigurationFrom lookup)) = fst (OptionsFrom lookup)"
  "rc_cache (fst (ConfigurationFrom lookup)) = fst (CacheOptionsFrom lookup)"
  "rc_persistence (fst (ConfigurationFrom lookup)) = fst (PersistenceOptionsFrom lookup)"
  by (simp_all add: ConfigurationFrom_def Let_def split_def)

lemma ConfigurationFrom_snd:
  "snd (ConfigurationFrom lookup :: 'w ResolverConfiguration \<times> _) =
    snd (OptionsFrom lookup :: 'w HttpOptions \<times> _) @ snd (CacheOptionsFrom lookup) @ snd (PersistenceOptionsFrom lookup)"
  by (simp add: ConfigurationFrom_def Let_def split_def)

lemma Problem_fields [simp]:
  "cp_variable (Problem n v r) = n" "\<not> cp_adjusted (Problem n v r)"
  "cp_variable (Adjusted n v r) = n" "cp_adjusted (Adjusted n v r)"
  by (simp_all add: Problem_def Adjusted_def)

text \<open>Whether a problem list refuses the value of a variable.\<close>

definition refuses :: "ConfigurationProblem list \<Rightarrow> string \<Rightarrow> bool" where
  "refuses problems n \<longleftrightarrow> list_ex (\<lambda>p. cp_variable p = n \<and> \<not> cp_adjusted p) problems"

lemma refuses_append [simp]: "refuses (a @ b) n \<longleftrightarrow> refuses a n \<or> refuses b n"
  by (simp add: refuses_def)

lemma refuses_Nil [simp]: "\<not> refuses [] n"
  by (simp add: refuses_def)

definition parses :: "string \<Rightarrow> int \<Rightarrow> int \<Rightarrow> bool" where
  "parses s mn mx \<longleftrightarrow> (\<exists>v. ParseCount s mn mx = Inr v)"

lemma refuses_ReadInto: "refuses (snd (ReadInto lookup m mn mx t)) n \<longleftrightarrow> m = n \<and> (\<exists>s. lookup n = Some s \<and> \<not> parses s mn mx)"
  by (auto simp: ReadInto_def refuses_def parses_def split: option.splits sum.splits)

lemma refuses_ReadBytesInto:
  "refuses (snd (ReadBytesInto lookup m mn mx t)) n \<longleftrightarrow> m = n \<and> (\<exists>s. lookup n = Some s \<and> \<not> parses s mn mx)"
  by (auto simp: ReadBytesInto_def refuses_def parses_def split: option.splits sum.splits)

lemma refuses_destinations:
  "refuses (snd (read_destinations lookup t)) n \<longleftrightarrow>
    n = kDestinations \<and> (\<exists>s. lookup n = Some s \<and> (\<nexists>p. ParseDestinations s = Inr p))"
  by (auto simp: read_destinations_def refuses_def split: option.splits sum.splits)

lemma refuses_adjustments: "\<not> refuses (adjustments opts) n"
  by (simp add: adjustments_def refuses_def Let_def)

lemma refuses_persistence: "n \<in> set ContextVariables \<Longrightarrow> \<not> refuses (snd (PersistenceOptionsFrom lookup)) n"
  by (auto simp: PersistenceOptionsFrom_def Let_def split_def refuses_ReadBytesInto ContextVariables_def refuses_def [of "[x]" for x]
      split: option.splits if_splits)

lemmas refuses_simps = refuses_ReadInto refuses_ReadBytesInto refuses_destinations refuses_adjustments refuses_persistence

text \<open>The canonical spelling of a value a context may set, if it is not refused.\<close>

definition count_limits :: "string \<Rightarrow> int \<times> int" where
  "count_limits n =
    (if n = kMaxRetries \<or> n = kMaxRedirects then (0, 100) else if n = kCoalesceGap then (0, 1024)
     else if n = kMaxRequestBytes then (4096, 4 * 1024 * 1024 * 1024) else (1, 3600000))"

definition canonical :: "string \<Rightarrow> string \<Rightarrow> string option" where
  "canonical n s =
    (if n = kDestinations then (case ParseDestinations s of Inl _ \<Rightarrow> None | Inr p \<Rightarrow> Some (DestinationsString p))
     else case ParseCount s (fst (count_limits n)) (snd (count_limits n)) of Inl _ \<Rightarrow> None | Inr v \<Rightarrow> Some (to_string_int v))"

lemma canonical_None:
  "canonical n s = None \<longleftrightarrow>
    (if n = kDestinations then \<nexists>p. ParseDestinations s = Inr p else \<not> parses s (fst (count_limits n)) (snd (count_limits n)))"
  by (auto simp: canonical_def parses_def split: sum.splits)

lemma uint_kMinBlockSize: "uint kMinBlockSize = 4096"
  by (simp add: kMinBlockSize_def)

lemma refused_iff:
  assumes "n \<in> set ContextVariables" "lookup n = Some s"
  shows "refuses (snd (ConfigurationFrom lookup :: 'w ResolverConfiguration \<times> _)) n \<longleftrightarrow> canonical n s = None"
  using assms(1)
  by (auto simp: ConfigurationFrom_snd OptionsFrom_snd CacheOptionsFrom_snd refuses_simps canonical_None count_limits_def
      uint_kMinBlockSize assms(2) ContextVariables_def)

lemma to_dec_word:
  assumes "0 \<le> v" "v < 2 ^ LENGTH('a)"
  shows "to_dec (unat (word_of_int v :: 'a :: len word)) = to_string_int v"
  using assms by (simp add: to_string_int_def unat_eq_nat_uint uint_word_of_int take_bit_int_eq_self)

lemma gap_word:
  assumes "ParseCount s 0 1024 = Inr v"
  shows "to_dec (unat (ucast (word_of_int v :: u64) :: u32)) = to_string_int v"
proof -
  note v = ParseCount_string(2,3) [OF assms, simplified]
  have "(ucast (word_of_int v :: u64) :: u32) = word_of_int v"
    using v by (simp add: unsigned_of_int take_bit_int_eq_self)
  then show ?thesis using v by (simp add: to_dec_word)
qed

lemma request_word:
  assumes "ParseCount s 4096 4294967296 = Inr v"
  shows "to_dec (unat (word_of_int v :: u64)) = to_string_int v"
  using ParseCount_string(2,3) [OF assms] by (simp add: to_dec_word)

lemma canonical_value_eq:
  assumes "n \<in> set ContextVariables" "lookup n = Some s" "canonical n s = Some c"
  shows "canonical_value (fst (ConfigurationFrom lookup)) n x = c"
  using assms(1) unfolding ContextVariables_def list.set insert_iff empty_iff
  by (elim disjE FalseE; use assms(2,3) in \<open>auto simp: canonical_value_def ConfigurationFrom_fst OptionsFrom_fst CacheOptionsFrom_fst
      ReadInto_def ReadBytesInto_def read_destinations_def canonical_def count_limits_def uint_kMinBlockSize
      gap_word request_word split: sum.splits\<close>)

lemma canonical_again:
  assumes "canonical n s = Some c"
  shows "canonical n c = Some c" "c \<noteq> []" "\<forall>x\<in>set c. x \<noteq> CHR '';'' \<and> \<not> IsBlank x"
proof -
  have "canonical n c = Some c \<and> c \<noteq> [] \<and> (\<forall>x\<in>set c. x \<noteq> CHR '';'' \<and> \<not> IsBlank x)"
  proof (cases "n = kDestinations")
    case True
    then obtain p where "ParseDestinations s = Inr p" "c = DestinationsString p"
      using assms by (auto simp: canonical_def split: sum.splits)
    then show ?thesis using destinations_roundtrip [of s p] True by (simp add: canonical_def)
  next
    case False
    let ?l = "fst (count_limits n)" and ?h = "snd (count_limits n)"
    obtain v where v: "ParseCount s ?l ?h = Inr v" "c = to_string_int v"
      using assms False by (auto simp: canonical_def split: sum.splits)
    have "0 \<le> ?l" "?l \<le> ?h" by (simp_all add: count_limits_def)
    note facts = ParseCount_string [OF v(1) this]
    have "x \<noteq> CHR '';'' \<and> \<not> IsBlank x" if "x \<in> set c" for x
      using to_dec_digits [of x "nat v"] that v(2) facts(4) by (auto simp: is_digit_def IsBlank_def)
    then show ?thesis using facts False v(2) by (simp add: canonical_def)
  qed
  then show "canonical n c = Some c" "c \<noteq> []" "\<forall>x\<in>set c. x \<noteq> CHR '';'' \<and> \<not> IsBlank x" by simp_all
qed

section \<open>Contexts\<close>

lemma judge_entries:
  "fst (fold judge_problem problems (entries, ps)) = filter (\<lambda>e. \<not> refuses problems (fst e)) entries"
proof (induction problems arbitrary: entries ps)
  case (Cons p problems)
  have step: "fst (judge_problem p (entries, ps)) = filter (\<lambda>e. \<not> (cp_variable p = fst e \<and> \<not> cp_adjusted p)) entries"
  proof (cases "map_of entries (cp_variable p) = None \<or> cp_adjusted p")
    case True
    then show ?thesis by (auto simp: judge_problem_def map_of_eq_None_iff intro!: filter_True [symmetric])
  next
    case False
    then show ?thesis by (auto simp: judge_problem_def map_erase_def intro: filter_cong)
  qed
  obtain e q where eq: "judge_problem p (entries, ps) = (e, q)" by fastforce
  show ?case using step Cons [of e q] by (auto simp: eq refuses_def filter_filter intro!: filter_cong)
qed (simp add: refuses_def)

definition key_sorted :: "string_map \<Rightarrow> bool" where
  "key_sorted entries \<longleftrightarrow> sorted_wrt (<) (map fst entries)"

definition context_keys :: "string_map \<Rightarrow> bool" where
  "context_keys entries \<longleftrightarrow> key_sorted entries \<and> fst ` set entries \<subseteq> set ContextVariables"

lemma set_map_set: "fst ` set (map_set k v entries) = insert k (fst ` set entries)"
  by (induction k v entries rule: map_set.induct) auto

lemma map_set_sorted: "key_sorted entries \<Longrightarrow> key_sorted (map_set k v entries)"
  unfolding key_sorted_def
proof (induction k v entries rule: map_set.induct)
  case (2 k v k' v' rest)
  have keys: "set (map fst (map_set k v rest)) = insert k (set (map fst rest))" by (simp add: set_map_set)
  show ?case
  proof (cases "k < k' \<or> k = k'")
    case True
    then show ?thesis using 2 by auto
  next
    case False
    then show ?thesis using 2 keys by (auto simp del: set_map)
  qed
qed simp

lemma Contains_iff: "Contains names n \<longleftrightarrow> n \<in> set names"
  by (auto simp: Contains_def list_ex_iff)

lemma context_entry_keys: "context_keys (fst st) \<Longrightarrow> context_keys (fst (context_entry part st))"
  by (auto simp: context_entry_def context_keys_def Let_def split_def map_set_sorted set_map_set Contains_iff split: option.splits)

lemma context_entries_keys: "context_keys (fst st) \<Longrightarrow> context_keys (fst (fold context_entry parts st))"
  by (induction parts arbitrary: st) (simp_all add: context_entry_keys)

section \<open>Reading a canonical context\<close>

definition entry_string :: "string \<times> string \<Rightarrow> string" where
  "entry_string e = fst e @ ''='' @ snd e"

lemma foldl_entries:
  "str \<noteq> [] \<Longrightarrow>
   foldl (\<lambda>str entry. (if str \<noteq> [] then str @ '';'' else str) @ fst entry @ ''='' @ snd entry) str es =
     str @ concat (map (\<lambda>e. CHR '';'' # entry_string e) es)"
  by (induction es arbitrary: str) (simp_all add: entry_string_def)

lemma Canonical_Cons:
  "CanonicalContextString (e # es) = entry_string e @ concat (map (\<lambda>e. CHR '';'' # entry_string e) es)"
  using foldl_entries [of "entry_string e" es] by (simp add: CanonicalContextString_def entry_string_def)

lemma split_on_sep: "c \<notin> set s \<Longrightarrow> split_on c (s @ c # xs) = s # split_on c xs"
  by (induction s) auto

lemma split_on_end: "c \<notin> set s \<Longrightarrow> split_on c s = [s]"
  by (induction s) auto

lemma split_on_joined:
  "c \<notin> set s \<Longrightarrow> \<forall>e\<in>set es. c \<notin> set (g e) \<Longrightarrow> split_on c (s @ concat (map (\<lambda>e. c # g e) es)) = s # map g es"
  by (induction es arbitrary: s) (simp_all add: split_on_sep split_on_end)

definition canonical_entry :: "string \<times> string \<Rightarrow> bool" where
  "canonical_entry e \<longleftrightarrow> fst e \<in> set ContextVariables \<and> canonical (fst e) (snd e) = Some (snd e)"

lemma name_chars: "\<forall>n\<in>set ContextVariables. n \<noteq> [] \<and> (\<forall>x\<in>set n. x \<noteq> CHR '';'' \<and> x \<noteq> CHR ''='' \<and> \<not> IsBlank x)"
  by code_simp

lemma Config_Trim_id: "\<forall>x\<in>set s. \<not> IsBlank x \<Longrightarrow> Config_Trim s = s"
  by (cases "s = []") (simp_all add: Config_Trim_def trim_by_id)

lemma canonical_entry_chars:
  assumes "canonical_entry e"
  shows "CHR '';'' \<notin> set (entry_string e)" "Config_Trim (entry_string e) = entry_string e"
    "find_index (\<lambda>c. c = CHR ''='') (entry_string e) = Some (length (fst e))"
    "Config_Trim (fst e) = fst e" "Config_Trim (snd e) = snd e"
proof -
  have n: "\<forall>x\<in>set (fst e). x \<noteq> CHR '';'' \<and> x \<noteq> CHR ''='' \<and> \<not> IsBlank x"
    using assms name_chars by (auto simp: canonical_entry_def)
  have v: "\<forall>x\<in>set (snd e). x \<noteq> CHR '';'' \<and> \<not> IsBlank x"
    using assms canonical_again(3) unfolding canonical_entry_def by blast
  show "CHR '';'' \<notin> set (entry_string e)" using n v by (auto simp: entry_string_def)
  show "Config_Trim (entry_string e) = entry_string e" using n v by (intro Config_Trim_id) (auto simp: entry_string_def IsBlank_def)
  show "find_index (\<lambda>c. c = CHR ''='') (entry_string e) = Some (length (fst e))"
    using n by (simp add: entry_string_def find_index_append)
  show "Config_Trim (fst e) = fst e" "Config_Trim (snd e) = snd e" using n v by (simp_all add: Config_Trim_id)
qed

lemma map_set_snoc: "\<forall>e\<in>set es. fst e < k \<Longrightarrow> map_set k v es = es @ [(k, v)]"
  by (induction es) auto

lemma context_entry_canonical:
  assumes "canonical_entry e" "\<forall>d\<in>set es. fst d < fst e"
  shows "context_entry (entry_string e) (es, ps) = (es @ [e], ps)"
proof -
  have "fst e \<in> set ContextVariables" using assms(1) by (simp add: canonical_entry_def)
  moreover have "entry_string e \<noteq> []" by (simp add: entry_string_def)
  moreover have "map_of es (fst e) = None" using assms(2) by (auto simp: map_of_eq_None_iff)
  moreover have "take (length (fst e)) (entry_string e) = fst e" "drop (Suc (length (fst e))) (entry_string e) = snd e"
    by (simp_all add: entry_string_def)
  ultimately show ?thesis
    using context_is_configured assms(2)
    by (auto simp: context_entry_def canonical_entry_chars [OF assms(1)] Contains_iff map_set_snoc)
qed

lemma context_entries_canonical:
  assumes "\<forall>e\<in>set es. canonical_entry e" "key_sorted (ds @ es)"
  shows "fold context_entry (map entry_string es) (ds, ps) = (ds @ es, ps)"
  using assms
proof (induction es arbitrary: ds)
  case (Cons e es)
  then have "\<forall>d\<in>set ds. fst d < fst e" by (simp add: key_sorted_def sorted_wrt_append)
  then show ?case using Cons.IH [of "ds @ [e]"] Cons.prems by (simp add: context_entry_canonical)
qed simp

lemma read_canonical:
  assumes "\<forall>e\<in>set es. canonical_entry e" "key_sorted es"
  shows "fold context_entry (split_on (CHR '';'') (CanonicalContextString es)) ([], []) = (es, [])"
proof (cases es)
  case Nil
  then show ?thesis by (simp add: CanonicalContextString_def context_entry_def Config_Trim_def)
next
  case (Cons e fs)
  have "split_on (CHR '';'') (CanonicalContextString es) = map entry_string es"
    using assms(1) split_on_joined [of "CHR '';''" "entry_string e" fs entry_string] by (simp add: Cons Canonical_Cons canonical_entry_chars)
  then show ?thesis using context_entries_canonical [of es "[]" "[]"] assms by simp
qed

definition context_parsed :: "string \<Rightarrow> string_map" where
  "context_parsed str = fst (fold context_entry (split_on (CHR '';'') str) ([], []))"

lemma context_parsed_keys: "context_keys (context_parsed str)"
  unfolding context_parsed_def by (rule context_entries_keys) (simp add: context_keys_def key_sorted_def)

lemma key_sorted_map_of: "key_sorted es \<Longrightarrow> (n, v) \<in> set es \<Longrightarrow> map_of es n = Some v"
  by (rule map_of_is_SomeI) (auto simp: key_sorted_def strict_sorted_iff)

lemma OverridesFrom_fst:
  "fst (OverridesFrom str base) =
    map (\<lambda>(n, v). (n, the (canonical n v))) (filter (\<lambda>(n, v). canonical n v \<noteq> None) (context_parsed str))"
proof -
  let ?E = "context_parsed str"
  let ?C = "ConfigurationFrom (Layered ?E base) :: unit ResolverConfiguration \<times> ConfigurationProblem list"
  have keys: "n \<in> set ContextVariables" "Layered ?E base n = Some v" if "(n, v) \<in> set ?E" for n v
    using that context_parsed_keys [of str] by (auto simp: context_keys_def Layered_def key_sorted_map_of image_subset_iff)
  have val: "canonical_value (fst ?C) n v = c" if "(n, v) \<in> set ?E" "canonical n v = Some c" for n v c
    using canonical_value_eq [where lookup = "Layered ?E base", OF keys that(2)] that(1) by simp
  have "fst (OverridesFrom str base) = map (\<lambda>(n, v). (n, canonical_value (fst ?C) n v)) (filter (\<lambda>e. \<not> refuses (snd ?C) (fst e)) ?E)"
    by (simp add: OverridesFrom_def Let_def split_def judge_entries [where ps = "snd (fold context_entry (split_on (CHR '';'') str) ([], []))",
      symmetric] context_parsed_def prod.collapse)
  also have "filter (\<lambda>e. \<not> refuses (snd ?C) (fst e)) ?E = filter (\<lambda>(n, v). canonical n v \<noteq> None) ?E"
    using keys by (auto simp: refused_iff intro!: filter_cong)
  also have "map (\<lambda>(n, v). (n, canonical_value (fst ?C) n v)) \<dots> = map (\<lambda>(n, v). (n, the (canonical n v))) \<dots>"
    by (auto simp: val)
  finally show ?thesis .
qed

lemma OverridesFrom_canonical:
  "\<forall>e\<in>set (fst (OverridesFrom str base)). canonical_entry e" "key_sorted (fst (OverridesFrom str base))"
proof -
  show "\<forall>e\<in>set (fst (OverridesFrom str base)). canonical_entry e"
    using context_parsed_keys [of str] canonical_again(1)
    by (auto simp: OverridesFrom_fst canonical_entry_def context_keys_def image_subset_iff)
  have "map fst (fst (OverridesFrom str base)) = map fst (filter (\<lambda>(n, v). canonical n v \<noteq> None) (context_parsed str))"
    by (simp add: OverridesFrom_fst split_def)
  then show "key_sorted (fst (OverridesFrom str base))"
    using context_parsed_keys [of str] by (simp add: key_sorted_def context_keys_def sorted_wrt_map sorted_wrt_filter)
qed

lemma OverridesFrom_snd:
  "fold context_entry (split_on (CHR '';'') str) ([], []) = (entries, ps) \<Longrightarrow>
   snd (OverridesFrom str base) =
     snd (fold judge_problem (snd (ConfigurationFrom (Layered entries base) :: unit ResolverConfiguration \<times> _)) (entries, ps))"
  by (simp add: OverridesFrom_def Let_def split_def)

lemma judge_problems_adjusted:
  assumes "list_all cp_adjusted qs" "\<forall>e\<in>set entries. \<not> refuses problems (fst e)"
  shows "list_all cp_adjusted (snd (fold judge_problem problems (entries, qs)))"
  using assms
proof (induction problems arbitrary: qs)
  case (Cons p problems)
  show ?case
  proof (cases "map_of entries (cp_variable p) = None")
    case True
    then show ?thesis using Cons by (simp add: judge_problem_def refuses_def)
  next
    case False
    then have "cp_variable p \<in> fst ` set entries" by (simp add: map_of_eq_None_iff)
    then have "cp_adjusted p" using Cons.prems(2) by (auto simp: refuses_def)
    then show ?thesis using Cons False by (simp add: judge_problem_def refuses_def context_problem_def)
  qed
qed simp

text \<open>
  C26: what a context carries is canonical. Reading its canonical string again, over whatever
  environment, gives the same settings, and nothing of it is refused: two context strings
  that mean the same settings are one context.
\<close>

theorem context_canonical:
  "fst (OverridesFrom (CanonicalContextString (fst (OverridesFrom str base))) base') = fst (OverridesFrom str base) \<and>
   list_all cp_adjusted (snd (OverridesFrom (CanonicalContextString (fst (OverridesFrom str base))) base'))"
proof -
  let ?E = "fst (OverridesFrom str base)"
  let ?C = "ConfigurationFrom (Layered ?E base') :: unit ResolverConfiguration \<times> ConfigurationProblem list"
  note ok = OverridesFrom_canonical [of str base]
  have parsed: "context_parsed (CanonicalContextString ?E) = ?E" by (simp add: context_parsed_def read_canonical [OF ok])
  have kept: "canonical n v = Some v" if "(n, v) \<in> set ?E" for n v using ok(1) that by (auto simp: canonical_entry_def)
  have "fst (OverridesFrom (CanonicalContextString ?E) base') = ?E"
    unfolding OverridesFrom_fst [of "CanonicalContextString ?E"] parsed using kept
    by (subst filter_True) (auto intro!: map_idI)
  moreover have "\<not> refuses (snd ?C) (fst e)" if "e \<in> set ?E" for e
  proof -
    have "Layered ?E base' (fst e) = Some (snd e)" using that key_sorted_map_of [OF ok(2), of "fst e" "snd e"] by (simp add: Layered_def)
    then show ?thesis using that ok(1) kept by (cases e) (auto simp: refused_iff canonical_entry_def)
  qed
  then have "list_all cp_adjusted (snd (OverridesFrom (CanonicalContextString ?E) base'))"
    using judge_problems_adjusted [of "[]" ?E "snd ?C"] by (simp add: OverridesFrom_snd [OF read_canonical [OF ok]])
  ultimately show ?thesis by simp
qed

text \<open>
  C27: a context changes nothing that stages share. Whatever its string says, the block size,
  the memory budget, the persistent store, the user agent and the interceptor are those of
  the environment.
\<close>

theorem context_keeps_shared:
  "(let c = fst (ConfigurationFrom (Layered (fst (OverridesFrom str base)) base)); b = fst (ConfigurationFrom base)
    in blockSize (rc_cache c) = blockSize (rc_cache b) \<and> budgetBytes (rc_cache c) = budgetBytes (rc_cache b) \<and>
       bypassThresholdBytes (rc_cache c) = bypassThresholdBytes (rc_cache b) \<and> rc_persistence c = rc_persistence b \<and>
       ho_userAgent (rc_transport c) = ho_userAgent (rc_transport b) \<and> ho_interceptor (rc_transport c) = ho_interceptor (rc_transport b))"
proof -
  let ?L = "Layered (fst (OverridesFrom str base)) base"
  have "?L n = base n" if "n \<notin> set ContextVariables" for n
    using OverridesFrom_canonical(1) [of str base] that
    by (auto simp: Layered_def canonical_entry_def split: option.splits dest!: map_of_SomeD)
  then have eq: "?L kBlockSize = base kBlockSize" "?L kCacheBudget = base kCacheBudget"
    "?L kPersistentDirectory = base kPersistentDirectory" "?L kPersistentBudget = base kPersistentBudget"
    by (simp_all add: ContextVariables_def)
  show ?thesis
    by (simp add: Let_def ConfigurationFrom_fst OptionsFrom_fst CacheOptionsFrom_fst PersistenceOptionsFrom_def ReadBytesInto_def eq)
qed

section \<open>Bounds\<close>

lemma ReadInto_bounds:
  assumes "mn \<le> t" "t \<le> mx" "0 \<le> mn"
  shows "mn \<le> fst (ReadInto lookup n mn mx t) \<and> fst (ReadInto lookup n mn mx t) \<le> mx"
  using assms ParseCount_string(2,3) by (auto simp: ReadInto_def split: option.splits sum.splits)

lemma ReadBytesInto_bounds:
  assumes "mn \<le> uint t" "uint t \<le> mx" "0 \<le> mn" "mx < 2 ^ 64"
  shows "mn \<le> uint (fst (ReadBytesInto lookup n mn mx t)) \<and> uint (fst (ReadBytesInto lookup n mn mx t)) \<le> mx"
proof (cases "lookup n")
  case (Some s)
  show ?thesis
  proof (cases "ParseCount s mn mx")
    case (Inr v)
    then have "mn \<le> v" "v \<le> mx" using ParseCount_string(2,3) [OF Inr] assms by auto
    then show ?thesis using assms Some Inr by (simp add: ReadBytesInto_def uint_word_of_int take_bit_int_eq_self)
  qed (use assms Some in \<open>simp add: ReadBytesInto_def\<close>)
qed (use assms in \<open>simp add: ReadBytesInto_def\<close>)

lemma transport_bounds:
  fixes lookup
  defines "t \<equiv> fst (OptionsFrom lookup)"
  shows "1 \<le> ho_connectTimeoutMs t \<and> ho_connectTimeoutMs t \<le> 3600000" "1 \<le> ho_responseTimeoutMs t \<and> ho_responseTimeoutMs t \<le> 3600000"
    "1 \<le> ho_transferTimeoutMs t \<and> ho_transferTimeoutMs t \<le> 3600000" "1 \<le> ho_maxAttempts t \<and> ho_maxAttempts t \<le> 101"
    "0 \<le> ho_maxRedirects t \<and> ho_maxRedirects t \<le> 100" "permits_some (ho_destinations t)"
proof -
  show "permits_some (ho_destinations t)"
    using ParseDestinations_some
    by (auto simp: t_def OptionsFrom_fst read_destinations_def permits_some_def kAddressClasses_def DestinationPolicy_default_def
        split: option.splits sum.splits)
qed (simp_all add: t_def OptionsFrom_fst ReadInto_bounds)

lemma cache_bounds:
  fixes lookup
  defines "k \<equiv> fst (CacheOptionsFrom lookup)"
  shows "kMinBlockSize \<le> blockSize k \<and> blockSize k \<le> kMaxBlockSize" "kMinBlockSize \<le> budgetBytes k"
    "kMinBlockSize \<le> maxRequestBytes k \<and> maxRequestBytes k \<le> 4 * 1024 * 1024 * 1024" "coalesceGapBlocks k \<le> 1024"
proof -
  show "kMinBlockSize \<le> blockSize k \<and> blockSize k \<le> kMaxBlockSize"
    using ReadBytesInto_bounds [of "uint kMinBlockSize" "blockSize CacheOptions_default" "uint kMaxBlockSize" lookup kBlockSize]
    by (simp add: k_def CacheOptionsFrom_fst word_le_def CacheOptions_default_def cache_constants)
  show "kMinBlockSize \<le> budgetBytes k"
    using ReadBytesInto_bounds [of "uint kMinBlockSize" "budgetBytes CacheOptions_default" "64 * 1024 * 1024 * 1024" lookup kCacheBudget]
    by (simp add: k_def CacheOptionsFrom_fst word_le_def CacheOptions_default_def cache_constants)
  show "kMinBlockSize \<le> maxRequestBytes k \<and> maxRequestBytes k \<le> 4 * 1024 * 1024 * 1024"
    using ReadBytesInto_bounds [of "uint kMinBlockSize" "maxRequestBytes CacheOptions_default" "4 * 1024 * 1024 * 1024" lookup kMaxRequestBytes]
    by (simp add: k_def CacheOptionsFrom_fst word_le_def CacheOptions_default_def cache_constants)
  have "uint (fst (ReadBytesInto lookup kCoalesceGap 0 1024 1)) \<le> 1024"
    using ReadBytesInto_bounds [of 0 1 1024 lookup kCoalesceGap] by simp
  then show "coalesceGapBlocks k \<le> 1024"
    by (simp add: k_def CacheOptionsFrom_fst word_le_def CacheOptions_default_def cache_constants unsigned_ucast_eq take_bit_int_eq_self)
qed

lemma persistence_bounds: "kMinPersistentBudgetBytes \<le> dc_budgetBytes (fst (PersistenceOptionsFrom lookup))"
  using ReadBytesInto_bounds [of "uint kMinPersistentBudgetBytes" "dc_budgetBytes DiskCacheOptions_default" "1024 * 1024 * 1024 * 1024"
      lookup kPersistentBudget]
  by (simp add: PersistenceOptionsFrom_def Let_def split_def word_le_def DiskCacheOptions_default_def kMinPersistentBudgetBytes_def
      kDefaultPersistentBudgetBytes_def)

text \<open>
  C28: whatever the environment says, every bound on the work of a request is in force:
  deadlines are positive and at most an hour, there are between one and 101 attempts and at
  most 100 redirects, at least one class of addresses is permitted, and block sizes, gaps
  and request sizes lie inside the limits of the cache.
\<close>

theorem ConfigurationFrom_bounds:
  "(let c = fst (ConfigurationFrom lookup); t = rc_transport c; k = rc_cache c
    in 1 \<le> ho_connectTimeoutMs t \<and> ho_connectTimeoutMs t \<le> 3600000 \<and> 1 \<le> ho_responseTimeoutMs t \<and> ho_responseTimeoutMs t \<le> 3600000 \<and>
       1 \<le> ho_transferTimeoutMs t \<and> ho_transferTimeoutMs t \<le> 3600000 \<and> 1 \<le> ho_maxAttempts t \<and> ho_maxAttempts t \<le> 101 \<and>
       0 \<le> ho_maxRedirects t \<and> ho_maxRedirects t \<le> 100 \<and> permits_some (ho_destinations t) \<and>
       kMinBlockSize \<le> blockSize k \<and> blockSize k \<le> kMaxBlockSize \<and> kMinBlockSize \<le> budgetBytes k \<and>
       kMinBlockSize \<le> maxRequestBytes k \<and> maxRequestBytes k \<le> 4 * 1024 * 1024 * 1024 \<and> coalesceGapBlocks k \<le> 1024 \<and>
       kMinPersistentBudgetBytes \<le> dc_budgetBytes (rc_persistence c))"
  using cache_bounds [of lookup] by (simp add: Let_def ConfigurationFrom_fst transport_bounds persistence_bounds)

section \<open>Fingerprints\<close>

lemma append_sep_inject:
  assumes "c \<notin> set s" "c \<notin> set s'"
  shows "s @ c # r = s' @ c # r' \<longleftrightarrow> s = s' \<and> r = r'"
proof
  have sep: "takeWhile (\<lambda>x. x \<noteq> c) (q @ c # w) = q" if "c \<notin> set q" for q w using that by (induction q) auto
  assume eq: "s @ c # r = s' @ c # r'"
  then have "s = s'" using sep [OF assms(1), of r] sep [OF assms(2), of r'] by simp
  then show "s = s' \<and> r = r'" using eq by simp
qed simp

lemma append_last_sep_inject:
  assumes "c \<notin> set r" "c \<notin> set r'"
  shows "s @ c # r = s' @ c # r' \<longleftrightarrow> s = s' \<and> r = r'"
proof -
  have "s @ c # r = s' @ c # r' \<longleftrightarrow> rev r @ c # rev s = rev r' @ c # rev s'" by (metis rev_append rev_rev_ident rev.simps(2) append_assoc append_Cons append_Nil)
  then show ?thesis using append_sep_inject [of c "rev r" "rev r'"] assms by auto
qed

lemma to_string_int_chars: "c \<in> set (to_string_int v) \<Longrightarrow> is_digit c \<or> c = CHR ''-''"
  by (auto simp: to_string_int_def split: if_splits dest: to_dec_digits)

lemma to_string_int_inject [simp]: "to_string_int v = to_string_int w \<longleftrightarrow> v = w"
proof -
  have "to_dec n \<noteq> CHR ''-'' # s" for n s using to_dec_digits [of "CHR ''-''" n] by (auto simp: is_digit_def)
  then show ?thesis by (auto simp: to_string_int_def split: if_splits) (metis to_dec_inject)+
qed

definition interceptor_name :: "('w interceptor \<Rightarrow> nat) \<Rightarrow> 'w HttpOptions \<Rightarrow> string" where
  "interceptor_name address opts = (case ho_interceptor opts of None \<Rightarrow> ''none'' | Some i \<Rightarrow> to_dec (address i))"

lemma dec_plain: "CHR '';'' \<notin> set (to_dec n)"
  using to_dec_digits [of "CHR '';''" n] by (auto simp: is_digit_def)

lemma none_not_dec: "to_dec n \<noteq> ''none''"
  using to_dec_digits [of "CHR ''n''" n] by (auto simp: is_digit_def)

text \<open>
  The fingerprint of transport options is exact: two sets of options have the same
  fingerprint exactly when they agree in every setting and their interceptors are absent or
  the same object.
\<close>

lemma TransportFingerprint_iff:
  "TransportFingerprint address a = TransportFingerprint address b \<longleftrightarrow>
    ho_connectTimeoutMs a = ho_connectTimeoutMs b \<and> ho_responseTimeoutMs a = ho_responseTimeoutMs b \<and>
    ho_transferTimeoutMs a = ho_transferTimeoutMs b \<and> ho_maxAttempts a = ho_maxAttempts b \<and> ho_maxRedirects a = ho_maxRedirects b \<and>
    DestinationPolicy_eq (ho_destinations a) (ho_destinations b) \<and> ho_userAgent a = ho_userAgent b \<and>
    map_option address (ho_interceptor a) = map_option address (ho_interceptor b)"
proof -
  have plain: "CHR '';'' \<notin> set (to_string_int v)" for v using to_string_int_chars [of "CHR '';''" v] by (auto simp: is_digit_def)
  have name: "CHR '';'' \<notin> set (interceptor_name address o1)" for o1
    by (simp add: interceptor_name_def dec_plain split: option.split)
  have tail: "s @ '';interceptor='' @ interceptor_name address a = s' @ '';interceptor='' @ interceptor_name address b \<longleftrightarrow>
      s = s' \<and> interceptor_name address a = interceptor_name address b" for s s'
    using append_last_sep_inject [of "CHR '';''" "''interceptor='' @ interceptor_name address a" "''interceptor='' @ interceptor_name address b" s s']
      name by simp
  have names: "interceptor_name address a = interceptor_name address b \<longleftrightarrow>
      map_option address (ho_interceptor a) = map_option address (ho_interceptor b)"
    using none_not_dec by (auto simp: interceptor_name_def split: option.splits) (metis none_not_dec)+
  show ?thesis
    using tail [of "ho_userAgent a" "ho_userAgent b"]
    by (auto simp: TransportFingerprint_def Let_def interceptor_name_def [symmetric] append_sep_inject plain names DestinationPolicy_eq_def)
qed

section \<open>A gap judged against the wrong ceiling\<close>

text \<open>
  The environment permits requests of 64 MiB. A context whose own request ceiling is
  refused and whose gap of 200 blocks fits under the environment's is told that its gap was
  capped, while the gap in force is 200: the gap was judged against the built-in ceiling.
\<close>

theorem context_gap_misjudged:
  "(let base = Layered [(kMaxRequestBytes, ''67108864'')] (\<lambda>_. None);
        (entries, problems) = OverridesFrom (kCoalesceGap @ ''=200;'' @ kMaxRequestBytes @ ''=x'') base;
        cache = rc_cache (fst (ConfigurationFrom (Layered entries base)))
    in list_ex (\<lambda>p. cp_variable p = kCoalesceGap \<and> cp_adjusted p) problems \<and> entries = [(kCoalesceGap, ''200'')] \<and>
       coalesceGapBlocks cache = 200 \<and> coalesceGapBlocks (Normalized cache) = 200)"
  by code_simp

end
