(* ===== verification/RangeMath.thy ===== *)
theory RangeMath
  imports Diagnostics
begin

text \<open>
  \<open>libs/usd-asset-io\<close>: the offset and size arithmetic every backend resolves a
  request through (\<open>RangeMath.h\<close>, \<open>RangeMath.cpp\<close>), on 64-bit words. \<open>std::size_t\<close> has
  64 bits, as on every platform the project builds for.
\<close>

datatype ReadRangeOutcome = Empty | Transfer | Overflow

record ReadRange =
  outcome :: ReadRangeOutcome
  range_offset :: u64
  range_length :: u64

definition ResolveReadRange :: "u64 \<Rightarrow> u64 \<Rightarrow> u64 \<Rightarrow> ReadRange" where
  "ResolveReadRange offset sz assetSize =
    (let range = \<lparr>outcome = Empty, range_offset = offset, range_length = 0\<rparr>;
         wanted = sz
     in if offset > u64_max - wanted then range\<lparr>outcome := Overflow\<rparr>
        else if wanted = 0 \<or> offset \<ge> assetSize then range\<lparr>outcome := Empty\<rparr>
        else let remaining = assetSize - offset;
                 available = (if remaining < wanted then remaining else wanted)
             in range\<lparr>outcome := Transfer, range_length := available\<rparr>)"

definition OverflowStatus :: "u64 \<Rightarrow> u64 \<Rightarrow> Status" where
  "OverflowStatus offset sz =
    WithRange offset sz (Status_Error InvalidArgument
      (''read offset '' @ to_dec (unat offset) @ '' plus length '' @ to_dec (unat sz) @
       '' overflows a 64-bit byte offset''))"

definition ShortReadStatus :: "u64 \<Rightarrow> u64 \<Rightarrow> u64 \<Rightarrow> string \<Rightarrow> Status" where
  "ShortReadStatus offset expected actual identifier =
    WithRange offset expected (Status_Error InvalidResponse
      (''transfer stopped below end of asset (requested '' @ to_dec (unat expected) @
       '' bytes at offset '' @ to_dec (unat offset) @ '', delivered '' @ to_dec (unat actual) @ '')'' @
       (if identifier \<noteq> [] then '' '' @ ElideSecrets identifier else [])))"

lemma code_RangeStatus [simp]:
  "code (OverflowStatus off sz) = InvalidArgument"
  "code (ShortReadStatus off e a ident) = InvalidResponse"
  by (simp_all add: OverflowStatus_def ShortReadStatus_def)

lemma ResolveReadRange_overflow:
  "outcome (ResolveReadRange off sz n) = Overflow \<longleftrightarrow> 2 ^ 64 \<le> unat off + unat sz"
  by (simp add: ResolveReadRange_def Let_def u64_add_overflow_iff)

lemma ResolveReadRange_empty:
  "outcome (ResolveReadRange off sz n) = Empty \<longleftrightarrow>
     unat off + unat sz < 2 ^ 64 \<and> (sz = 0 \<or> unat n \<le> unat off)"
  by (simp add: ResolveReadRange_def Let_def u64_add_overflow_iff word_le_nat_alt)

lemma ResolveReadRange_transfer:
  "outcome (ResolveReadRange off sz n) = Transfer \<longleftrightarrow>
     unat off + unat sz < 2 ^ 64 \<and> sz \<noteq> 0 \<and> unat off < unat n"
  by (simp add: ResolveReadRange_def Let_def u64_add_overflow_iff word_le_nat_alt)

lemma ResolveReadRange_offset [simp]: "range_offset (ResolveReadRange off sz n) = off"
  by (simp add: ResolveReadRange_def Let_def)

lemma ResolveReadRange_length:
  "unat (range_length (ResolveReadRange off sz n)) =
     (if outcome (ResolveReadRange off sz n) = Transfer
      then min (unat sz) (unat n - unat off) else 0)"
  by (auto simp: ResolveReadRange_def Let_def unat_sub_if' word_le_nat_alt word_less_nat_alt min_def)

lemma ResolveReadRange_positive:
  "0 < unat (range_length (ResolveReadRange off sz n)) \<longleftrightarrow>
     outcome (ResolveReadRange off sz n) = Transfer"
  using u64_pos_iff [of sz]
  by (simp add: ResolveReadRange_length del: unat_gt_0) (simp add: ResolveReadRange_transfer)

lemma ResolveReadRange_within:
  "unat off + unat (range_length (ResolveReadRange off sz n)) \<le> max (unat n) (unat off)"
  by (simp add: ResolveReadRange_length) (auto simp: ResolveReadRange_transfer min_def)

lemmas ResolveReadRange_facts = ResolveReadRange_overflow ResolveReadRange_empty
  ResolveReadRange_transfer ResolveReadRange_length

text \<open>
  A request resolves to exactly one of three answers. It overflows exactly when
  the sum of offset and size does not fit 64 bits, whatever the asset looks like; it is
  empty exactly when it does not overflow and asks for nothing or starts at or past
  the end; otherwise it transfers the requested bytes clipped to the end of the asset,
  at least one, without ever passing the end.
\<close>

theorem ResolveReadRange_spec:
  "let r = ResolveReadRange off sz n;
       fits = unat off + unat sz < 2 ^ 64;
       none = (sz = 0 \<or> unat n \<le> unat off);
       avail = min (unat sz) (unat n - unat off)
   in (outcome r = Overflow) = (\<not> fits) \<and>
      (outcome r = Empty) = (fits \<and> none) \<and>
      (outcome r = Transfer) = (fits \<and> \<not> none) \<and>
      range_offset r = off \<and>
      unat (range_length r) = (if outcome r = Transfer then avail else 0) \<and>
      (outcome r = Transfer) = (0 < unat (range_length r)) \<and>
      unat (range_offset r) + unat (range_length r) \<le> max (unat n) (unat off)"
  unfolding Let_def ResolveReadRange_positive ResolveReadRange_offset
  using ResolveReadRange_within [of off sz n]
  by (auto simp: ResolveReadRange_facts)

end
