(* ===== verification/AssetReader.thy ===== *)
theory AssetReader
  imports RangeMath Validator
begin

text \<open>
  \<open>libs/usd-asset-io\<close>: the random-access read contract (\<open>AssetReader.h\<close>). A read is a
  function from offset, size and the state of the world to the result, the bytes it
  placed at the start of the destination buffer, and the next state; the buffer is
  represented by those bytes because the contract leaves the rest unspecified.

  The locale \<open>asset_reader\<close> is the contract: what every backend promises about one
  asset revision, whose bytes are \<open>content\<close>. The cache relies on it for the reader it
  decorates and provides it again.
\<close>

record AssetMetadata =
  resolvedIdentifier :: string
  am_size :: u64
  supportsRandomAccess :: bool
  am_validator :: Validator
  am_stability :: IdentityStability
  contentType :: string

record ReadResult =
  bytesRead :: u64
  rr_status :: Status

type_synonym 'w read_fn = "u64 \<Rightarrow> u64 \<Rightarrow> 'w \<Rightarrow> (ReadResult \<times> bytes) \<times> 'w"

definition ReadResult_of :: "u64 \<Rightarrow> Status \<Rightarrow> ReadResult" where
  "ReadResult_of n st = \<lparr>bytesRead = n, rr_status = st\<rparr>"

definition fails :: "Status \<Rightarrow> ReadResult \<times> bytes" where
  "fails st = (ReadResult_of 0 st, [])"

lemma ReadResult_of_simps [simp]:
  "bytesRead (ReadResult_of n st) = n" "rr_status (ReadResult_of n st) = st"
  by (simp_all add: ReadResult_of_def)

locale asset_reader =
  fixes inv :: "'w \<Rightarrow> bool"
    and read :: "'w read_fn"
    and content :: bytes
  assumes read_inv: "inv w \<Longrightarrow> inv (snd (read off n w))"
    and read_delivers: "inv w \<Longrightarrow>
      length (snd (fst (read off n w))) = unat (bytesRead (fst (fst (read off n w)))) \<and>
      length (snd (fst (read off n w))) \<le> unat n"
    and read_ok: "inv w \<Longrightarrow> IsOk (rr_status (fst (fst (read off n w)))) \<Longrightarrow>
      snd (fst (read off n w)) = segment content (unat off) (unat n)"
    and read_overflow: "inv w \<Longrightarrow> 2 ^ 64 \<le> unat off + unat n \<Longrightarrow>
      code (rr_status (fst (fst (read off n w)))) = InvalidArgument"
begin

text \<open>Two successful adjacent reads deliver the bytes of one read over both.\<close>

lemma read_adjacent:
  assumes "inv w" "read off n w = ((r1, xs), w1)" "read (off + n) m w1 = ((r2, ys), w2)"
    and "IsOk (rr_status r1)" "IsOk (rr_status r2)" "unat off + unat n < 2 ^ 64"
  shows "xs @ ys = segment content (unat off) (unat n + unat m)"
proof -
  have "inv w1" using read_inv [OF assms(1), of off n] assms(2) by simp
  then have "xs = segment content (unat off) (unat n)" "ys = segment content (unat (off + n)) (unat m)"
    using read_ok [OF assms(1), of off n] read_ok [of w1 "off + n" m] assms(2-5) by simp_all
  then show ?thesis using assms(6) by (simp add: unat_u64_add segment_append)
qed

end

end
