(* ===== verification/BlockPlan.thy ===== *)
theory BlockPlan
  imports Prelude
begin

text \<open>
  \<open>libs/usd-asset-cache\<close>: the block arithmetic of the cache (\<open>BlockPlan.h\<close>,
  \<open>BlockPlan.cpp\<close>) on 64-bit words: which blocks a read covers, where a block lies
  in the asset, and how missing blocks are merged into fetch runs.
\<close>

record BlockSpan =
  span_first :: u64
  span_last :: u64

record BlockExtent =
  ext_offset :: u64
  ext_length :: u64

record FetchRun =
  firstBlock :: u64
  blockCount :: u64
  run_offset :: u64
  run_length :: u64

definition CoveringBlocks :: "u64 \<Rightarrow> u64 \<Rightarrow> u64 \<Rightarrow> BlockSpan" where
  "CoveringBlocks offset len blockSize =
    \<lparr>span_first = offset div blockSize, span_last = (offset + len - 1) div blockSize\<rparr>"

definition ExtentOf :: "u64 \<Rightarrow> u64 \<Rightarrow> u64 \<Rightarrow> BlockExtent" where
  "ExtentOf blockIndex blockSize assetSize =
    (let off = blockIndex * blockSize
     in if off \<ge> assetSize then \<lparr>ext_offset = off, ext_length = 0\<rparr>
        else let remaining = assetSize - off
             in \<lparr>ext_offset = off, ext_length = min blockSize remaining\<rparr>)"

definition span_bytes :: "u64 \<Rightarrow> u64 \<Rightarrow> u64 \<Rightarrow> u64 \<Rightarrow> u64" where
  "span_bytes blockSize assetSize first lst =
    (let begin_ext = ExtentOf first blockSize assetSize;
         end_ext = ExtentOf lst blockSize assetSize
     in (ext_offset end_ext + ext_length end_ext) - ext_offset begin_ext)"

definition close_run :: "u64 \<Rightarrow> u64 \<Rightarrow> u64 \<Rightarrow> u64 \<Rightarrow> FetchRun" where
  "close_run blockSize assetSize first lst =
    \<lparr>firstBlock = first, blockCount = lst - first + 1,
     run_offset = ext_offset (ExtentOf first blockSize assetSize),
     run_length = span_bytes blockSize assetSize first lst\<rparr>"

definition can_merge :: "u64 \<Rightarrow> u64 \<Rightarrow> u32 \<Rightarrow> u64 \<Rightarrow> u64 \<Rightarrow> u64 \<Rightarrow> u64 \<Rightarrow> bool" where
  "can_merge blockSize assetSize coalesceGapBlocks maxRequestBytes first lst nxt \<longleftrightarrow>
    (let gap = nxt - lst - 1; merged = span_bytes blockSize assetSize first nxt
     in gap \<le> ucast coalesceGapBlocks \<and> merged \<le> maxRequestBytes)"

fun PlanRuns_loop :: "u64 \<Rightarrow> u64 \<Rightarrow> u32 \<Rightarrow> u64 \<Rightarrow> u64 \<Rightarrow> u64 \<Rightarrow> u64 list \<Rightarrow> FetchRun list" where
  "PlanRuns_loop bs n g mx first lst [] = [close_run bs n first lst]"
| "PlanRuns_loop bs n g mx first lst (nxt # rest) =
    (if can_merge bs n g mx first lst nxt
     then PlanRuns_loop bs n g mx first nxt rest
     else close_run bs n first lst # PlanRuns_loop bs n g mx nxt nxt rest)"

definition PlanRuns :: "u64 list \<Rightarrow> u64 \<Rightarrow> u64 \<Rightarrow> u32 \<Rightarrow> u64 \<Rightarrow> FetchRun list" where
  "PlanRuns blocks blockSize assetSize coalesceGapBlocks maxRequestBytes =
    (case blocks of [] \<Rightarrow> []
     | b # rest \<Rightarrow> PlanRuns_loop blockSize assetSize coalesceGapBlocks maxRequestBytes b b rest)"

definition OverFetchedBytes :: "FetchRun \<Rightarrow> u64 \<Rightarrow> u64" where
  "OverFetchedBytes run takenBytes =
    (if takenBytes < run_length run then run_length run - takenBytes else 0)"

section \<open>Blocks and bytes\<close>

lemma CoveringBlocks_unat:
  assumes "0 < unat len" "unat off + unat len < 2 ^ 64"
  shows "unat (span_first (CoveringBlocks off len bs)) = unat off div unat bs"
    "unat (span_last (CoveringBlocks off len bs)) = (unat off + unat len - 1) div unat bs"
proof -
  have s: "unat (off + len) = unat off + unat len" using assms(2) by (rule unat_u64_add)
  then have "1 \<le> off + len" using assms(1) by (simp add: word_le_nat_alt)
  then have "unat (off + len - 1) = unat off + unat len - 1" using s by (simp add: unat_u64_sub)
  then show "unat (span_last (CoveringBlocks off len bs)) = (unat off + unat len - 1) div unat bs"
    by (simp add: CoveringBlocks_def unat_div)
qed (simp add: CoveringBlocks_def unat_div)

lemma ExtentOf_unat:
  assumes "unat i * unat bs < 2 ^ 64"
  shows "unat (ext_offset (ExtentOf i bs n)) = unat i * unat bs"
    "unat (ext_length (ExtentOf i bs n)) = min (unat bs) (unat n - unat i * unat bs)"
proof -
  have m: "unat (i * bs) = unat i * unat bs" using assms by (rule unat_u64_mult)
  then show "unat (ext_offset (ExtentOf i bs n)) = unat i * unat bs"
    by (simp add: ExtentOf_def Let_def)
  show "unat (ext_length (ExtentOf i bs n)) = min (unat bs) (unat n - unat i * unat bs)"
  proof (cases "i * bs \<ge> n")
    case True
    then show ?thesis using m by (simp add: ExtentOf_def Let_def word_le_nat_alt)
  next
    case False
    then have "unat (n - i * bs) = unat n - unat i * unat bs"
      using m by (subst unat_u64_sub) (simp_all add: word_le_nat_alt)
    then show ?thesis using False by (simp add: ExtentOf_def Let_def min_def word_le_nat_alt)
  qed
qed

lemma span_bytes_unat:
  assumes "unat a \<le> unat b" "unat b * unat bs < unat n"
  shows "unat (span_bytes bs n a b) = min (unat n) (Suc (unat b) * unat bs) - unat a * unat bs"
proof -
  have ab: "unat a * unat bs \<le> unat b * unat bs" using assms(1) by simp
  have "unat n < 2 ^ 64" using unat_u64_less [of n] by simp
  then have b: "unat b * unat bs < 2 ^ 64" and a: "unat a * unat bs < 2 ^ 64"
    using ab assms(2) by linarith+
  let ?o = "ext_offset (ExtentOf b bs n)" and ?l = "ext_length (ExtentOf b bs n)"
  note e = ExtentOf_unat [OF b, of n] ExtentOf_unat(1) [OF a, of n]
  have sum: "unat (?o + ?l) = unat ?o + unat ?l"
  proof (rule unat_u64_add)
    have "unat ?o + unat ?l \<le> unat n" using e assms(2) by (auto simp: min_def)
    from le_less_trans [OF this unat_u64_less] show "unat ?o + unat ?l < 2 ^ 64" by simp
  qed
  moreover have "ext_offset (ExtentOf a bs n) \<le> ?o + ?l"
    unfolding word_le_nat_alt sum e using ab by linarith
  ultimately have "unat (span_bytes bs n a b) = unat ?o + unat ?l - unat a * unat bs"
    using e by (simp add: span_bytes_def Let_def unat_u64_sub)
  also have "unat ?o + unat ?l = min (unat n) (Suc (unat b) * unat bs)"
    unfolding e mult_Suc using assms(2) by linarith
  finally show ?thesis .
qed


text \<open>The block of each byte of a read runs through exactly the covering blocks.\<close>

lemma div_image_interval:
  fixes a b k :: nat
  assumes "0 < k" "a \<le> b"
  shows "(\<lambda>x. x div k) ` {a..b} = {a div k..b div k}"
proof
  show "(\<lambda>x. x div k) ` {a..b} \<subseteq> {a div k..b div k}" using div_le_mono by fastforce
  show "{a div k..b div k} \<subseteq> (\<lambda>x. x div k) ` {a..b}"
  proof
    fix i assume i: "i \<in> {a div k..b div k}"
    show "i \<in> (\<lambda>x. x div k) ` {a..b}"
    proof (cases "i = a div k")
      case True
      then show ?thesis using assms(2) by auto
    next
      case False
      then have "a div k < i" using i by simp
      then have "a < i * k" using assms(1) by (simp add: div_less_iff_less_mult)
      moreover have "i * k \<le> b"
        using i assms(1) by (simp add: less_eq_div_iff_mult_less_eq)
      ultimately show ?thesis using assms(1) by (intro image_eqI [of _ _ "i * k"]) auto
    qed
  qed
qed

text \<open>
  For a non-empty read that does not overflow, the covering blocks are exactly the
  blocks that hold at least one of its bytes: none is missing and none is fetched for
  a read that ends on its boundary.
\<close>

theorem CoveringBlocks_exact:
  assumes "0 < unat len" "unat off + unat len < 2 ^ 64" "0 < unat bs"
  shows "{unat (span_first (CoveringBlocks off len bs))..unat (span_last (CoveringBlocks off len bs))} =
           (\<lambda>byte. byte div unat bs) ` {unat off..<unat off + unat len}"
proof -
  have "{unat off..<unat off + unat len} = {unat off..unat off + unat len - 1}"
    using assms(1) by auto
  then show ?thesis
    using div_image_interval [OF assms(3), of "unat off" "unat off + unat len - 1"] assms(1)
    by (simp add: CoveringBlocks_unat [OF assms(1,2)])
qed

theorem CoveringBlocks_exact_witness:
  "{unat (span_first (CoveringBlocks 4095 4097 4096))..unat (span_last (CoveringBlocks 4095 4097 4096))} =
     (\<lambda>byte. byte div 4096) ` {4095..<8192}"
  using CoveringBlocks_exact [of 4097 4095 4096] by simp

section \<open>Fetch runs\<close>

lemma close_run_fields [simp]:
  "firstBlock (close_run bs n a b) = a" "blockCount (close_run bs n a b) = b - a + 1"
  "run_length (close_run bs n a b) = span_bytes bs n a b"
  by (simp_all add: close_run_def)

text \<open>The blocks between two neighbours of a group, and whether two groups could have been one.\<close>

definition plan_groups :: "u64 \<Rightarrow> u64 \<Rightarrow> u32 \<Rightarrow> u64 \<Rightarrow> u64 list list \<Rightarrow> bool" where
  "plan_groups bs n g mx groups \<longleftrightarrow>
     (\<forall>grp \<in> set groups. grp \<noteq> [] \<and>
        successively (\<lambda>a b. b - a - 1 \<le> ucast g) grp \<and>
        (length grp > 1 \<longrightarrow> span_bytes bs n (hd grp) (last grp) \<le> mx)) \<and>
     successively (\<lambda>x y. \<not> can_merge bs n g mx (hd x) (last x) (hd y)) groups"

lemma PlanRuns_loop_groups:
  assumes "grp \<noteq> []" "hd grp = a" "last grp = b"
    "successively (\<lambda>a b. b - a - 1 \<le> ucast g) grp"
    "length grp > 1 \<longrightarrow> span_bytes bs n a b \<le> mx"
  shows "\<exists>groups. groups \<noteq> [] \<and> concat groups = grp @ rest \<and> hd (hd groups) = a \<and>
           plan_groups bs n g mx groups \<and>
           PlanRuns_loop bs n g mx a b rest = map (\<lambda>x. close_run bs n (hd x) (last x)) groups"
  using assms
proof (induction rest arbitrary: grp a b)
  case Nil
  then show ?case by (intro exI [of _ "[grp]"]) (auto simp: plan_groups_def)
next
  case (Cons nxt rest)
  show ?case
  proof (cases "can_merge bs n g mx a b nxt")
    case True
    have "\<exists>groups. groups \<noteq> [] \<and> concat groups = (grp @ [nxt]) @ rest \<and> hd (hd groups) = a \<and>
        plan_groups bs n g mx groups \<and>
        PlanRuns_loop bs n g mx a nxt rest = map (\<lambda>x. close_run bs n (hd x) (last x)) groups"
      using Cons.prems True
      by (intro Cons.IH) (auto simp: successively_append_iff can_merge_def Let_def)
    then show ?thesis using True by simp
  next
    case False
    have "\<exists>groups. groups \<noteq> [] \<and> concat groups = [nxt] @ rest \<and> hd (hd groups) = nxt \<and>
        plan_groups bs n g mx groups \<and>
        PlanRuns_loop bs n g mx nxt nxt rest = map (\<lambda>x. close_run bs n (hd x) (last x)) groups"
      by (intro Cons.IH) auto
    then obtain groups where *: "groups \<noteq> []" "concat groups = nxt # rest" "hd (hd groups) = nxt"
        "plan_groups bs n g mx groups"
        "PlanRuns_loop bs n g mx nxt nxt rest = map (\<lambda>x. close_run bs n (hd x) (last x)) groups"
      by auto
    have "plan_groups bs n g mx (grp # groups)"
      using * False Cons.prems by (cases groups) (auto simp: plan_groups_def)
    then show ?thesis using * False Cons.prems by (intro exI [of _ "grp # groups"]) simp
  qed
qed

lemma PlanRuns_split:
  "\<exists>groups. concat groups = blocks \<and>
     PlanRuns blocks bs n g mx = map (\<lambda>grp. close_run bs n (hd grp) (last grp)) groups \<and>
     plan_groups bs n g mx groups"
proof (cases blocks)
  case Nil
  then show ?thesis by (intro exI [of _ "[]"]) (simp add: PlanRuns_def plan_groups_def)
next
  case (Cons b rest)
  then show ?thesis
    using PlanRuns_loop_groups [of "[b]" b b g bs n mx rest] by (auto simp: PlanRuns_def)
qed


text \<open>
  For every list of blocks, the planned runs are the blocks cut into consecutive
  groups, one run per group from its first to its last block. Inside a group no gap is
  wider than the policy allows and a merged request stays within the byte ceiling; two
  neighbouring groups are never mergeable, so no request could have been saved.
\<close>

theorem PlanRuns_groups:
  "\<exists>groups. concat groups = blocks \<and>
     PlanRuns blocks bs n g mx = map (\<lambda>grp. close_run bs n (hd grp) (last grp)) groups \<and>
     plan_groups bs n g mx groups"
  by (rule PlanRuns_split)

lemma close_run_unat:
  assumes "unat a \<le> unat b" "unat b * unat bs < unat n" "0 < unat bs"
  shows "unat (run_offset (close_run bs n a b)) = unat a * unat bs"
    "unat (run_offset (close_run bs n a b)) + unat (run_length (close_run bs n a b)) =
       min (unat n) (Suc (unat b) * unat bs)"
    "unat (blockCount (close_run bs n a b)) = Suc (unat b) - unat a"
proof -
  have ab: "unat a * unat bs \<le> unat b * unat bs" using assms(1) by simp
  have "unat n < 2 ^ 64" using unat_u64_less [of n] by simp
  then have a: "unat a * unat bs < 2 ^ 64" using ab assms(2) by linarith
  show o: "unat (run_offset (close_run bs n a b)) = unat a * unat bs"
    using ExtentOf_unat(1) [OF a] by (simp add: close_run_def)
  have "unat a * unat bs \<le> min (unat n) (Suc (unat b) * unat bs)"
    unfolding mult_Suc using ab assms(2) by linarith
  then show "unat (run_offset (close_run bs n a b)) + unat (run_length (close_run bs n a b)) =
       min (unat n) (Suc (unat b) * unat bs)"
    using span_bytes_unat [OF assms(1,2)] o by simp
  have "unat b \<le> unat b * unat bs" using assms(3) by simp
  then have "unat b < 18446744073709551615" using assms(2) unat_u64_le [of n] by linarith
  then show "unat (blockCount (close_run bs n a b)) = Suc (unat b) - unat a"
    using assms(1) by (simp add: unat_u64_add unat_u64_sub word_le_nat_alt)
qed

lemma sorted_wrt_concat:
  "sorted_wrt P (concat gs) \<Longrightarrow>
     sorted_wrt (\<lambda>x y. \<forall>a\<in>set x. \<forall>b\<in>set y. P a b) gs \<and> (\<forall>g\<in>set gs. sorted_wrt P g)"
  by (induction gs) (auto simp: sorted_wrt_append)

lemma sorted_group_bounds:
  assumes "sorted_wrt (\<lambda>a b. unat (a::u64) < unat b) grp" "b \<in> set grp"
  shows "unat (hd grp) \<le> unat b" "unat b \<le> unat (last grp)"
proof -
  show "unat (hd grp) \<le> unat b" using assms by (cases grp) auto
  show "unat b \<le> unat (last grp)"
    using assms by (cases grp rule: rev_cases) (auto simp: sorted_wrt_append)
qed

definition ascending :: "u64 list \<Rightarrow> bool" where
  "ascending blocks \<longleftrightarrow> sorted_wrt (\<lambda>a b. unat a < unat b) blocks"

definition run_of :: "u64 \<Rightarrow> u64 \<Rightarrow> u64 list \<Rightarrow> FetchRun" where
  "run_of bs n grp = close_run bs n (hd grp) (last grp)"

definition covers_block :: "u64 \<Rightarrow> u64 \<Rightarrow> FetchRun \<Rightarrow> u64 \<Rightarrow> bool" where
  "covers_block bs n r b \<longleftrightarrow>
     unat (firstBlock r) \<le> unat b \<and> unat b < unat (firstBlock r) + unat (blockCount r) \<and>
     unat (run_offset r) \<le> unat b * unat bs \<and>
     min (unat n) (Suc (unat b) * unat bs) \<le> unat (run_offset r) + unat (run_length r)"

definition runs_before :: "FetchRun \<Rightarrow> FetchRun \<Rightarrow> bool" where
  "runs_before r s \<longleftrightarrow>
     unat (run_offset r) + unat (run_length r) \<le> unat (run_offset s) \<and>
     unat (firstBlock r) + unat (blockCount r) \<le> unat (firstBlock s)"

lemma run_of_unat:
  assumes "ascending grp" "grp \<noteq> []" "\<forall>b\<in>set grp. unat b * unat bs < unat n" "0 < unat bs"
  shows "unat (firstBlock (run_of bs n grp)) = unat (hd grp)"
    "unat (run_offset (run_of bs n grp)) = unat (hd grp) * unat bs"
    "unat (run_offset (run_of bs n grp)) + unat (run_length (run_of bs n grp)) =
       min (unat n) (Suc (unat (last grp)) * unat bs)"
    "unat (firstBlock (run_of bs n grp)) + unat (blockCount (run_of bs n grp)) = Suc (unat (last grp))"
proof -
  have "unat (hd grp) \<le> unat (last grp)" "unat (last grp) * unat bs < unat n"
    using sorted_group_bounds(2) [of grp "hd grp"] assms(1-3) by (auto simp: ascending_def)
  note cr = close_run_unat [OF this assms(4)]
  show "unat (firstBlock (run_of bs n grp)) = unat (hd grp)"
    "unat (run_offset (run_of bs n grp)) = unat (hd grp) * unat bs"
    "unat (run_offset (run_of bs n grp)) + unat (run_length (run_of bs n grp)) =
       min (unat n) (Suc (unat (last grp)) * unat bs)"
    "unat (firstBlock (run_of bs n grp)) + unat (blockCount (run_of bs n grp)) = Suc (unat (last grp))"
    unfolding run_of_def using cr \<open>unat (hd grp) \<le> unat (last grp)\<close> by auto
qed

lemma run_of_covers:
  assumes "ascending grp" "\<forall>b\<in>set grp. unat b * unat bs < unat n" "0 < unat bs" "b \<in> set grp"
  shows "covers_block bs n (run_of bs n grp) b"
proof -
  have ne: "grp \<noteq> []" using assms(4) by auto
  note r = run_of_unat [OF assms(1) ne assms(2,3)]
  have hb: "unat (hd grp) \<le> unat b" "unat b \<le> unat (last grp)"
    using sorted_group_bounds [of grp b] assms(1,4) by (auto simp: ascending_def)
  have "Suc (unat b) * unat bs \<le> Suc (unat (last grp)) * unat bs"
    using hb(2) by (intro mult_le_mono1) simp
  then have "min (unat n) (Suc (unat b) * unat bs) \<le> min (unat n) (Suc (unat (last grp)) * unat bs)"
    by (intro min.mono) auto
  moreover have "unat (hd grp) * unat bs \<le> unat b * unat bs" using hb(1) by simp
  ultimately show ?thesis unfolding covers_block_def using r hb by (intro conjI; linarith)
qed

lemma run_of_before:
  assumes "ascending x" "x \<noteq> []" "\<forall>b\<in>set x. unat b * unat bs < unat n"
    and "ascending y" "y \<noteq> []" "\<forall>b\<in>set y. unat b * unat bs < unat n"
    and "0 < unat bs" "\<forall>a\<in>set x. \<forall>b\<in>set y. unat a < unat b"
  shows "runs_before (run_of bs n x) (run_of bs n y)"
proof -
  have lt: "unat (last x) < unat (hd y)" using assms(2,5,8) by simp
  then have "Suc (unat (last x)) * unat bs \<le> unat (hd y) * unat bs" by (intro mult_le_mono1) simp
  then show ?thesis
    unfolding runs_before_def
    using lt run_of_unat [OF assms(1-3,7)] run_of_unat(1,2) [OF assms(4-6,7)]
    by (intro conjI; linarith)
qed

lemma run_of_size:
  assumes "ascending grp" "grp \<noteq> []" "\<forall>b\<in>set grp. unat b * unat bs < unat n" "0 < unat bs"
    and "length grp > 1 \<longrightarrow> span_bytes bs n (hd grp) (last grp) \<le> mx"
  shows "0 < unat (run_length (run_of bs n grp))"
    "unat (run_offset (run_of bs n grp)) + unat (run_length (run_of bs n grp)) \<le> unat n"
    "unat (run_length (run_of bs n grp)) \<le> max (unat mx) (unat bs)"
proof -
  note r = run_of_unat [OF assms(1-4)]
  have "unat (hd grp) \<le> unat (last grp)"
    using sorted_group_bounds(2) [of grp "hd grp"] assms(1,2) by (auto simp: ascending_def)
  then have "unat (hd grp) * unat bs \<le> unat (last grp) * unat bs" by simp
  moreover have "unat (last grp) * unat bs < unat n" using assms(2,3) by simp
  ultimately have "unat (hd grp) * unat bs < min (unat n) (Suc (unat (last grp)) * unat bs)"
    unfolding mult_Suc using assms(4) by linarith
  then show "0 < unat (run_length (run_of bs n grp))" using r(2,3) by linarith
  show "unat (run_offset (run_of bs n grp)) + unat (run_length (run_of bs n grp)) \<le> unat n"
    unfolding r(3) by simp
  show "unat (run_length (run_of bs n grp)) \<le> max (unat mx) (unat bs)"
  proof (cases "length grp > 1")
    case True
    then show ?thesis using assms(5) by (simp add: run_of_def word_le_nat_alt)
  next
    case False
    then have "hd grp = last grp" using assms(2) by (cases grp) auto
    then have "unat (hd grp) * unat bs + unat (run_length (run_of bs n grp)) \<le> Suc (unat (hd grp)) * unat bs"
      using r(2,3) by simp
    then show ?thesis unfolding mult_Suc by linarith
  qed
qed

text \<open>
  C37: for an ascending list of blocks of the asset, every block lies completely inside
  one planned request, the requests are in order and disjoint both in blocks and in
  bytes, none is empty or passes the end of the asset, and none exceeds the larger of
  the request ceiling and one block.
\<close>

theorem PlanRuns_cover:
  assumes "ascending blocks" "0 < unat bs" "\<forall>b\<in>set blocks. unat b * unat bs < unat n"
  shows "let runs = PlanRuns blocks bs n g mx in
      (\<forall>b\<in>set blocks. \<exists>r\<in>set runs. covers_block bs n r b) \<and>
      sorted_wrt runs_before runs \<and>
      (\<forall>r\<in>set runs. 0 < unat (run_length r) \<and>
         unat (run_offset r) + unat (run_length r) \<le> unat n \<and>
         unat (run_length r) \<le> max (unat mx) (unat bs))"
proof -
  obtain groups where c: "blocks = concat groups" and
    runs: "PlanRuns blocks bs n g mx = map (run_of bs n) groups" and
    ok: "plan_groups bs n g mx groups"
    unfolding run_of_def [abs_def] using PlanRuns_split by metis
  have srt: "sorted_wrt (\<lambda>x y. \<forall>a\<in>set x. \<forall>b\<in>set y. unat a < unat b) groups"
    and asc: "\<And>x. x \<in> set groups \<Longrightarrow> ascending x"
    using sorted_wrt_concat [of _ groups] assms(1) c by (auto simp: ascending_def)
  have grp: "x \<noteq> []" "\<forall>b\<in>set x. unat b * unat bs < unat n"
    "length x > 1 \<longrightarrow> span_bytes bs n (hd x) (last x) \<le> mx" if "x \<in> set groups" for x
    using ok c assms(3) that by (auto simp: plan_groups_def)
  have "sorted_wrt (\<lambda>x y. runs_before (run_of bs n x) (run_of bs n y)) groups"
    using srt by (rule sorted_wrt_mono_rel [rotated]) (auto intro!: run_of_before asc grp assms(2))
  moreover have "\<exists>r\<in>set (map (run_of bs n) groups). covers_block bs n r b" if b: "b \<in> set blocks" for b
  proof -
    obtain x where "x \<in> set groups" "b \<in> set x" using b unfolding c by auto
    then show ?thesis using run_of_covers [OF asc grp(2) assms(2)] by auto
  qed
  ultimately show ?thesis
    unfolding Let_def runs sorted_wrt_map using run_of_size [OF asc grp(1,2) assms(2) grp(3)] by auto
qed

theorem PlanRuns_cover_witness:
  "\<exists>r\<in>set (PlanRuns [0, 1, 9] 4096 40000 1 65536). covers_block 4096 40000 r 9"
  using PlanRuns_cover [of "[0, 1, 9]" 4096 40000 1 65536] by (simp add: Let_def ascending_def)

end
