(* ===== verification/BlockCache.thy ===== *)
theory BlockCache
  imports CacheKey CacheOptions "HOL-Library.AList"
begin

text \<open>
  \<open>libs/usd-asset-cache\<close>: the striped block store (\<open>BlockCache.h\<close>, \<open>BlockCache.cpp\<close>).
  A stripe is a record of its entries, its LRU list (front is most recent) and its
  counters; the store is the list of stripes with the interned identities. Every
  operation of the source runs under one stripe's mutex (or the identity mutex) from
  its first access to its last, so each is one atomic state transformer here, and a
  concurrent history is a sequence of them. An \<open>std::list\<close> iterator kept in an entry
  always designates the entry's own key in the LRU list, so the key stands for it.
  The hash maps are association lists with distinct keys.
\<close>

section \<open>State\<close>

record ShardKey =
  identityId :: u64
  sk_blockIndex :: u64

record Entry =
  e_block :: "bytes option"
  e_pending :: bool
  e_bytes :: u64
  e_inLru :: bool

record Shard =
  entries :: "(ShardKey \<times> Entry) list"
  lru :: "ShardKey list"
  residentBytes :: u64
  sh_evictions :: u64
  sh_peakResidentBytes :: u64

record BlockCache =
  bc_options :: CacheOptions
  shards :: "Shard list"
  shardMask :: u64
  shardBudget :: u64
  residentTotal :: u64
  identities :: "(AssetIdentity \<times> u64) list"
  nextIdentityId :: u64
  liveBindings :: u64

record Binding =
  b_identity :: AssetIdentity
  b_identityId :: u64
  isPrivate :: bool

datatype Acquisition = Hit | Owned | Busy

record AcquireResult =
  acq_outcome :: Acquisition
  acq_block :: "bytes option"

record Stats =
  st_residentBytes :: u64
  st_blockCount :: u64
  st_pendingCount :: u64
  st_evictions :: u64
  st_peakResidentBytes :: u64
  st_identityCount :: u64
  st_shardCount :: u32
  st_shardBudgetBytes :: u64

section \<open>Stripes\<close>

definition Mix :: "u64 \<Rightarrow> u64" where
  "Mix v0 =
    (let v = v0 + 0x9E3779B97F4A7C15;
         v = (v XOR drop_bit 30 v) * 0xBF58476D1CE4E5B9;
         v = (v XOR drop_bit 27 v) * 0x94D049BB133111EB
     in v XOR drop_bit 31 v)"

definition ShardKeyHash :: "ShardKey \<Rightarrow> u64" where
  "ShardKeyHash key = Mix (identityId key XOR Mix (sk_blockIndex key))"

primrec ChooseShardCount_loop :: "nat \<Rightarrow> u32 \<Rightarrow> u64 \<Rightarrow> u32" where
  "ChooseShardCount_loop 0 count desired = count"
| "ChooseShardCount_loop (Suc fuel) count desired =
    (if count < 64 \<and> (ucast count :: u64) * 2 \<le> desired
     then ChooseShardCount_loop fuel (count * 2) desired else count)"

definition ChooseShardCount :: "u64 \<Rightarrow> u64 \<Rightarrow> u32" where
  "ChooseShardCount budget bs =
    (let desired = (if bs > 0 then budget div (bs * 8) else 1)
     in ChooseShardCount_loop 7 1 desired)"

definition Shard_new :: Shard where
  "Shard_new = \<lparr>entries = [], lru = [], residentBytes = 0, sh_evictions = 0, sh_peakResidentBytes = 0\<rparr>"

definition Entry_pending :: Entry where
  "Entry_pending = \<lparr>e_block = None, e_pending = True, e_bytes = 0, e_inLru = False\<rparr>"

definition ResetLocked :: "CacheOptions \<Rightarrow> BlockCache \<Rightarrow> BlockCache" where
  "ResetLocked requested s =
    (let options = Normalized requested;
         count = ChooseShardCount (budgetBytes options) (blockSize options)
     in s\<lparr>bc_options := options, shards := replicate (unat count) Shard_new,
          shardMask := ucast (count - 1),
          shardBudget := max (budgetBytes options div ucast count) (blockSize options),
          residentTotal := 0, identities := []\<rparr>)"

definition BlockCache_new :: "CacheOptions \<Rightarrow> BlockCache" where
  "BlockCache_new requested =
    ResetLocked requested
      \<lparr>bc_options = CacheOptions_default, shards = [], shardMask = 0, shardBudget = 0,
       residentTotal = 0, identities = [], nextIdentityId = 1, liveBindings = 0\<rparr>"

definition ConfigureProcess :: "CacheOptions \<Rightarrow> BlockCache \<Rightarrow> bool \<times> BlockCache" where
  "ConfigureProcess options s =
    (if liveBindings s \<noteq> 0 then (False, s) else (True, ResetLocked options s))"

definition shard_index :: "BlockCache \<Rightarrow> ShardKey \<Rightarrow> nat" where
  "shard_index s key = unat (ShardKeyHash key AND shardMask s)"

definition ShardFor :: "BlockCache \<Rightarrow> ShardKey \<Rightarrow> Shard" where
  "ShardFor s key = shards s ! shard_index s key"

definition put_shard :: "ShardKey \<Rightarrow> Shard \<Rightarrow> BlockCache \<Rightarrow> BlockCache" where
  "put_shard key shard s = s\<lparr>shards := (shards s)[shard_index s key := shard]\<rparr>"

text \<open>The eviction loop returns the stripe, the store-wide total and the number of evictions.\<close>

function EvictLocked :: "Shard \<Rightarrow> u64 \<Rightarrow> u64 \<Rightarrow> u64 \<Rightarrow> Shard \<times> u64 \<times> u64" where
  "EvictLocked shard budget tot evicted =
    (if residentBytes shard > budget \<and> length (lru shard) > 1
     then let victim = last (lru shard);
              shard1 = shard\<lparr>lru := butlast (lru shard)\<rparr>;
              (shard2, total2) =
                (case map_of (entries shard1) victim of
                   Some e \<Rightarrow>
                     (shard1\<lparr>residentBytes := residentBytes shard1 - e_bytes e,
                        entries := AList.delete victim (entries shard1)\<rparr>, tot - e_bytes e)
                 | None \<Rightarrow> (shard1, tot))
          in EvictLocked (shard2\<lparr>sh_evictions := sh_evictions shard2 + 1\<rparr>) budget total2 (evicted + 1)
     else (shard, tot, evicted))"
  by pat_completeness auto
termination
  by (relation "measure (\<lambda>(shard, _). length (lru shard))") (auto split: option.splits)

declare EvictLocked.simps [simp del]

definition TouchLocked :: "ShardKey \<Rightarrow> Entry \<Rightarrow> Shard \<Rightarrow> Shard" where
  "TouchLocked key e shard =
    (if \<not> e_inLru e then shard else shard\<lparr>lru := key # remove1 key (lru shard)\<rparr>)"

section \<open>Store operations\<close>

definition count_entries :: "(Entry \<Rightarrow> bool) \<Rightarrow> Shard \<Rightarrow> u64" where
  "count_entries P shard = of_nat (length (filter (\<lambda>(k, e). P e) (entries shard)))"

definition BlockCache_Snapshot :: "BlockCache \<Rightarrow> Stats" where
  "BlockCache_Snapshot s =
    \<lparr>st_residentBytes = sum_list (map residentBytes (shards s)),
     st_blockCount = sum_list (map (count_entries (\<lambda>e. \<not> e_pending e)) (shards s)),
     st_pendingCount = sum_list (map (count_entries e_pending) (shards s)),
     st_evictions = sum_list (map sh_evictions (shards s)),
     st_peakResidentBytes = sum_list (map sh_peakResidentBytes (shards s)),
     st_identityCount = of_nat (length (identities s)),
     st_shardCount = of_nat (length (shards s)), st_shardBudgetBytes = shardBudget s\<rparr>"

definition ClearForTesting :: "BlockCache \<Rightarrow> BlockCache" where
  "ClearForTesting s =
    s\<lparr>shards := map (\<lambda>shard. shard\<lparr>entries := [], lru := [], residentBytes := 0,
        sh_evictions := 0, sh_peakResidentBytes := 0\<rparr>) (shards s),
      residentTotal := 0, identities := []\<rparr>"

definition Bind :: "string \<Rightarrow> Validator \<Rightarrow> u64 \<Rightarrow> BlockCache \<Rightarrow> Binding \<times> BlockCache" where
  "Bind resolvedIdentifier validator bs s =
    (let identity = \<lparr>id_resolvedIdentifier = resolvedIdentifier, id_validator = v_value validator,
                     id_blockSize = bs\<rparr>;
         s1 = s\<lparr>liveBindings := liveBindings s + 1\<rparr>
     in if \<not> IsShareable validator
        then (\<lparr>b_identity = identity, b_identityId = nextIdentityId s1, isPrivate = True\<rparr>,
              s1\<lparr>nextIdentityId := nextIdentityId s1 + 1\<rparr>)
        else case map_of (identities s1) identity of
               Some found \<Rightarrow> (\<lparr>b_identity = identity, b_identityId = found, isPrivate = False\<rparr>, s1)
             | None \<Rightarrow>
                 (\<lparr>b_identity = identity, b_identityId = nextIdentityId s1, isPrivate = False\<rparr>,
                  s1\<lparr>nextIdentityId := nextIdentityId s1 + 1,
                     identities := (identity, nextIdentityId s1) # identities s1\<rparr>))"

text \<open>One stripe of the destructor's loop: the private entries leave with their bytes.\<close>

definition drop_identity :: "u64 \<Rightarrow> Shard \<Rightarrow> Shard \<times> u64" where
  "drop_identity ident shard =
    (let mine = filter (\<lambda>(k, e). identityId k = ident) (entries shard);
         freed = sum_list (map (\<lambda>(k, e). if e_inLru e then e_bytes e else 0) mine)
     in (shard\<lparr>entries := filter (\<lambda>(k, e). identityId k \<noteq> ident) (entries shard),
               lru := filter (\<lambda>k. identityId k \<noteq> ident) (lru shard),
               residentBytes := residentBytes shard - freed\<rparr>, freed))"

definition Binding_destroy :: "Binding \<Rightarrow> BlockCache \<Rightarrow> BlockCache" where
  "Binding_destroy b s =
    (let s1 = (if isPrivate b
               then let dropped = map (drop_identity (b_identityId b)) (shards s)
                    in s\<lparr>shards := map fst dropped,
                         residentTotal := residentTotal s - sum_list (map snd dropped)\<rparr>
               else s)
     in s1\<lparr>liveBindings := liveBindings s1 - 1\<rparr>)"

definition block_key :: "Binding \<Rightarrow> u64 \<Rightarrow> ShardKey" where
  "block_key b blockIndex = \<lparr>identityId = b_identityId b, sk_blockIndex = blockIndex\<rparr>"

definition Acquire :: "Binding \<Rightarrow> u64 \<Rightarrow> BlockCache \<Rightarrow> AcquireResult \<times> BlockCache" where
  "Acquire b blockIndex s =
    (let key = block_key b blockIndex; shard = ShardFor s key
     in case map_of (entries shard) key of
          None \<Rightarrow>
            (\<lparr>acq_outcome = Owned, acq_block = None\<rparr>,
             put_shard key (shard\<lparr>entries := (key, Entry_pending) # entries shard\<rparr>) s)
        | Some found \<Rightarrow>
            if e_pending found then (\<lparr>acq_outcome = Busy, acq_block = None\<rparr>, s)
            else (\<lparr>acq_outcome = Hit, acq_block = e_block found\<rparr>,
                  put_shard key (TouchLocked key found shard) s))"

text \<open>
  One turn of \<open>Await\<close>'s loop under the stripe lock: \<open>None\<close> means the caller waits on the
  condition variable, \<open>Some r\<close> that the call returns \<open>r\<close>.
\<close>

definition Await_poll :: "Binding \<Rightarrow> u64 \<Rightarrow> BlockCache \<Rightarrow> bytes option option \<times> BlockCache" where
  "Await_poll b blockIndex s =
    (let key = block_key b blockIndex; shard = ShardFor s key
     in case map_of (entries shard) key of
          None \<Rightarrow> (Some None, s)
        | Some found \<Rightarrow>
            if \<not> e_pending found
            then (Some (e_block found), put_shard key (TouchLocked key found shard) s)
            else (None, s))"

definition Publish :: "Binding \<Rightarrow> u64 \<Rightarrow> bytes \<Rightarrow> BlockCache \<Rightarrow> u64 \<times> BlockCache" where
  "Publish b blockIndex block s =
    (let key = block_key b blockIndex; shard = ShardFor s key; len = of_nat (length block)
     in case map_of (entries shard) key of
          None \<Rightarrow> (0, s)
        | Some found \<Rightarrow>
            if \<not> e_pending found then (0, s)
            else
              let entry = found\<lparr>e_block := Some block, e_pending := False, e_bytes := len,
                                e_inLru := True\<rparr>;
                  shard1 = shard\<lparr>entries := AList.update key entry (entries shard),
                                 lru := key # lru shard,
                                 residentBytes := residentBytes shard + len\<rparr>;
                  total1 = residentTotal s + len;
                  shard2 = shard1\<lparr>sh_peakResidentBytes :=
                             max (sh_peakResidentBytes shard1) (residentBytes shard1)\<rparr>;
                  (shard3, total3, evicted) = EvictLocked shard2 (shardBudget s) total1 0
              in (evicted, (put_shard key shard3 s)\<lparr>residentTotal := total3\<rparr>))"

definition Abandon :: "Binding \<Rightarrow> u64 \<Rightarrow> BlockCache \<Rightarrow> BlockCache" where
  "Abandon b blockIndex s =
    (let key = block_key b blockIndex; shard = ShardFor s key
     in case map_of (entries shard) key of
          None \<Rightarrow> s
        | Some found \<Rightarrow>
            if e_pending found
            then put_shard key (shard\<lparr>entries := AList.delete key (entries shard)\<rparr>) s else s)"


section \<open>Invariant\<close>

definition max_block :: nat where
  "max_block = 67108864"

definition entry_bytes :: "(ShardKey \<times> Entry) list \<Rightarrow> ShardKey \<Rightarrow> nat" where
  "entry_bytes es k =
    (case map_of es k of
       Some e \<Rightarrow> (case e_block e of Some b \<Rightarrow> length b | None \<Rightarrow> 0) | None \<Rightarrow> 0)"

definition resident_sum :: "(ShardKey \<times> Entry) list \<Rightarrow> ShardKey list \<Rightarrow> nat" where
  "resident_sum es ks = sum_list (map (entry_bytes es) ks)"

definition entry_ok :: "Entry \<Rightarrow> bool" where
  "entry_ok e \<longleftrightarrow> e_inLru e = (\<not> e_pending e) \<and> e_pending e = (e_block e = None) \<and>
     (\<forall>b. e_block e = Some b \<longrightarrow> e_bytes e = of_nat (length b) \<and> length b \<le> max_block)"

definition shard_wf :: "Shard \<Rightarrow> bool" where
  "shard_wf sh \<longleftrightarrow>
     distinct (map fst (entries sh)) \<and> distinct (lru sh) \<and>
     (\<forall>k. k \<in> set (lru sh) \<longleftrightarrow> (\<exists>e. map_of (entries sh) k = Some e \<and> \<not> e_pending e)) \<and>
     (\<forall>k e. map_of (entries sh) k = Some e \<longrightarrow> entry_ok e) \<and>
     unat (residentBytes sh) = resident_sum (entries sh) (lru sh)"

definition within_budget :: "u64 \<Rightarrow> Shard \<Rightarrow> bool" where
  "within_budget budget sh \<longleftrightarrow> residentBytes sh \<le> budget \<or> length (lru sh) \<le> 1"

definition store_inv :: "BlockCache \<Rightarrow> bool" where
  "store_inv s \<longleftrightarrow>
     length (shards s) = Suc (unat (shardMask s)) \<and> unat (shardBudget s) < 2 ^ 63 \<and>
     (\<forall>i < length (shards s). shard_wf (shards s ! i) \<and> within_budget (shardBudget s) (shards s ! i) \<and>
        (\<forall>k \<in> fst ` set (entries (shards s ! i)). shard_index s k = i)) \<and>
     residentTotal s = sum_list (map residentBytes (shards s))"

lemma shard_wfD:
  assumes "shard_wf sh"
  shows "distinct (map fst (entries sh))" "distinct (lru sh)"
    "\<And>k. k \<in> set (lru sh) \<longleftrightarrow> (\<exists>e. map_of (entries sh) k = Some e \<and> \<not> e_pending e)"
    "\<And>k e. map_of (entries sh) k = Some e \<Longrightarrow> entry_ok e"
    "unat (residentBytes sh) = resident_sum (entries sh) (lru sh)"
  using assms by (auto simp: shard_wf_def)

lemma shard_wfI:
  assumes "distinct (map fst (entries sh))" "distinct (lru sh)"
    "\<And>k. k \<in> set (lru sh) \<longleftrightarrow> (\<exists>e. map_of (entries sh) k = Some e \<and> \<not> e_pending e)"
    "\<And>k e. map_of (entries sh) k = Some e \<Longrightarrow> entry_ok e"
    "unat (residentBytes sh) = resident_sum (entries sh) (lru sh)"
  shows "shard_wf sh"
  using assms unfolding shard_wf_def by blast

lemma shard_wf_cong:
  assumes "entries sh' = entries sh" "lru sh' = lru sh" "residentBytes sh' = residentBytes sh"
  shows "shard_wf sh' = shard_wf sh" "within_budget b sh' = within_budget b sh"
  using assms by (simp_all add: shard_wf_def within_budget_def)

lemma entry_bytes_le:
  assumes "shard_wf sh"
  shows "entry_bytes (entries sh) k \<le> max_block"
proof (cases "map_of (entries sh) k")
  case (Some e)
  then show ?thesis using shard_wfD(4) [OF assms Some]
    by (auto simp: entry_bytes_def entry_ok_def split: option.split)
qed (simp add: entry_bytes_def)

lemma entry_bytes_cong:
  "map_of es k = map_of es' k \<Longrightarrow> entry_bytes es k = entry_bytes es' k"
  by (simp add: entry_bytes_def)

lemma entry_bytes_word:
  assumes "entry_ok e" "\<not> e_pending e" "map_of es k = Some e"
  shows "e_bytes e = of_nat (entry_bytes es k)"
  using assms by (auto simp: entry_ok_def entry_bytes_def)

lemma resident_sum_Cons [simp]:
  "resident_sum es (k # ks) = entry_bytes es k + resident_sum es ks" "resident_sum es [] = 0"
  by (simp_all add: resident_sum_def)

lemma resident_sum_snoc [simp]: "resident_sum es (ks @ [k]) = resident_sum es ks + entry_bytes es k"
  by (simp add: resident_sum_def)

lemma resident_sum_cong:
  assumes "\<And>k. k \<in> set ks \<Longrightarrow> map_of es' k = map_of es k"
  shows "resident_sum es' ks = resident_sum es ks"
  using assms by (induction ks) (auto intro: entry_bytes_cong)

lemma resident_sum_remove1:
  "k \<in> set ks \<Longrightarrow> entry_bytes es k + resident_sum es (remove1 k ks) = resident_sum es ks"
  by (induction ks) auto

lemma shard_wf_new: "shard_wf Shard_new"
  by (simp add: shard_wf_def Shard_new_def)

section \<open>Eviction\<close>

definition evict_one :: "Shard \<Rightarrow> Shard" where
  "evict_one sh =
    (let victim = last (lru sh)
     in sh\<lparr>lru := butlast (lru sh),
           residentBytes := residentBytes sh - of_nat (entry_bytes (entries sh) victim),
           entries := AList.delete victim (entries sh),
           sh_evictions := sh_evictions sh + 1\<rparr>)"

lemma EvictLocked_step:
  assumes "shard_wf sh" "lru sh \<noteq> []"
  shows "EvictLocked sh budget t n =
    (if residentBytes sh > budget \<and> length (lru sh) > 1
     then EvictLocked (evict_one sh) budget
            (t - of_nat (entry_bytes (entries sh) (last (lru sh)))) (n + 1)
     else (sh, t, n))"
proof -
  have "last (lru sh) \<in> set (lru sh)" using assms(2) by simp
  then obtain e where e: "map_of (entries sh) (last (lru sh)) = Some e" "\<not> e_pending e"
    using shard_wfD(3) [OF assms(1)] by blast
  have "e_bytes e = of_nat (entry_bytes (entries sh) (last (lru sh)))"
    using shard_wfD(4) [OF assms(1) e(1)] e by (intro entry_bytes_word)
  then show ?thesis
    using e by (subst EvictLocked.simps) (simp add: evict_one_def Let_def)
qed

lemma evict_one_facts:
  assumes wf: "shard_wf sh" and ne: "lru sh \<noteq> []"
  shows "shard_wf (evict_one sh)"
    "unat (residentBytes (evict_one sh)) \<le> unat (residentBytes sh)"
    "k \<noteq> last (lru sh) \<Longrightarrow> map_of (entries (evict_one sh)) k = map_of (entries sh) k"
    "map_of (entries (evict_one sh)) (last (lru sh)) = None"
proof -
  let ?v = "last (lru sh)" and ?es = "entries sh" and ?es' = "AList.delete (last (lru sh)) (entries sh)"
  note w = shard_wfD [OF wf]
  have l: "lru sh = butlast (lru sh) @ [?v]" using ne by simp
  have vb: "?v \<notin> set (butlast (lru sh))" using w(2) ne by (metis distinct_append l not_distinct_conv_prefix)
  have mo: "map_of ?es' k = (if k = ?v then None else map_of ?es k)" for k
    by (simp add: delete_conv')
  have sum: "resident_sum ?es (lru sh) = resident_sum ?es' (butlast (lru sh)) + entry_bytes ?es ?v"
  proof -
    have "resident_sum ?es (lru sh) = resident_sum ?es (butlast (lru sh)) + entry_bytes ?es ?v"
      by (subst l) (rule resident_sum_snoc)
    moreover have "resident_sum ?es' (butlast (lru sh)) = resident_sum ?es (butlast (lru sh))"
      using vb mo by (intro resident_sum_cong) auto
    ultimately show ?thesis by simp
  qed
  have "entry_bytes ?es ?v < 2 ^ 64" using entry_bytes_le [OF wf, of ?v] by (simp add: max_block_def)
  then have rb: "unat (residentBytes (evict_one sh)) = resident_sum ?es' (butlast (lru sh))"
    using w(5) sum by (simp add: evict_one_def Let_def unat_u64_sub word_le_nat_alt)
  then show "unat (residentBytes (evict_one sh)) \<le> unat (residentBytes sh)" using w(5) sum by simp
  show "k \<noteq> ?v \<Longrightarrow> map_of (entries (evict_one sh)) k = map_of ?es k"
    and "map_of (entries (evict_one sh)) ?v = None" using mo by (simp_all add: evict_one_def Let_def)
  show "shard_wf (evict_one sh)"
  proof (rule shard_wfI)
    show "distinct (map fst (entries (evict_one sh)))"
      using w(1) by (simp add: evict_one_def Let_def distinct_delete)
    show "distinct (lru (evict_one sh))" using w(2) by (simp add: evict_one_def Let_def distinct_butlast)
    show "k \<in> set (lru (evict_one sh)) \<longleftrightarrow>
        (\<exists>e. map_of (entries (evict_one sh)) k = Some e \<and> \<not> e_pending e)" for k
    proof (cases "k = ?v")
      case True
      then show ?thesis using vb mo by (simp add: evict_one_def Let_def)
    next
      case False
      then have "k \<in> set (lru sh) \<longleftrightarrow> k \<in> set (butlast (lru sh))" by (subst l) simp
      then show ?thesis using False w(3) [of k] mo by (simp add: evict_one_def Let_def)
    qed
    show "map_of (entries (evict_one sh)) k = Some e \<Longrightarrow> entry_ok e" for k e
      using mo w(4) by (auto simp: evict_one_def Let_def split: if_splits)
    show "unat (residentBytes (evict_one sh)) =
        resident_sum (entries (evict_one sh)) (lru (evict_one sh))"
      using rb by (simp add: evict_one_def Let_def)
  qed
qed

text \<open>
  What the eviction loop leaves: a prefix of the LRU list that still has its front, the
  entries of that prefix and the pending ones unchanged and no others, the budget kept
  or one block left, and both byte totals reduced by the same amount.
\<close>

definition evicted_to :: "Shard \<Rightarrow> Shard \<Rightarrow> bool" where
  "evicted_to sh sh' \<longleftrightarrow>
     (\<exists>m. 1 \<le> m \<and> lru sh' = take m (lru sh)) \<and>
     (\<forall>k. map_of (entries sh') k =
        (if k \<in> set (lru sh) \<and> k \<notin> set (lru sh') then None else map_of (entries sh) k))"

lemma evicted_to_refl: "evicted_to sh sh"
  unfolding evicted_to_def by (auto intro: exI [of _ "Suc (length (lru sh))"])

lemma EvictLocked_spec:
  assumes "shard_wf sh" "lru sh \<noteq> []" "EvictLocked sh budget t n = (sh', t', n')"
  shows "shard_wf sh' \<and> within_budget budget sh' \<and> evicted_to sh sh' \<and>
         t' - residentBytes sh' = t - residentBytes sh"
  using assms
proof (induction "length (lru sh)" arbitrary: sh t n rule: less_induct)
  case less
  show ?case
  proof (cases "residentBytes sh > budget \<and> length (lru sh) > 1")
    case True
    let ?sh1 = "evict_one sh" and ?v = "last (lru sh)"
    let ?eb = "of_nat (entry_bytes (entries sh) (last (lru sh))) :: u64"
    have lru1: "lru ?sh1 = butlast (lru sh)" by (simp add: evict_one_def Let_def)
    have len1: "length (butlast (lru sh)) = length (lru sh) - 1" by simp
    have ne1: "lru ?sh1 \<noteq> []" using True lru1 len1 by (metis length_0_conv not_less0 zero_less_diff)
    have "EvictLocked ?sh1 budget (t - ?eb) (n + 1) = (sh', t', n')"
      using less.prems True EvictLocked_step [OF less.prems(1,2)] by simp
    then have IH: "shard_wf sh' \<and> within_budget budget sh' \<and> evicted_to ?sh1 sh' \<and>
        t' - residentBytes sh' = (t - ?eb) - residentBytes ?sh1"
      using less.prems(1,2) True ne1 lru1 len1
      by (intro less.hyps evict_one_facts(1)) auto
    moreover have "(t - ?eb) - residentBytes ?sh1 = t - residentBytes sh"
      by (simp add: evict_one_def Let_def)
    moreover have "evicted_to sh sh'"
    proof -
      obtain m where m: "1 \<le> m" "lru sh' = take m (butlast (lru sh))"
        using IH lru1 by (auto simp: evicted_to_def)
      have "?v \<notin> set (butlast (lru sh))"
        using shard_wfD(2) [OF less.prems(1)] less.prems(2)
        by (metis append_butlast_last_id not_distinct_conv_prefix distinct_append)
      then have v: "?v \<notin> set (lru sh')" using m(2) by (metis in_set_takeD)
      have "map_of (entries sh') k =
          (if k \<in> set (lru sh) \<and> k \<notin> set (lru sh') then None else map_of (entries sh) k)" for k
      proof (cases "k = ?v")
        case True
        then show ?thesis
          using IH lru1 v evict_one_facts(4) [OF less.prems(1,2)] less.prems(2)
          by (auto simp: evicted_to_def)
      next
        case False
        then have "k \<in> set (lru sh) \<longleftrightarrow> k \<in> set (butlast (lru sh))"
          using less.prems(2) by (metis append_butlast_last_id in_set_butlastD in_set_conv_decomp set_ConsD
              rotate1.simps(2) set_rotate1)
        then show ?thesis
          using IH lru1 False evict_one_facts(3) [OF less.prems(1,2) False] by (simp add: evicted_to_def)
      qed
      moreover have "take m (butlast (lru sh)) = take (min m (length (lru sh) - 1)) (lru sh)"
        by (simp add: butlast_conv_take)
      moreover have "1 \<le> min m (length (lru sh) - 1)" using m(1) True by linarith
      ultimately show ?thesis unfolding evicted_to_def m(2) by blast
    qed
    ultimately show ?thesis by simp
  next
    case False
    then have "sh' = sh" "t' = t"
      using less.prems EvictLocked_step [OF less.prems(1,2)] by auto
    then show ?thesis
      using False less.prems(1) evicted_to_refl by (auto simp: within_budget_def)
  qed
qed


section \<open>Operations on the stripes\<close>

datatype slot = Pending | Ready bytes

definition slot_of :: "Entry \<Rightarrow> slot" where
  "slot_of e = (case e_block e of Some b \<Rightarrow> Ready b | None \<Rightarrow> Pending)"

text \<open>The abstract store: what each key holds.\<close>

definition slots :: "BlockCache \<Rightarrow> ShardKey \<Rightarrow> slot option" where
  "slots s key = map_option slot_of (map_of (entries (ShardFor s key)) key)"

lemma store_invD:
  assumes "store_inv s"
  shows "shard_index s k < length (shards s)" "shard_wf (ShardFor s k)"
    "within_budget (shardBudget s) (ShardFor s k)"
    "\<And>k'. map_of (entries (ShardFor s k)) k' \<noteq> None \<Longrightarrow> shard_index s k' = shard_index s k"
proof -
  have "ShardKeyHash k AND shardMask s \<le> shardMask s" by (rule word_and_le1)
  then show i: "shard_index s k < length (shards s)"
    using assms by (simp add: store_inv_def shard_index_def word_le_nat_alt)
  then show "shard_wf (ShardFor s k)" "within_budget (shardBudget s) (ShardFor s k)"
    using assms by (auto simp: store_inv_def ShardFor_def)
  show "shard_index s k' = shard_index s k" if "map_of (entries (ShardFor s k)) k' \<noteq> None" for k'
  proof -
    have "k' \<in> fst ` set (entries (shards s ! shard_index s k))"
      using that by (metis ShardFor_def map_of_eq_None_iff)
    then show ?thesis using assms i by (auto simp: store_inv_def)
  qed
qed

lemma shard_index_put [simp]: "shard_index (put_shard k sh s) k' = shard_index s k'"
  by (simp add: shard_index_def put_shard_def)

lemma shard_index_total [simp]: "shard_index (s\<lparr>residentTotal := t\<rparr>) k = shard_index s k"
  by (simp add: shard_index_def)

lemma ShardFor_put:
  assumes "store_inv s"
  shows "ShardFor (put_shard k sh s) k' = (if shard_index s k' = shard_index s k then sh else ShardFor s k')"
  using store_invD(1) [OF assms, of k] by (simp add: ShardFor_def nth_list_update) (simp add: put_shard_def)

lemma sum_list_update_word:
  fixes xs :: "u64 list"
  shows "i < length xs \<Longrightarrow> sum_list (xs[i := v]) = sum_list xs - xs ! i + v"
  by (induction xs arbitrary: i) (auto split: nat.splits)

lemma store_inv_put:
  assumes inv: "store_inv s" and wf: "shard_wf sh" "within_budget (shardBudget s) sh"
    and keys: "\<And>k'. map_of (entries sh) k' \<noteq> None \<Longrightarrow> shard_index s k' = shard_index s k"
    and tot: "t - residentBytes sh = residentTotal s - residentBytes (ShardFor s k)"
  shows "store_inv ((put_shard k sh s)\<lparr>residentTotal := t\<rparr>)"
proof -
  let ?i = "shard_index s k"
  have i: "?i < length (shards s)" by (rule store_invD(1) [OF inv])
  have "shard_wf ((shards s)[?i := sh] ! j) \<and> within_budget (shardBudget s) ((shards s)[?i := sh] ! j) \<and>
      (\<forall>k' \<in> fst ` set (entries ((shards s)[?i := sh] ! j)). shard_index s k' = j)"
    if "j < length (shards s)" for j
  proof (cases "j = ?i")
    case True
    have "\<forall>k' \<in> fst ` set (entries sh). shard_index s k' = ?i"
      using keys by (metis map_of_eq_None_iff)
    then show ?thesis using True that wf by simp
  next
    case False
    then show ?thesis using inv that by (auto simp: store_inv_def)
  qed
  moreover have "t = sum_list (map residentBytes ((shards s)[?i := sh]))"
    using inv i tot by (simp add: map_update sum_list_update_word store_inv_def ShardFor_def algebra_simps)
  ultimately show ?thesis
    using inv by (simp add: store_inv_def put_shard_def shard_index_def)
qed

lemma store_inv_put_same:
  assumes "store_inv s" "shard_wf sh" "within_budget (shardBudget s) sh"
    "\<And>k'. map_of (entries sh) k' \<noteq> None \<Longrightarrow> shard_index s k' = shard_index s k"
    "residentBytes sh = residentBytes (ShardFor s k)"
  shows "store_inv (put_shard k sh s)"
proof -
  have "store_inv ((put_shard k sh s)\<lparr>residentTotal := residentTotal s\<rparr>)"
    using assms by (intro store_inv_put) auto
  moreover have "(put_shard k sh s)\<lparr>residentTotal := residentTotal s\<rparr> = put_shard k sh s"
    by (simp add: put_shard_def)
  ultimately show ?thesis by simp
qed

lemma shard_wf_touch:
  assumes "shard_wf sh" "map_of (entries sh) key = Some e" "\<not> e_pending e"
  shows "shard_wf (TouchLocked key e sh)" "within_budget b (TouchLocked key e sh) = within_budget b sh"
    "entries (TouchLocked key e sh) = entries sh" "residentBytes (TouchLocked key e sh) = residentBytes sh"
proof -
  note w = shard_wfD [OF assms(1)]
  have k: "key \<in> set (lru sh)" using w(3) assms(2,3) by blast
  then have set: "set (key # remove1 key (lru sh)) = set (lru sh)" using w(2) by auto
  have len: "length (key # remove1 key (lru sh)) = length (lru sh)"
    using length_pos_if_in_set [OF k] k by (simp add: length_remove1)
  show "within_budget b (TouchLocked key e sh) = within_budget b sh"
    using len by (simp add: TouchLocked_def within_budget_def)
  show ent: "entries (TouchLocked key e sh) = entries sh"
    and rb: "residentBytes (TouchLocked key e sh) = residentBytes sh" by (simp_all add: TouchLocked_def)
  have "unat (residentBytes sh) = resident_sum (entries sh) (key # remove1 key (lru sh))"
    using w(5) resident_sum_remove1 [OF k, of "entries sh"] by simp
  then show "shard_wf (TouchLocked key e sh)"
    using w set by (auto simp: TouchLocked_def shard_wf_def intro!: distinct_remove1)
qed

lemma shard_wf_pending:
  assumes "shard_wf sh" "map_of (entries sh) key = None"
  defines "sh' \<equiv> sh\<lparr>entries := (key, Entry_pending) # entries sh\<rparr>"
  shows "shard_wf sh'"
proof -
  note w = shard_wfD [OF assms(1)]
  have kl: "key \<notin> set (lru sh)" using w(3) assms(2) by auto
  have "resident_sum ((key, Entry_pending) # entries sh) (lru sh) = resident_sum (entries sh) (lru sh)"
    using kl by (intro resident_sum_cong) auto
  then show ?thesis
    using w kl assms(2)
    by (intro shard_wfI) (auto simp: sh'_def map_of_eq_None_iff Entry_pending_def entry_ok_def split: if_splits)
qed

lemma shard_wf_abandon:
  assumes "shard_wf sh" "map_of (entries sh) key = Some e" "e_pending e"
  defines "sh' \<equiv> sh\<lparr>entries := AList.delete key (entries sh)\<rparr>"
  shows "shard_wf sh'"
proof -
  note w = shard_wfD [OF assms(1)]
  have kl: "key \<notin> set (lru sh)" using w(3) assms(2,3) by auto
  have "resident_sum (AList.delete key (entries sh)) (lru sh) = resident_sum (entries sh) (lru sh)"
    using kl by (intro resident_sum_cong) (auto simp: delete_conv')
  then show ?thesis
    using w kl
    by (intro shard_wfI) (auto simp: sh'_def delete_conv' distinct_delete split: if_splits)
qed

lemma shard_wf_publish:
  assumes "shard_wf sh" "map_of (entries sh) key = Some e" "e_pending e" "length block \<le> max_block"
    and "unat (residentBytes sh) + length block < 2 ^ 64"
  defines "sh' \<equiv> sh\<lparr>entries := AList.update key (e\<lparr>e_block := Some block, e_pending := False,
      e_bytes := of_nat (length block), e_inLru := True\<rparr>) (entries sh), lru := key # lru sh,
      residentBytes := residentBytes sh + of_nat (length block)\<rparr>"
  shows "shard_wf sh'"
proof -
  note w = shard_wfD [OF assms(1)]
  let ?e = "e\<lparr>e_block := Some block, e_pending := False, e_bytes := of_nat (length block), e_inLru := True\<rparr>"
  have kl: "key \<notin> set (lru sh)" using w(3) assms(2,3) by auto
  have mo: "map_of (AList.update key ?e (entries sh)) k = (if k = key then Some ?e else map_of (entries sh) k)"
    for k by (simp add: update_conv')
  have "resident_sum (AList.update key ?e (entries sh)) (lru sh) = resident_sum (entries sh) (lru sh)"
    using kl by (intro resident_sum_cong) (auto simp: mo)
  moreover have "entry_bytes (AList.update key ?e (entries sh)) key = length block"
    by (simp add: entry_bytes_def mo)
  moreover have "unat (residentBytes sh + of_nat (length block)) = unat (residentBytes sh) + length block"
    using assms(5) by (subst unat_u64_add) auto
  ultimately have rb: "unat (residentBytes sh') = resident_sum (entries sh') (lru sh')"
    using w(5) by (simp add: sh'_def)
  show ?thesis
  proof (rule shard_wfI)
    show "distinct (map fst (entries sh'))" using w(1) by (simp add: sh'_def distinct_update)
    show "distinct (lru sh')" using w(2) kl by (simp add: sh'_def)
    show "k \<in> set (lru sh') \<longleftrightarrow> (\<exists>e. map_of (entries sh') k = Some e \<and> \<not> e_pending e)" for k
      using w(3) [of k] by (simp add: sh'_def mo)
    show "map_of (entries sh') k = Some e' \<Longrightarrow> entry_ok e'" for k e'
      using w(4) [of k e'] assms(4) by (auto simp: sh'_def mo entry_ok_def split: if_splits)
  qed (rule rb)
qed

section \<open>Operations on the abstract store\<close>

lemma slots_put:
  assumes "store_inv s"
  shows "slots (put_shard k sh s) k' =
    (if shard_index s k' = shard_index s k then map_option slot_of (map_of (entries sh) k')
     else slots s k')"
  using ShardFor_put [OF assms, of k sh k'] by (simp add: slots_def)

lemma slots_total [simp]: "slots (s\<lparr>residentTotal := t\<rparr>) k = slots s k"
  by (simp add: slots_def ShardFor_def)

lemma slots_same_shard:
  "shard_index s k' = shard_index s k \<Longrightarrow>
     slots s k' = map_option slot_of (map_of (entries (ShardFor s k)) k')"
  by (simp add: slots_def ShardFor_def)

lemma slots_Pending:
  assumes "store_inv s" "map_of (entries (ShardFor s k)) k = Some e"
  shows "slots s k = Some Pending \<longleftrightarrow> e_pending e"
    "\<not> e_pending e \<Longrightarrow> \<exists>x. e_block e = Some x \<and> slots s k = Some (Ready x)"
  using shard_wfD(4) [OF store_invD(2) [OF assms(1)] assms(2)] assms(2)
  by (auto simp: slots_def slot_of_def entry_ok_def split: option.split)

lemma slots_None: "slots s k = None \<longleftrightarrow> map_of (entries (ShardFor s k)) k = None"
  by (simp add: slots_def)

lemma slots_PendingE:
  assumes "store_inv s" "slots s k = Some Pending"
  obtains e where "map_of (entries (ShardFor s k)) k = Some e" "e_pending e"
proof -
  obtain e where e: "map_of (entries (ShardFor s k)) k = Some e"
    using assms(2) by (auto simp: slots_def)
  then show ?thesis using that slots_Pending(1) [OF assms(1) e] assms(2) by blast
qed

lemma slots_ReadyE:
  assumes "store_inv s" "slots s k = Some (Ready x)"
  obtains e where "map_of (entries (ShardFor s k)) k = Some e" "\<not> e_pending e" "e_block e = Some x"
proof -
  obtain e where e: "map_of (entries (ShardFor s k)) k = Some e"
    using assms(2) by (auto simp: slots_def)
  then show ?thesis
    using that slots_Pending [OF assms(1) e] assms(2) by auto
qed

lemma touch_facts:
  assumes "store_inv s" "map_of (entries (ShardFor s k)) k = Some e" "\<not> e_pending e"
  defines "s' \<equiv> put_shard k (TouchLocked k e (ShardFor s k)) s"
  shows "store_inv s'" "slots s' = slots s"
proof -
  note t = shard_wf_touch [OF store_invD(2) [OF assms(1)] assms(2,3)]
  show "store_inv s'"
    unfolding s'_def using t store_invD(3,4) [OF assms(1), of k] assms(1)
    by (intro store_inv_put_same) auto
  show "slots s' = slots s"
    unfolding s'_def using t(3) slots_same_shard [of s _ k]
    by (auto simp: slots_put [OF assms(1)])
qed

lemma Acquire_absent:
  assumes "store_inv s" "slots s (block_key b i) = None"
  shows "acq_outcome (fst (Acquire b i s)) = Owned" "store_inv (snd (Acquire b i s))"
    "slots (snd (Acquire b i s)) = (slots s)(block_key b i \<mapsto> Pending)"
proof -
  let ?k = "block_key b i"
  have none: "map_of (entries (ShardFor s ?k)) ?k = None" using assms(2) by (simp add: slots_None)
  then show "acq_outcome (fst (Acquire b i s)) = Owned" by (simp add: Acquire_def Let_def)
  let ?sh = "(ShardFor s ?k)\<lparr>entries := (?k, Entry_pending) # entries (ShardFor s ?k)\<rparr>"
  have s': "snd (Acquire b i s) = put_shard ?k ?sh s" using none by (simp add: Acquire_def Let_def)
  have "shard_wf ?sh" using store_invD(2) [OF assms(1)] none by (rule shard_wf_pending)
  then show "store_inv (snd (Acquire b i s))"
    unfolding s' using store_invD(3,4) [OF assms(1), of ?k] assms(1)
    by (intro store_inv_put_same) (auto simp: within_budget_def split: if_splits)
  show "slots (snd (Acquire b i s)) = (slots s)(?k \<mapsto> Pending)"
    unfolding s' using slots_same_shard [of s _ ?k]
    by (auto simp: slots_put [OF assms(1)] slot_of_def Entry_pending_def)
qed

lemma Acquire_pending:
  assumes "store_inv s" "slots s (block_key b i) = Some Pending"
  shows "Acquire b i s = (\<lparr>acq_outcome = Busy, acq_block = None\<rparr>, s)"
  using assms by (auto elim!: slots_PendingE simp: Acquire_def Let_def)

lemma Acquire_ready:
  assumes "store_inv s" "slots s (block_key b i) = Some (Ready x)"
  shows "fst (Acquire b i s) = \<lparr>acq_outcome = Hit, acq_block = Some x\<rparr>"
    "store_inv (snd (Acquire b i s))" "slots (snd (Acquire b i s)) = slots s"
proof -
  obtain e where e: "map_of (entries (ShardFor s (block_key b i))) (block_key b i) = Some e"
    "\<not> e_pending e" "e_block e = Some x" using assms by (rule slots_ReadyE)
  then show "fst (Acquire b i s) = \<lparr>acq_outcome = Hit, acq_block = Some x\<rparr>"
    "store_inv (snd (Acquire b i s))" "slots (snd (Acquire b i s)) = slots s"
    using touch_facts [OF assms(1) e(1,2)] by (simp_all add: Acquire_def Let_def)
qed

lemma Await_poll_cases:
  assumes "store_inv s"
  shows "slots s (block_key b i) = None \<Longrightarrow> Await_poll b i s = (Some None, s)"
    "slots s (block_key b i) = Some Pending \<Longrightarrow> Await_poll b i s = (None, s)"
    "slots s (block_key b i) = Some (Ready x) \<Longrightarrow> fst (Await_poll b i s) = Some (Some x)"
    "store_inv (snd (Await_poll b i s))" "slots (snd (Await_poll b i s)) = slots s"
proof -
  let ?k = "block_key b i"
  show "slots s ?k = None \<Longrightarrow> Await_poll b i s = (Some None, s)"
    by (simp add: slots_None Await_poll_def Let_def)
  show "slots s ?k = Some Pending \<Longrightarrow> Await_poll b i s = (None, s)"
    using assms by (auto elim!: slots_PendingE simp: Await_poll_def Let_def)
  show "slots s ?k = Some (Ready x) \<Longrightarrow> fst (Await_poll b i s) = Some (Some x)"
    using assms by (auto elim!: slots_ReadyE simp: Await_poll_def Let_def)
  show "store_inv (snd (Await_poll b i s))" "slots (snd (Await_poll b i s)) = slots s"
    using assms touch_facts [OF assms] by (auto simp: Await_poll_def Let_def split: option.split)
qed

lemma Abandon_facts:
  assumes "store_inv s"
  shows "store_inv (Abandon b i s)"
    "slots (Abandon b i s) =
      (if slots s (block_key b i) = Some Pending then (slots s)(block_key b i := None) else slots s)"
proof -
  let ?k = "block_key b i"
  have "store_inv (Abandon b i s) \<and> slots (Abandon b i s) = (slots s)(?k := None)"
    if p: "slots s ?k = Some Pending"
  proof -
    obtain e where e: "map_of (entries (ShardFor s ?k)) ?k = Some e" "e_pending e"
      using assms p by (rule slots_PendingE)
    let ?sh = "(ShardFor s ?k)\<lparr>entries := AList.delete ?k (entries (ShardFor s ?k))\<rparr>"
    have s': "Abandon b i s = put_shard ?k ?sh s" using e by (simp add: Abandon_def Let_def)
    have "shard_wf ?sh" using store_invD(2) [OF assms] e by (rule shard_wf_abandon)
    then have "store_inv (put_shard ?k ?sh s)"
      using store_invD(3,4) [OF assms, of ?k] assms
      by (intro store_inv_put_same) (auto simp: within_budget_def delete_conv' split: if_splits)
    moreover have "slots (put_shard ?k ?sh s) = (slots s)(?k := None)"
      using slots_same_shard [of s _ ?k] by (auto simp: slots_put [OF assms] delete_conv')
    ultimately show ?thesis using s' by simp
  qed
  moreover have "Abandon b i s = s" if "slots s ?k \<noteq> Some Pending"
    using that slots_Pending(1) [OF assms] by (auto simp: Abandon_def Let_def split: option.split)
  ultimately show "store_inv (Abandon b i s)"
    "slots (Abandon b i s) = (if slots s ?k = Some Pending then (slots s)(?k := None) else slots s)"
    using assms by (cases "slots s ?k = Some Pending"; simp)+
qed

lemma Publish_other:
  assumes "store_inv s" "slots s (block_key b i) \<noteq> Some Pending"
  shows "Publish b i x s = (0, s)"
  using assms slots_Pending(1) [OF assms(1)] by (auto simp: Publish_def Let_def split: option.split)

lemma resident_bound:
  assumes "store_inv s"
  shows "unat (residentBytes (ShardFor s k)) \<le> max (unat (shardBudget s)) max_block"
proof (cases "residentBytes (ShardFor s k) \<le> shardBudget s")
  case False
  then have "length (lru (ShardFor s k)) \<le> 1"
    using store_invD(3) [OF assms, of k] by (simp add: within_budget_def)
  then have "resident_sum (entries (ShardFor s k)) (lru (ShardFor s k)) \<le> max_block"
    using entry_bytes_le [OF store_invD(2) [OF assms]]
    by (cases "lru (ShardFor s k)") (auto simp: le_Suc_eq)
  then show ?thesis using shard_wfD(5) [OF store_invD(2) [OF assms]] by simp
qed (simp add: word_le_nat_alt)

lemma Publish_pending:
  assumes inv: "store_inv s" and p: "slots s (block_key b i) = Some Pending"
    and len: "length x \<le> max_block"
  defines "s' \<equiv> snd (Publish b i x s)"
  shows "store_inv s'" "slots s' (block_key b i) = Some (Ready x)"
    "k' \<noteq> block_key b i \<Longrightarrow>
       slots s' k' = slots s k' \<or> slots s' k' = None \<and> (\<exists>y. slots s k' = Some (Ready y))"
proof -
  let ?k = "block_key b i" and ?sh = "ShardFor s (block_key b i)"
  obtain e where e: "map_of (entries ?sh) ?k = Some e" "e_pending e" using inv p by (rule slots_PendingE)
  let ?e = "e\<lparr>e_block := Some x, e_pending := False, e_bytes := of_nat (length x), e_inLru := True\<rparr>"
  define sh1 where "sh1 = ?sh\<lparr>entries := AList.update ?k ?e (entries ?sh), lru := ?k # lru ?sh,
      residentBytes := residentBytes ?sh + of_nat (length x)\<rparr>"
  define sh2 where "sh2 = sh1\<lparr>sh_peakResidentBytes := max (sh_peakResidentBytes sh1) (residentBytes sh1)\<rparr>"
  obtain sh3 t3 n3 where ev:
    "EvictLocked sh2 (shardBudget s) (residentTotal s + of_nat (length x)) 0 = (sh3, t3, n3)"
    by (cases "EvictLocked sh2 (shardBudget s) (residentTotal s + of_nat (length x)) 0") auto
  have s': "s' = (put_shard ?k sh3 s)\<lparr>residentTotal := t3\<rparr>"
    using e ev by (simp add: s'_def Publish_def Let_def sh1_def sh2_def)
  have "unat (residentBytes ?sh) + length x < 2 ^ 64"
    using resident_bound [OF inv, of ?k] len inv by (auto simp: store_inv_def max_block_def)
  then have "shard_wf sh1"
    unfolding sh1_def using store_invD(2) [OF inv] e len by (intro shard_wf_publish) auto
  then have wf2: "shard_wf sh2" using shard_wf_cong(1) [of sh2 sh1] by (simp add: sh2_def)
  have lru2: "lru sh2 = ?k # lru ?sh" by (simp add: sh2_def sh1_def)
  note spec = EvictLocked_spec [OF wf2 _ ev]
  then have r: "shard_wf sh3" "within_budget (shardBudget s) sh3" "evicted_to sh2 sh3"
    "t3 - residentBytes sh3 = residentTotal s - residentBytes ?sh"
    using lru2 by (auto simp: sh2_def sh1_def)
  obtain m where m: "1 \<le> m" "lru sh3 = take m (?k # lru ?sh)"
    using r(3) lru2 by (auto simp: evicted_to_def)
  then have k3: "?k \<in> set (lru sh3)" by (cases m) auto
  have mo3: "map_of (entries sh3) k' = (if k' = ?k then Some ?e
      else if k' \<in> set (lru ?sh) \<and> k' \<notin> set (lru sh3) then None else map_of (entries ?sh) k')" for k'
    using r(3) k3 lru2 by (auto simp: evicted_to_def sh2_def sh1_def update_conv')
  have "store_inv ((put_shard ?k sh3 s)\<lparr>residentTotal := t3\<rparr>)"
    using inv r store_invD(4) [OF inv, of ?k]
    by (intro store_inv_put) (auto simp: mo3 split: if_splits)
  then show "store_inv s'" using s' by simp
  show "slots s' ?k = Some (Ready x)" unfolding s' by (simp add: slots_put [OF inv] mo3 slot_of_def)
  show "slots s' k' = slots s k' \<or> slots s' k' = None \<and> (\<exists>y. slots s k' = Some (Ready y))"
    if "k' \<noteq> ?k"
  proof (cases "shard_index s k' = shard_index s ?k \<and> k' \<in> set (lru ?sh) \<and> k' \<notin> set (lru sh3)")
    case True
    then obtain e' where e': "map_of (entries ?sh) k' = Some e'" "\<not> e_pending e'"
      using shard_wfD(3) [OF store_invD(2) [OF inv]] by blast
    have "ShardFor s k' = ?sh" using True by (simp add: ShardFor_def)
    then have "\<exists>y. slots s k' = Some (Ready y)"
      using slots_Pending(2) [OF inv, of k' e'] e' by auto
    then show ?thesis unfolding s' using True that by (simp add: slots_put [OF inv] mo3)
  next
    case False
    then show ?thesis
      unfolding s' using that slots_same_shard [of s k' ?k] by (auto simp: slots_put [OF inv] mo3)
  qed
qed


lemma resident_sum_filter:
  "resident_sum es (filter P ks) + resident_sum es (filter (\<lambda>k. \<not> P k) ks) = resident_sum es ks"
  by (induction ks) auto

lemma resident_sum_perm:
  "distinct ks \<Longrightarrow> distinct ls \<Longrightarrow> set ks = set ls \<Longrightarrow> resident_sum es ks = resident_sum es ls"
  unfolding resident_sum_def by (simp add: sum_list_distinct_conv_sum_set)

lemma map_of_filter_key: "map_of (filter (\<lambda>(k, e). P k) es) k = (if P k then map_of es k else None)"
  by (induction es) auto

text \<open>The bytes the destructor frees are those of the identity's resident entries.\<close>

lemma freed_sum_aux:
  assumes "\<forall>(k, e) \<in> set es. entry_ok e"
  shows "sum_list (map (\<lambda>(k, e). if e_inLru e then e_bytes e else 0) es) =
    (of_nat (sum_list (map (\<lambda>(k, e). case e_block e of Some b \<Rightarrow> length b | None \<Rightarrow> 0) es)) :: u64)"
  using assms by (induction es) (auto simp: entry_ok_def split: option.split)

lemma freed_sum:
  assumes "distinct (map fst es)" "distinct ks" "\<And>k e. map_of es k = Some e \<Longrightarrow> entry_ok e"
    "\<And>k. k \<in> set ks \<longleftrightarrow> (\<exists>e. map_of es k = Some e \<and> \<not> e_pending e)"
  shows "sum_list (map (\<lambda>(k, e). if e_inLru e then e_bytes e else 0) (filter (\<lambda>(k, e). P k) es)) =
    (of_nat (resident_sum es (filter P ks)) :: u64)"
proof -
  let ?fs = "filter (\<lambda>(k, e). P k) es"
  let ?len = "\<lambda>(k, e). case e_block e of Some b \<Rightarrow> length b | None \<Rightarrow> 0"
  have eb: "entry_bytes es k = ?len (k, e)" if "(k, e) \<in> set es" for k e
    using that assms(1) by (simp add: entry_bytes_def)
  have "sum_list (map ?len ?fs) = sum_list (map (entry_bytes es) (map fst ?fs))"
    unfolding map_map by (intro arg_cong [of _ _ sum_list] map_cong refl) (use eb in auto)
  also have "\<dots> = (\<Sum>k \<in> fst ` set ?fs. entry_bytes es k)"
    using assms(1) by (subst sum_list_distinct_conv_sum_set) (auto simp: distinct_map_filter)
  also have "\<dots> = (\<Sum>k \<in> set (filter P ks). entry_bytes es k)"
  proof (rule sum.mono_neutral_right)
    show "set (filter P ks) \<subseteq> fst ` set ?fs"
      using assms(4) by (force dest: map_of_SomeD)
    show "\<forall>k \<in> fst ` set ?fs - set (filter P ks). entry_bytes es k = 0"
    proof
      fix k assume k: "k \<in> fst ` set ?fs - set (filter P ks)"
      then obtain e where e: "(k, e) \<in> set es" "P k" by auto
      then have "map_of es k = Some e" "k \<notin> set ks" using assms(1) k by auto
      then show "entry_bytes es k = 0"
        using assms(3,4) by (auto simp: entry_bytes_def entry_ok_def)
    qed
  qed simp
  also have "\<dots> = resident_sum es (filter P ks)"
    using assms(2) by (simp add: resident_sum_def sum_list_distinct_conv_sum_set)
  finally have "sum_list (map ?len ?fs) = resident_sum es (filter P ks)" .
  moreover have "\<forall>(k, e) \<in> set ?fs. entry_ok e" using assms(1,3) by (auto dest: map_of_is_SomeI)
  ultimately show ?thesis using freed_sum_aux [of ?fs] by simp
qed

lemma drop_identity_facts:
  assumes "shard_wf sh"
  shows "shard_wf (fst (drop_identity ident sh))"
    "unat (residentBytes (fst (drop_identity ident sh))) \<le> unat (residentBytes sh)"
    "length (lru (fst (drop_identity ident sh))) \<le> length (lru sh)"
    "snd (drop_identity ident sh) = residentBytes sh - residentBytes (fst (drop_identity ident sh))"
    "map_of (entries (fst (drop_identity ident sh))) k =
       (if identityId k = ident then None else map_of (entries sh) k)"
proof -
  let ?keep = "\<lambda>k. identityId k \<noteq> ident" and ?es = "entries sh"
  let ?es' = "filter (\<lambda>(k, e). identityId k \<noteq> ident) (entries sh)"
  let ?sh' = "fst (drop_identity ident sh)"
  note w = shard_wfD [OF assms]
  have f: "entries ?sh' = ?es'" "lru ?sh' = filter ?keep (lru sh)"
    by (simp_all add: drop_identity_def Let_def)
  have mo: "map_of ?es' k = (if identityId k = ident then None else map_of ?es k)" for k
    by (simp add: map_of_filter_key [of "\<lambda>k. identityId k \<noteq> ident"])
  then show "map_of (entries ?sh') k = (if identityId k = ident then None else map_of ?es k)"
    using f by simp
  show "length (lru ?sh') \<le> length (lru sh)" using f by simp
  have freed: "snd (drop_identity ident sh) = of_nat (resident_sum ?es (filter (\<lambda>k. \<not> ?keep k) (lru sh)))"
  proof -
    have "sum_list (map (\<lambda>(k, e). if e_inLru e then e_bytes e else 0)
        (filter (\<lambda>(k, e). identityId k = ident) ?es)) =
      (of_nat (resident_sum ?es (filter (\<lambda>k. identityId k = ident) (lru sh))) :: u64)"
      by (rule freed_sum) (fact w(1), fact w(2), erule w(4), rule w(3))
    then show ?thesis by (simp add: drop_identity_def Let_def)
  qed
  have split: "resident_sum ?es (lru sh) =
      resident_sum ?es (filter ?keep (lru sh)) + resident_sum ?es (filter (\<lambda>k. \<not> ?keep k) (lru sh))"
    by (rule resident_sum_filter [symmetric])
  have keep: "resident_sum ?es' (filter ?keep (lru sh)) = resident_sum ?es (filter ?keep (lru sh))"
    by (intro resident_sum_cong) (simp add: mo)
  have rb: "residentBytes ?sh' = residentBytes sh - snd (drop_identity ident sh)"
    by (simp add: drop_identity_def Let_def)
  let ?d = "resident_sum ?es (filter (\<lambda>k. \<not> ?keep k) (lru sh))"
  have le: "?d \<le> unat (residentBytes sh)" using w(5) split by linarith
  from le_less_trans [OF le unat_u64_less] have "?d < 2 ^ 64" by simp
  then have d: "unat (of_nat ?d :: u64) = ?d" by (rule unat_of_nat_u64)
  have "unat (residentBytes ?sh') = unat (residentBytes sh) - ?d"
    unfolding rb freed using le d by (subst unat_u64_sub) (simp_all only: word_le_nat_alt)
  then have "unat (residentBytes ?sh') = resident_sum ?es (filter ?keep (lru sh))"
    using w(5) split by linarith
  then have rb': "unat (residentBytes ?sh') = resident_sum (entries ?sh') (lru ?sh')"
    using keep f by simp
  then show "unat (residentBytes ?sh') \<le> unat (residentBytes sh)" using f keep split w(5) by simp
  show "snd (drop_identity ident sh) = residentBytes sh - residentBytes ?sh'" using rb by simp
  show "shard_wf ?sh'"
  proof (rule shard_wfI)
    show "distinct (map fst (entries ?sh'))" using w(1) f by (simp add: distinct_map_filter)
    show "distinct (lru ?sh')" using w(2) f by simp
    show "k \<in> set (lru ?sh') \<longleftrightarrow> (\<exists>e. map_of (entries ?sh') k = Some e \<and> \<not> e_pending e)" for k
      using w(3) [of k] f mo by auto
    show "map_of (entries ?sh') k = Some e \<Longrightarrow> entry_ok e" for k e
      using w(4) f mo by (auto split: if_splits)
  qed (rule rb')
qed


lemma ShardFor_map:
  assumes "store_inv s" "shards s' = map f (shards s)" "shardMask s' = shardMask s"
  shows "ShardFor s' k = f (ShardFor s k)"
  using store_invD(1) [OF assms(1), of k] assms(2,3) by (simp add: ShardFor_def shard_index_def)

lemma store_inv_map:
  assumes inv: "store_inv s" and s': "shards s' = map f (shards s)" "shardMask s' = shardMask s"
    "shardBudget s' = shardBudget s" "residentTotal s' = sum_list (map residentBytes (map f (shards s)))"
    and f: "\<And>sh. shard_wf sh \<Longrightarrow> within_budget (shardBudget s) sh \<Longrightarrow>
      shard_wf (f sh) \<and> within_budget (shardBudget s) (f sh) \<and>
      (\<forall>k. map_of (entries (f sh)) k \<noteq> None \<longrightarrow> map_of (entries sh) k \<noteq> None)"
  shows "store_inv s'"
proof -
  have "shard_index s' = shard_index s" using s'(2) by (simp add: shard_index_def fun_eq_iff)
  moreover have "shard_wf (f (shards s ! i)) \<and> within_budget (shardBudget s) (f (shards s ! i)) \<and>
      (\<forall>k \<in> fst ` set (entries (f (shards s ! i))). shard_index s k = i)"
    if "i < length (shards s)" for i
  proof -
    have sh: "shard_wf (shards s ! i)" "within_budget (shardBudget s) (shards s ! i)"
      "\<forall>k \<in> fst ` set (entries (shards s ! i)). shard_index s k = i"
      using inv that by (auto simp: store_inv_def)
    have "fst ` set (entries (f (shards s ! i))) \<subseteq> fst ` set (entries (shards s ! i))"
      using f [OF sh(1,2)] unfolding dom_map_of_conv_image_fst [symmetric] by (auto simp: dom_def)
    then show ?thesis using f [OF sh(1,2)] sh(3) by blast
  qed
  ultimately show ?thesis using inv s' by (simp add: store_inv_def)
qed

lemma within_budget_mono:
  "within_budget b sh \<Longrightarrow> unat (residentBytes sh') \<le> unat (residentBytes sh) \<Longrightarrow>
     length (lru sh') \<le> length (lru sh) \<Longrightarrow> within_budget b sh'"
  by (auto simp: within_budget_def word_le_nat_alt)

lemma sum_list_minus_word:
  fixes f g :: "'a \<Rightarrow> u64"
  assumes "\<And>x. x \<in> set xs \<Longrightarrow> g x = f x - h x"
  shows "sum_list (map f xs) - sum_list (map g xs) = sum_list (map h xs)"
  using assms by (induction xs) (auto simp: algebra_simps)

lemma store_inv_bindings [simp]: "store_inv (s\<lparr>liveBindings := n\<rparr>) = store_inv s"
  by (simp add: store_inv_def shard_index_def)

lemma slots_bindings [simp]: "slots (s\<lparr>liveBindings := n\<rparr>) = slots s"
  by (simp add: slots_def ShardFor_def shard_index_def fun_eq_iff)

lemma Binding_destroy_facts:
  assumes inv: "store_inv s"
  shows "store_inv (Binding_destroy b s)"
    "slots (Binding_destroy b s) k =
      (if isPrivate b \<and> identityId k = b_identityId b then None else slots s k)"
proof -
  let ?f = "\<lambda>sh. fst (drop_identity (b_identityId b) sh)"
  let ?s1 = "s\<lparr>shards := map fst (map (drop_identity (b_identityId b)) (shards s)),
    residentTotal := residentTotal s - sum_list (map snd (map (drop_identity (b_identityId b)) (shards s)))\<rparr>"
  have wf: "shard_wf sh" if "sh \<in> set (shards s)" for sh
    using inv that by (auto simp: store_inv_def in_set_conv_nth)
  have "residentTotal ?s1 = sum_list (map residentBytes (map ?f (shards s)))"
    using inv drop_identity_facts(4) [OF wf]
      sum_list_minus_word [of "shards s" "\<lambda>sh. snd (drop_identity (b_identityId b) sh)" residentBytes
        "\<lambda>sh. residentBytes (?f sh)"]
    by (simp add: store_inv_def o_def)
  then have 1: "store_inv ?s1"
    using inv drop_identity_facts(1-3,5) within_budget_mono
    by (intro store_inv_map [OF inv, of _ ?f]) (auto simp: o_def split: if_splits)
  have 2: "slots ?s1 k = (if identityId k = b_identityId b then None else slots s k)"
    using ShardFor_map [OF inv, of ?s1 ?f k] drop_identity_facts(5) [OF store_invD(2) [OF inv]]
    by (simp add: slots_def o_def)
  show "store_inv (Binding_destroy b s)"
    using 1 inv by (simp add: Binding_destroy_def Let_def)
  show "slots (Binding_destroy b s) k =
      (if isPrivate b \<and> identityId k = b_identityId b then None else slots s k)"
    using 2 by (simp add: Binding_destroy_def Let_def)
qed

lemma ClearForTesting_facts:
  assumes "store_inv s"
  shows "store_inv (ClearForTesting s)" "slots (ClearForTesting s) k = None"
proof -
  let ?f = "\<lambda>shard :: Shard. shard\<lparr>entries := [], lru := [], residentBytes := 0, sh_evictions := 0,
    sh_peakResidentBytes := 0\<rparr>"
  have "sum_list (map residentBytes (map ?f xs)) = 0" for xs by (induction xs) auto
  then show "store_inv (ClearForTesting s)"
    by (intro store_inv_map [OF assms, of _ ?f])
      (auto simp: ClearForTesting_def shard_wf_def within_budget_def)
  show "slots (ClearForTesting s) k = None"
    using ShardFor_map [OF assms, of "ClearForTesting s" ?f k]
    by (simp add: slots_def ClearForTesting_def)
qed

lemma Bind_facts:
  "store_inv (snd (Bind r v bs s)) = store_inv s" "slots (snd (Bind r v bs s)) = slots s"
  by (auto simp: Bind_def Let_def store_inv_def slots_def ShardFor_def shard_index_def fun_eq_iff
      split: option.split)

section \<open>Configuration\<close>

lemma ChooseShardCount_loop_spec:
  assumes "unat count = 2 ^ k" "k + fuel = 7" "k \<le> 6"
  shows "\<exists>j. k \<le> j \<and> j \<le> 6 \<and> unat (ChooseShardCount_loop fuel count desired) = 2 ^ j \<and>
    \<not> (ChooseShardCount_loop fuel count desired < 64 \<and>
       (ucast (ChooseShardCount_loop fuel count desired) :: u64) * 2 \<le> desired)"
  using assms
proof (induction fuel arbitrary: count k)
  case (Suc fuel)
  show ?case
  proof (cases "count < 64 \<and> (ucast count :: u64) * 2 \<le> desired")
    case True
    then have "(2::nat) ^ k < 2 ^ 6" using Suc.prems(1) by (simp add: word_less_nat_alt)
    then have k: "k < 6" by (rule power_strict_increasing_iff [THEN iffD1, rotated]) simp
    have "unat count < 64" using True by (simp add: word_less_nat_alt)
    then have "unat (count * 2) = 2 ^ Suc k" using Suc.prems(1) by (simp add: unat_word_ariths)
    then have "\<exists>j. Suc k \<le> j \<and> j \<le> 6 \<and> unat (ChooseShardCount_loop fuel (count * 2) desired) = 2 ^ j \<and>
        \<not> (ChooseShardCount_loop fuel (count * 2) desired < 64 \<and>
           (ucast (ChooseShardCount_loop fuel (count * 2) desired) :: u64) * 2 \<le> desired)"
      using Suc.prems(2) k by (intro Suc.IH) auto
    then show ?thesis using True by (auto intro: Suc_leD)
  next
    case False
    then show ?thesis using Suc.prems by (intro exI [of _ k]) auto
  qed
qed simp

lemma ChooseShardCount_spec: "\<exists>j \<le> 6. unat (ChooseShardCount budget bs) = 2 ^ j"
  using ChooseShardCount_loop_spec [of 1 0 7] by (auto simp: ChooseShardCount_def Let_def)

lemma store_inv_Reset:
  assumes "unat (budgetBytes requested) < 2 ^ 63"
  shows "store_inv (ResetLocked requested s)" "slots (ResetLocked requested s) k = None"
proof -
  let ?o = "Normalized requested" and ?s = "ResetLocked requested s"
  let ?c = "ChooseShardCount (budgetBytes ?o) (blockSize ?o)"
  obtain j where j: "j \<le> 6" "unat ?c = 2 ^ j" using ChooseShardCount_spec by blast
  then have "1 \<le> ?c" by (simp add: word_le_nat_alt)
  then have "unat (?c - 1) = unat ?c - 1" by (simp add: unat_sub)
  then have mask: "Suc (unat (shardMask ?s)) = unat ?c"
    using j by (simp add: ResetLocked_def Let_def)
  obtain m where m: "m \<le> 26" "unat (blockSize ?o) = 2 ^ m"
    by (rule Normalized_blockSize [of requested]) blast
  have "(2::nat) ^ m \<le> 2 ^ 26" using m(1) by (intro power_increasing) auto
  then have bs: "unat (blockSize ?o) < 2 ^ 63" using m(2) by simp
  have "unat (budgetBytes ?o) < 2 ^ 63"
    using assms bs by (simp add: Normalized_fields(2) max_u64_unat)
  then have "unat (budgetBytes ?o div ucast ?c) < 2 ^ 63"
    using le_less_trans [OF div_le_dividend] by (simp add: unat_div)
  then have budget: "unat (shardBudget ?s) < 2 ^ 63"
    using bs by (simp add: ResetLocked_def Let_def max_u64_unat)
  have sh: "shards ?s = replicate (unat ?c) Shard_new" by (simp add: ResetLocked_def Let_def)
  have "sum_list (map residentBytes (replicate n Shard_new)) = 0" for n
    by (induction n) (auto simp: Shard_new_def)
  moreover have "residentTotal ?s = 0" by (simp add: ResetLocked_def Let_def)
  ultimately show inv: "store_inv ?s"
    unfolding store_inv_def sh using mask budget shard_wf_new
    by (auto simp: within_budget_def Shard_new_def)
  have "ShardFor ?s k \<in> set (shards ?s)"
    using store_invD(1) [OF inv, of k] by (simp add: ShardFor_def)
  then show "slots ?s k = None" unfolding sh by (auto simp: slots_None Shard_new_def)
qed

lemma ConfigureProcess_inv:
  assumes "store_inv s" "unat (budgetBytes opts) < 2 ^ 63"
  shows "store_inv (snd (ConfigureProcess opts s))"
  using assms store_inv_Reset(1) by (simp add: ConfigureProcess_def)

section \<open>The store as an interface\<close>

text \<open>
  What a reader relies on: the abstract content of the store and how the four binding
  operations change it. Publishing may drop other resident blocks, and nothing else.
\<close>

locale block_store =
  fixes inv :: "'s \<Rightarrow> bool"
    and slot :: "'s \<Rightarrow> 'k \<Rightarrow> slot option"
    and key :: "'b \<Rightarrow> u64 \<Rightarrow> 'k"
    and acquire :: "'b \<Rightarrow> u64 \<Rightarrow> 's \<Rightarrow> AcquireResult \<times> 's"
    and poll :: "'b \<Rightarrow> u64 \<Rightarrow> 's \<Rightarrow> bytes option option \<times> 's"
    and publish :: "'b \<Rightarrow> u64 \<Rightarrow> bytes \<Rightarrow> 's \<Rightarrow> u64 \<times> 's"
    and abandon :: "'b \<Rightarrow> u64 \<Rightarrow> 's \<Rightarrow> 's"
  assumes acquire_absent:
      "inv s \<Longrightarrow> slot s (key b i) = None \<Longrightarrow>
        acq_outcome (fst (acquire b i s)) = Owned \<and> inv (snd (acquire b i s)) \<and>
        slot (snd (acquire b i s)) = (slot s)(key b i \<mapsto> Pending)"
    and acquire_pending:
      "inv s \<Longrightarrow> slot s (key b i) = Some Pending \<Longrightarrow>
        acq_outcome (fst (acquire b i s)) = Busy \<and> snd (acquire b i s) = s"
    and acquire_ready:
      "inv s \<Longrightarrow> slot s (key b i) = Some (Ready x) \<Longrightarrow>
        fst (acquire b i s) = \<lparr>acq_outcome = Hit, acq_block = Some x\<rparr> \<and>
        inv (snd (acquire b i s)) \<and> slot (snd (acquire b i s)) = slot s"
    and poll_absent: "inv s \<Longrightarrow> slot s (key b i) = None \<Longrightarrow> fst (poll b i s) = Some None"
    and poll_pending: "inv s \<Longrightarrow> slot s (key b i) = Some Pending \<Longrightarrow> fst (poll b i s) = None"
    and poll_ready: "inv s \<Longrightarrow> slot s (key b i) = Some (Ready x) \<Longrightarrow> fst (poll b i s) = Some (Some x)"
    and poll_same: "inv s \<Longrightarrow> inv (snd (poll b i s)) \<and> slot (snd (poll b i s)) = slot s"
    and publish_pending:
      "inv s \<Longrightarrow> slot s (key b i) = Some Pending \<Longrightarrow> length x \<le> max_block \<Longrightarrow>
        inv (snd (publish b i x s)) \<and> slot (snd (publish b i x s)) (key b i) = Some (Ready x) \<and>
        (\<forall>k. k \<noteq> key b i \<longrightarrow> slot (snd (publish b i x s)) k = slot s k \<or>
           slot (snd (publish b i x s)) k = None \<and> (\<exists>y. slot s k = Some (Ready y)))"
    and publish_other:
      "inv s \<Longrightarrow> slot s (key b i) \<noteq> Some Pending \<Longrightarrow> snd (publish b i x s) = s"
    and abandon_law:
      "inv s \<Longrightarrow> inv (abandon b i s) \<and>
        slot (abandon b i s) = (if slot s (key b i) = Some Pending then (slot s)(key b i := None) else slot s)"

definition consistent :: "('k \<Rightarrow> bytes) \<Rightarrow> ('k \<Rightarrow> slot option) \<Rightarrow> bool" where
  "consistent C sl \<longleftrightarrow> (\<forall>k x. sl k = Some (Ready x) \<longrightarrow> x = C k)"

context block_store
begin

lemma acquire_inv: "inv s \<Longrightarrow> inv (snd (acquire b i s))"
proof (cases "slot s (key b i)")
  case (Some sl)
  then show "inv s \<Longrightarrow> ?thesis" using acquire_pending acquire_ready by (cases sl) auto
qed (use acquire_absent in auto)

lemma publish_inv: "inv s \<Longrightarrow> length x \<le> max_block \<Longrightarrow> inv (snd (publish b i x s))"
  using publish_pending publish_other by (cases "slot s (key b i) = Some Pending") auto

lemma consistent_acquire:
  "inv s \<Longrightarrow> consistent C (slot s) \<Longrightarrow> consistent C (slot (snd (acquire b i s)))"
proof (cases "slot s (key b i)")
  case None
  then show "inv s \<Longrightarrow> consistent C (slot s) \<Longrightarrow> ?thesis"
    using acquire_absent by (auto simp: consistent_def)
next
  case (Some sl)
  then show "inv s \<Longrightarrow> consistent C (slot s) \<Longrightarrow> ?thesis"
    using acquire_pending acquire_ready by (cases sl) auto
qed

lemma acquire_Hit:
  assumes "inv s" "consistent C (slot s)" "acq_outcome (fst (acquire b i s)) = Hit"
  shows "acq_block (fst (acquire b i s)) = Some (C (key b i))"
proof (cases "slot s (key b i)")
  case None
  then show ?thesis using acquire_absent [of s b i] assms by simp
next
  case (Some sl)
  then show ?thesis
    using acquire_pending [of s b i] acquire_ready [of s b i] assms
    by (cases sl) (auto simp: consistent_def)
qed

lemma poll_Some:
  assumes "inv s" "consistent C (slot s)" "fst (poll b i s) = Some (Some x)"
  shows "x = C (key b i)"
proof (cases "slot s (key b i)")
  case None
  then show ?thesis using poll_absent [of s b i] assms by simp
next
  case (Some sl)
  then show ?thesis
    using poll_pending [of s b i] poll_ready [of s b i] assms by (cases sl) (auto simp: consistent_def)
qed

lemma consistent_publish:
  assumes "inv s" "consistent C (slot s)" "x = C (key b i)" "length x \<le> max_block"
  shows "consistent C (slot (snd (publish b i x s)))"
proof (cases "slot s (key b i) = Some Pending")
  case True
  show ?thesis
    unfolding consistent_def
  proof (intro allI impI)
    fix k y
    assume y: "slot (snd (publish b i x s)) k = Some (Ready y)"
    show "y = C k"
    proof (cases "k = key b i")
      case True
      then show ?thesis
        using publish_pending [OF assms(1) \<open>slot s (key b i) = Some Pending\<close> assms(4)] assms(3) y by simp
    next
      case False
      then have "slot s k = Some (Ready y)"
        using publish_pending [OF assms(1) True assms(4)] y by auto
      then show ?thesis using assms(2) by (simp add: consistent_def)
    qed
  qed
next
  case False
  then show ?thesis using publish_other assms(1,2) by simp
qed

lemma consistent_abandon:
  "inv s \<Longrightarrow> consistent C (slot s) \<Longrightarrow> consistent C (slot (abandon b i s))"
  using abandon_law by (auto simp: consistent_def split: if_splits)

lemma pending_acquire:
  assumes "inv s" "slot s k = Some Pending"
  shows "slot (snd (acquire b i s)) k = Some Pending"
proof (cases "slot s (key b i)")
  case None
  then show ?thesis using acquire_absent assms by auto
next
  case (Some sl)
  then show ?thesis using acquire_pending acquire_ready assms by (cases sl) auto
qed

lemma pending_publish:
  assumes "inv s" "slot s k = Some Pending" "k \<noteq> key b i" "length x \<le> max_block"
  shows "slot (snd (publish b i x s)) k = Some Pending"
  using publish_pending [OF assms(1) _ assms(4), of b i] publish_other [OF assms(1), of b i x] assms(2,3)
  by (cases "slot s (key b i) = Some Pending") auto

lemma pending_abandon:
  "inv s \<Longrightarrow> slot s k = Some Pending \<Longrightarrow> k \<noteq> key b i \<Longrightarrow> slot (abandon b i s) k = Some Pending"
  using abandon_law by simp

end

interpretation bc: block_store store_inv slots block_key Acquire Await_poll Publish Abandon
proof unfold_locales
  fix s :: BlockCache and b i x
  assume inv: "store_inv s"
  show "acq_outcome (fst (Acquire b i s)) = Owned \<and> store_inv (snd (Acquire b i s)) \<and>
      slots (snd (Acquire b i s)) = (slots s)(block_key b i \<mapsto> Pending)"
    if "slots s (block_key b i) = None" using Acquire_absent [OF inv that] by simp
  show "acq_outcome (fst (Acquire b i s)) = Busy \<and> snd (Acquire b i s) = s"
    if "slots s (block_key b i) = Some Pending" using Acquire_pending [OF inv that] by simp
  show "fst (Acquire b i s) = \<lparr>acq_outcome = Hit, acq_block = Some x\<rparr> \<and>
      store_inv (snd (Acquire b i s)) \<and> slots (snd (Acquire b i s)) = slots s"
    if "slots s (block_key b i) = Some (Ready x)" using Acquire_ready [OF inv that] by simp
  show "store_inv (snd (Publish b i x s)) \<and> slots (snd (Publish b i x s)) (block_key b i) = Some (Ready x) \<and>
      (\<forall>k. k \<noteq> block_key b i \<longrightarrow> slots (snd (Publish b i x s)) k = slots s k \<or>
        slots (snd (Publish b i x s)) k = None \<and> (\<exists>y. slots s k = Some (Ready y)))"
    if "slots s (block_key b i) = Some Pending" "length x \<le> max_block"
    using Publish_pending [OF inv that] by blast
qed (auto simp: Await_poll_cases Publish_other Abandon_facts)

end
