(* ===== verification/CachedReader.thy ===== *)
theory CachedReader
  imports AssetReader BlockPlan BlockCache Metrics
begin

text \<open>
  \<open>libs/usd-asset-cache\<close>: the reader that answers from blocks
  (\<open>CachedAssetReader.h\<close>, \<open>CachedAssetReader.cpp\<close>). The collaborators the reader calls (the
  decorated reader, its binding into the block store, the persistent tier) are the
  fields of the record \<open>cached_env\<close>, functions on the state of the world, because other
  readers act on the same store between any two calls. \<open>Await\<close> can block for ever, so
  its result is an option and \<open>None\<close> is a call that never returns; a read that waits on
  such a call never returns either and is \<open>None\<close>. Allocation failures are not modelled.
\<close>

record 'w cached_env =
  env_read :: "'w read_fn"
  env_meta :: AssetMetadata
  env_options :: CacheOptions
  env_acquire :: "u64 \<Rightarrow> 'w \<Rightarrow> AcquireResult \<times> 'w"
  env_await :: "u64 \<Rightarrow> 'w \<Rightarrow> (bytes option \<times> 'w) option"
  env_publish :: "u64 \<Rightarrow> bytes \<Rightarrow> 'w \<Rightarrow> u64 \<times> 'w"
  env_abandon :: "u64 \<Rightarrow> 'w \<Rightarrow> 'w"
  env_resident :: "'w \<Rightarrow> u64"
  env_load :: "u64 \<Rightarrow> u64 \<Rightarrow> 'w \<Rightarrow> bytes option \<times> 'w"
  env_store :: "u64 \<Rightarrow> bytes \<Rightarrow> 'w \<Rightarrow> bool \<times> 'w"
  env_persists :: bool
  env_persistentEnabled :: bool

definition kMaxCooperativePasses :: nat where
  "kMaxCooperativePasses = 3"

section \<open>Copying\<close>

definition memcpy :: "bytes \<Rightarrow> nat \<Rightarrow> bytes \<Rightarrow> bytes" where
  "memcpy dst pos src = take pos dst @ src @ drop (pos + length src) dst"

definition CopyOverlap :: "bytes \<Rightarrow> u64 \<Rightarrow> u64 \<Rightarrow> u64 \<Rightarrow> bytes \<Rightarrow> u64 \<Rightarrow> bytes \<times> u64" where
  "CopyOverlap dst rangeOffset rangeLength blockOffset blockBytes blockLength =
    (let rangeEnd = rangeOffset + rangeLength;
         blockEnd = blockOffset + blockLength;
         from = max rangeOffset blockOffset;
         till = min rangeEnd blockEnd
     in if till \<le> from then (dst, 0)
        else (memcpy dst (unat (from - rangeOffset))
                (segment blockBytes (unat (from - blockOffset)) (unat (till - from))), till - from))"

section \<open>Owned blocks\<close>

record OwnedBlocks =
  ob_blocks :: "(u64 \<times> bool) list"
  ob_outstanding :: nat
  ob_cursor :: nat

definition owned_none :: OwnedBlocks where
  "owned_none = \<lparr>ob_blocks = [], ob_outstanding = 0, ob_cursor = 0\<rparr>"

definition owned_Add :: "u64 \<Rightarrow> OwnedBlocks \<Rightarrow> OwnedBlocks" where
  "owned_Add blockIndex ob = ob\<lparr>ob_blocks := ob_blocks ob @ [(blockIndex, False)],
     ob_outstanding := ob_outstanding ob + 1\<rparr>"

definition owned_Empty :: "OwnedBlocks \<Rightarrow> bool" where
  "owned_Empty ob \<longleftrightarrow> ob_outstanding ob = 0"

definition Outstanding :: "OwnedBlocks \<Rightarrow> u64 list" where
  "Outstanding ob = map fst (filter (\<lambda>(i, settled). \<not> settled) (ob_blocks ob))"

text \<open>The cursor moves past settled entries from where it stands.\<close>

definition SkipSettled :: "OwnedBlocks \<Rightarrow> OwnedBlocks" where
  "SkipSettled ob = ob\<lparr>ob_cursor := ob_cursor ob +
     length (takeWhile snd (drop (ob_cursor ob) (ob_blocks ob)))\<rparr>"

definition owned_Next :: "OwnedBlocks \<Rightarrow> u64 \<times> OwnedBlocks" where
  "owned_Next ob = (let ob' = SkipSettled ob in (fst (ob_blocks ob' ! ob_cursor ob'), ob'))"

definition MarkPublished :: "OwnedBlocks \<Rightarrow> OwnedBlocks" where
  "MarkPublished ob =
    (let ob' = SkipSettled ob
     in ob'\<lparr>ob_blocks := (ob_blocks ob')[ob_cursor ob' := (fst (ob_blocks ob' ! ob_cursor ob'), True)],
            ob_outstanding := ob_outstanding ob' - 1\<rparr>)"

fun settle_first :: "u64 \<Rightarrow> (u64 \<times> bool) list \<Rightarrow> (u64 \<times> bool) list \<times> bool" where
  "settle_first b [] = ([], False)"
| "settle_first b ((i, settled) # rest) =
    (if i = b \<and> \<not> settled then ((i, True) # rest, True)
     else let (rest', found) = settle_first b rest in ((i, settled) # rest', found))"

definition Settle :: "u64 \<Rightarrow> OwnedBlocks \<Rightarrow> OwnedBlocks" where
  "Settle blockIndex ob =
    (let (blocks, found) = settle_first blockIndex (ob_blocks ob)
     in if found then ob\<lparr>ob_blocks := blocks, ob_outstanding := ob_outstanding ob - 1\<rparr> else ob)"

definition AbandonAll :: "(u64 \<Rightarrow> 'w \<Rightarrow> 'w) \<Rightarrow> OwnedBlocks \<Rightarrow> 'w \<Rightarrow> OwnedBlocks \<times> 'w" where
  "AbandonAll abandon ob w = (owned_none, fold abandon (Outstanding ob) w)"

section \<open>Reading\<close>

record read_state =
  rs_dst :: bytes
  rs_resolved :: "bool list"
  rs_cacheServed :: u64
  rs_served :: u64
  rs_metrics :: ReaderMetrics

definition ReadDirect :: "'w cached_env \<Rightarrow> u64 \<Rightarrow> u64 \<Rightarrow> 'w \<Rightarrow> (Status \<times> bytes) \<times> 'w" where
  "ReadDirect env off len w =
    (let ((result, bs), w') = env_read env off len w
     in if \<not> IsOk (rr_status result) then ((rr_status result, bs), w')
        else if bytesRead result \<noteq> len
        then ((ShortReadStatus off len (bytesRead result) (resolvedIdentifier (env_meta env)), bs), w')
        else ((Status_Ok, bs), w'))"

definition extent :: "'w cached_env \<Rightarrow> u64 \<Rightarrow> BlockExtent" where
  "extent env i = ExtentOf i (blockSize (env_options env)) (am_size (env_meta env))"

text \<open>The part of the caller's range inside a block, read past the store.\<close>

definition direct_block ::
    "'w cached_env \<Rightarrow> ReadRange \<Rightarrow> nat \<Rightarrow> u64 \<Rightarrow> read_state \<Rightarrow> 'w \<Rightarrow> (Status \<times> ReaderMetrics + read_state) \<times> 'w" where
  "direct_block env rng i blockIndex rs w =
    (let ext = extent env blockIndex;
         from = max (range_offset rng) (ext_offset ext);
         till = min (range_offset rng + range_length rng) (ext_offset ext + ext_length ext);
         ((direct, bs), w') = ReadDirect env from (till - from) w
     in if \<not> IsOk direct then (Inl (direct, rs_metrics rs), w')
        else (Inr (rs\<lparr>rs_dst := memcpy (rs_dst rs) (unat (from - range_offset rng)) bs,
                      rs_metrics := AddBlockMiss 1 (rs_metrics rs),
                      rs_served := rs_served rs + (till - from),
                      rs_resolved := (rs_resolved rs)[i := True]\<rparr>), w'))"

text \<open>A block served out of the store: copied, counted and resolved.\<close>

definition serve_block :: "'w cached_env \<Rightarrow> ReadRange \<Rightarrow> nat \<Rightarrow> u64 \<Rightarrow> bytes \<Rightarrow> read_state \<Rightarrow> read_state" where
  "serve_block env rng i blockIndex block rs =
    (let ext = extent env blockIndex;
         (dst', copied) = CopyOverlap (rs_dst rs) (range_offset rng) (range_length rng)
                            (ext_offset ext) block (ext_length ext)
     in rs\<lparr>rs_dst := dst', rs_metrics := AddBytesFromCache copied (rs_metrics rs),
           rs_served := rs_served rs + copied, rs_cacheServed := rs_cacheServed rs + 1,
           rs_resolved := (rs_resolved rs)[i := True]\<rparr>)"

fun acquire_loop :: "'w cached_env \<Rightarrow> ReadRange \<Rightarrow> u64 \<Rightarrow> nat list \<Rightarrow> OwnedBlocks \<Rightarrow> nat list \<Rightarrow>
    read_state \<Rightarrow> 'w \<Rightarrow> (Status \<times> ReaderMetrics + OwnedBlocks \<times> nat list \<times> read_state) \<times> 'w" where
  "acquire_loop env rng first [] owned busy rs w = (Inr (owned, busy, rs), w)"
| "acquire_loop env rng first (i # is) owned busy rs w =
    (if rs_resolved rs ! i then acquire_loop env rng first is owned busy rs w
     else let blockIndex = first + of_nat i; ext = extent env blockIndex;
              (acquired, w1) = env_acquire env blockIndex w
          in case acq_outcome acquired of
               Hit \<Rightarrow>
                 (case acq_block acquired of
                    Some block \<Rightarrow>
                      if of_nat (length block) = ext_length ext
                      then acquire_loop env rng first is owned busy
                             (serve_block env rng i blockIndex block rs) w1
                      else let (owned', w2) = AbandonAll (env_abandon env) owned w1
                           in (case direct_block env rng i blockIndex rs w2 of
                                 (Inl st, w3) \<Rightarrow> (Inl st, w3)
                               | (Inr rs', w3) \<Rightarrow> acquire_loop env rng first is owned' busy rs' w3)
                  | None \<Rightarrow> let (owned', w2) = AbandonAll (env_abandon env) owned w1
                           in (case direct_block env rng i blockIndex rs w2 of
                                 (Inl st, w3) \<Rightarrow> (Inl st, w3)
                               | (Inr rs', w3) \<Rightarrow> acquire_loop env rng first is owned' busy rs' w3))
             | Owned \<Rightarrow> acquire_loop env rng first is (owned_Add blockIndex owned) busy rs w1
             | Busy \<Rightarrow> acquire_loop env rng first is owned (busy @ [i]) rs w1)"

fun load_loop :: "'w cached_env \<Rightarrow> ReadRange \<Rightarrow> u64 \<Rightarrow> u64 list \<Rightarrow> OwnedBlocks \<Rightarrow> read_state \<Rightarrow> 'w \<Rightarrow>
    OwnedBlocks \<times> read_state \<times> 'w" where
  "load_loop env rng first [] owned rs w = (owned, rs, w)"
| "load_loop env rng first (blockIndex # bs) owned rs w =
    (case env_load env blockIndex (ext_length (extent env blockIndex)) w of
       (None, w1) \<Rightarrow> load_loop env rng first bs owned rs w1
     | (Some persisted, w1) \<Rightarrow>
         let (evicted, w2) = env_publish env blockIndex persisted w1;
             rs1 = rs\<lparr>rs_metrics := AddPersistedHit 1 (AddEviction evicted (rs_metrics rs))\<rparr>;
             rs2 = serve_block env rng (unat (blockIndex - first)) blockIndex persisted rs1
         in load_loop env rng first bs (Settle blockIndex owned) rs2 w2)"

text \<open>The blocks of one fetched run, published in order while they lie in the run.\<close>

function settle_run :: "'w cached_env \<Rightarrow> ReadRange \<Rightarrow> u64 \<Rightarrow> FetchRun \<Rightarrow> bytes \<Rightarrow> OwnedBlocks \<Rightarrow> u64 \<Rightarrow>
    read_state \<Rightarrow> 'w \<Rightarrow> OwnedBlocks \<times> u64 \<times> read_state \<times> 'w" where
  "settle_run env rng first run transfer owned taken rs w =
    (if ob_outstanding owned \<noteq> 0 \<and> fst (owned_Next owned) \<le> firstBlock run + blockCount run - 1
     then let (blockIndex, owned1) = owned_Next owned;
              ext = extent env blockIndex;
              block = segment transfer (unat (ext_offset ext - run_offset run)) (unat (ext_length ext));
              (evicted, w1) = env_publish env blockIndex block w;
              owned2 = MarkPublished owned1;
              m1 = AddBlockMiss 1 (AddEviction evicted (rs_metrics rs));
              (stored, w2) = (if env_persistentEnabled env then env_store env blockIndex block w1
                              else (False, w1));
              m2 = (if stored then AddPersistedWrite 1 m1 else m1);
              (dst', copied) = CopyOverlap (rs_dst rs) (range_offset rng) (range_length rng)
                                 (ext_offset ext) block (ext_length ext);
              rs' = rs\<lparr>rs_dst := dst', rs_metrics := m2, rs_served := rs_served rs + copied,
                       rs_resolved := (rs_resolved rs)[unat (blockIndex - first) := True]\<rparr>
          in settle_run env rng first run transfer owned2 (taken + copied) rs' w2
     else (owned, taken, rs, w))"
  by pat_completeness auto
termination
  by (relation "measure (\<lambda>(env, rng, first, run, transfer, owned, _). ob_outstanding owned)")
    (auto simp: MarkPublished_def owned_Next_def SkipSettled_def Let_def)

declare settle_run.simps [simp del]

fun fetch_loop :: "'w cached_env \<Rightarrow> ReadRange \<Rightarrow> u64 \<Rightarrow> FetchRun list \<Rightarrow> OwnedBlocks \<Rightarrow> read_state \<Rightarrow> 'w \<Rightarrow>
    (Status \<times> ReaderMetrics + OwnedBlocks \<times> read_state) \<times> 'w" where
  "fetch_loop env rng first [] owned rs w = (Inr (owned, rs), w)"
| "fetch_loop env rng first (run # runs) owned rs w =
    (let ((fetched, transfer), w1) = env_read env (run_offset run) (run_length run) w
     in if \<not> IsOk (rr_status fetched) \<or> bytesRead fetched \<noteq> run_length run
        then let (owned', w2) = AbandonAll (env_abandon env) owned w1
             in (Inl (if \<not> IsOk (rr_status fetched) then rr_status fetched
                      else ShortReadStatus (run_offset run) (run_length run) (bytesRead fetched)
                             (resolvedIdentifier (env_meta env)), rs_metrics rs), w2)
        else let (owned1, taken, rs1, w2) = settle_run env rng first run transfer owned 0 rs w1;
                 rs2 = rs1\<lparr>rs_metrics := AddBytesOverFetched (OverFetchedBytes run taken) (rs_metrics rs1)\<rparr>
             in fetch_loop env rng first runs owned1 rs2 w2)"

fun await_loop :: "'w cached_env \<Rightarrow> ReadRange \<Rightarrow> u64 \<Rightarrow> nat list \<Rightarrow> read_state \<Rightarrow> 'w \<Rightarrow>
    (read_state \<times> 'w) option" where
  "await_loop env rng first [] rs w = Some (rs, w)"
| "await_loop env rng first (i # is) rs w =
    (case env_await env (first + of_nat i) w of
       None \<Rightarrow> None
     | Some (None, w1) \<Rightarrow> await_loop env rng first is rs w1
     | Some (Some block, w1) \<Rightarrow>
         if of_nat (length block) \<noteq> ext_length (extent env (first + of_nat i))
         then await_loop env rng first is rs w1
         else let rs1 = serve_block env rng i (first + of_nat i) block rs;
                  rs2 = rs1\<lparr>rs_metrics := AddRequestsSavedBySingleFlight 1 (rs_metrics rs1)\<rparr>
              in await_loop env rng first is rs2 w1)"

datatype pass_result = Failed Status ReaderMetrics | Stop read_state | Again read_state

definition load_persisted :: "'w cached_env \<Rightarrow> ReadRange \<Rightarrow> u64 \<Rightarrow> OwnedBlocks \<Rightarrow> read_state \<Rightarrow> 'w \<Rightarrow>
    OwnedBlocks \<times> read_state \<times> 'w" where
  "load_persisted env rng first owned rs w =
    (if env_persists env \<and> \<not> owned_Empty owned
     then load_loop env rng first (Outstanding owned) owned rs w else (owned, rs, w))"

definition fetch_owned :: "'w cached_env \<Rightarrow> ReadRange \<Rightarrow> u64 \<Rightarrow> OwnedBlocks \<Rightarrow> read_state \<Rightarrow> 'w \<Rightarrow>
    (Status \<times> ReaderMetrics + OwnedBlocks \<times> read_state) \<times> 'w" where
  "fetch_owned env rng first owned rs w =
    (if owned_Empty owned then (Inr (owned, rs), w)
     else let runs = PlanRuns (Outstanding owned) (blockSize (env_options env))
                       (am_size (env_meta env)) (coalesceGapBlocks (env_options env))
                       (maxRequestBytes (env_options env));
              saved = of_nat (ob_outstanding owned) - of_nat (length runs)
          in fetch_loop env rng first runs owned
               (rs\<lparr>rs_metrics := AddRequestsSavedByCoalescing saved (rs_metrics rs)\<rparr>) w)"

text \<open>
  One cooperative pass. The blocks still owned at its end go back to the store, as the
  destructor of \<open>OwnedBlocks\<close> does.
\<close>

definition cooperative_pass :: "'w cached_env \<Rightarrow> ReadRange \<Rightarrow> u64 \<Rightarrow> nat \<Rightarrow> read_state \<Rightarrow> 'w \<Rightarrow>
    (pass_result \<times> 'w) option" where
  "cooperative_pass env rng first blocks rs w =
    (case acquire_loop env rng first [0..<blocks] owned_none [] rs w of
       (Inl (st, m), w1) \<Rightarrow> Some (Failed st m, w1)
     | (Inr (owned, busy, rs1), w1) \<Rightarrow>
         (case load_persisted env rng first owned rs1 w1 of (owned2, rs2, w2) \<Rightarrow>
            if owned_Empty owned2 \<and> busy = []
            then Some (Stop rs2, snd (AbandonAll (env_abandon env) owned2 w2))
            else case fetch_owned env rng first owned2 rs2 w2 of
                   (Inl (st, m), w3) \<Rightarrow> Some (Failed st m, w3)
                 | (Inr (owned3, rs3), w3) \<Rightarrow>
                     (case await_loop env rng first busy rs3 w3 of
                        None \<Rightarrow> None
                      | Some (rs4, w4) \<Rightarrow>
                          Some (Again rs4, snd (AbandonAll (env_abandon env) owned3 w4)))))"

primrec passes :: "nat \<Rightarrow> 'w cached_env \<Rightarrow> ReadRange \<Rightarrow> u64 \<Rightarrow> nat \<Rightarrow> read_state \<Rightarrow> 'w \<Rightarrow>
    ((Status \<times> ReaderMetrics + read_state) \<times> 'w) option" where
  "passes 0 env rng first blocks rs w = Some (Inr rs, w)"
| "passes (Suc n) env rng first blocks rs w =
    (case cooperative_pass env rng first blocks rs w of
       None \<Rightarrow> None
     | Some (Failed st m, w1) \<Rightarrow> Some (Inl (st, m), w1)
     | Some (Stop rs1, w1) \<Rightarrow> Some (Inr rs1, w1)
     | Some (Again rs1, w1) \<Rightarrow> passes n env rng first blocks rs1 w1)"

fun leftover_loop :: "'w cached_env \<Rightarrow> ReadRange \<Rightarrow> u64 \<Rightarrow> nat list \<Rightarrow> read_state \<Rightarrow> 'w \<Rightarrow>
    (Status \<times> ReaderMetrics + read_state) \<times> 'w" where
  "leftover_loop env rng first [] rs w = (Inr rs, w)"
| "leftover_loop env rng first (i # is) rs w =
    (if rs_resolved rs ! i then leftover_loop env rng first is rs w
     else case direct_block env rng i (first + of_nat i) rs w of
            (Inl st, w1) \<Rightarrow> (Inl st, w1)
          | (Inr rs1, w1) \<Rightarrow> leftover_loop env rng first is rs1 w1)"

definition ReadCached :: "'w cached_env \<Rightarrow> ReadRange \<Rightarrow> ReaderMetrics \<Rightarrow> 'w \<Rightarrow>
    (((ReadResult \<times> bytes) \<times> ReaderMetrics) \<times> 'w) option" where
  "ReadCached env rng metrics w =
    (let span = CoveringBlocks (range_offset rng) (range_length rng) (blockSize (env_options env));
         blocks = unat (span_last span - span_first span + 1);
         rs = \<lparr>rs_dst = replicate (unat (range_length rng)) 0, rs_resolved = replicate blocks False,
               rs_cacheServed = 0, rs_served = 0, rs_metrics = metrics\<rparr>
     in case passes kMaxCooperativePasses env rng (span_first span) blocks rs w of
          None \<Rightarrow> None
        | Some (Inl (st, m), w1) \<Rightarrow> Some ((fails st, m), w1)
        | Some (Inr rs1, w1) \<Rightarrow>
            (case leftover_loop env rng (span_first span) [0..<blocks] rs1 w1 of
               (Inl (st, m), w2) \<Rightarrow> Some ((fails st, m), w2)
             | (Inr rs2, w2) \<Rightarrow>
                 let m1 = (if rs_cacheServed rs2 = of_nat blocks then AddBlockHit 1 (rs_metrics rs2)
                           else if rs_cacheServed rs2 > 0 then AddPartialHit 1 (rs_metrics rs2)
                           else rs_metrics rs2);
                     m2 = ObserveResidentBytes (env_resident env w2) m1
                 in if rs_served rs2 \<noteq> range_length rng
                    then Some ((fails (ShortReadStatus (range_offset rng) (range_length rng)
                                 (rs_served rs2) (resolvedIdentifier (env_meta env))), m2), w2)
                    else Some (((ReadResult_of (range_length rng) Status_Ok, rs_dst rs2), m2), w2)))"


text \<open>
  \<open>CachedAssetReader::Read\<close>, with the two clock readings of its timer and whether the
  destination pointer is null.
\<close>

definition CachedRead :: "'w cached_env \<Rightarrow> u64 \<Rightarrow> u64 \<Rightarrow> bool \<Rightarrow> u64 \<Rightarrow> u64 \<Rightarrow> ReaderMetrics \<Rightarrow> 'w \<Rightarrow>
    (((ReadResult \<times> bytes) \<times> ReaderMetrics) \<times> 'w) option" where
  "CachedRead env startNs endNs dst_null offset sz metrics w =
    (let m0 = AddBytesRequested sz metrics;
         rng = ResolveReadRange offset sz (am_size (env_meta env));
         timed = (\<lambda>((res, m), w').
           ((res, m\<lparr>rm_readLatency := ScopedLatency_record startNs endNs (rm_readLatency m)\<rparr>), w'))
     in map_option timed
          (if outcome rng = Overflow then Some ((fails (OverflowStatus offset sz), m0), w)
           else if sz > 0 \<and> dst_null
           then Some ((fails (WithRange offset sz
                  (Status_Error InvalidArgument ''read destination buffer is null'')), m0), w)
           else if outcome rng = Empty then Some (((ReadResult_of 0 Status_Ok, []), m0), w)
           else if range_length rng \<ge> bypassThresholdBytes (env_options env)
           then let (res, w') = env_read env offset sz w in Some ((res, m0), w')
           else ReadCached env rng m0 w))"

end
