(* ===== verification/CachedCorrect.thy ===== *)
theory CachedCorrect
  imports CachedReader
begin

text \<open>
  Correctness of the cached reader: under any behaviour of the shared store and of the
  persistent tier that keeps published blocks equal to the asset's bytes, a cached read
  delivers exactly the bytes the decorated reader's asset has, and fails only when a
  read of the decorated reader failed.
\<close>

section \<open>The geometry of a read\<close>

definition blk_first :: "nat \<Rightarrow> nat \<Rightarrow> nat" where
  "blk_first bs off = off div bs"

definition blk_count :: "nat \<Rightarrow> nat \<Rightarrow> nat \<Rightarrow> nat" where
  "blk_count bs off len = Suc ((off + len - 1) div bs) - off div bs"

text \<open>The part of block \<open>first + i\<close> that lies in the range.\<close>

definition lo :: "nat \<Rightarrow> nat \<Rightarrow> nat \<Rightarrow> nat" where
  "lo bs off i = max off ((blk_first bs off + i) * bs)"

definition hi :: "nat \<Rightarrow> nat \<Rightarrow> nat \<Rightarrow> nat \<Rightarrow> nat" where
  "hi bs off len i = min (off + len) (Suc (blk_first bs off + i) * bs)"

lemma lo_le_hi:
  assumes "0 < bs" "0 < len" "i < blk_count bs off len"
  shows "off \<le> lo bs off i" "lo bs off i < hi bs off len i" "hi bs off len i \<le> off + len"
    "(blk_first bs off + i) * bs \<le> lo bs off i" "hi bs off len i \<le> Suc (blk_first bs off + i) * bs"
proof -
  have "blk_first bs off + i \<le> (off + len - 1) div bs" using assms(3) by (simp add: blk_count_def blk_first_def)
  then have "(blk_first bs off + i) * bs \<le> off + len - 1"
    using assms(1) by (simp only: less_eq_div_iff_mult_less_eq)
  then have 1: "(blk_first bs off + i) * bs < off + len" using assms(2) by linarith
  have "off < Suc (off div bs) * bs" using assms(1) by (simp add: dividend_less_div_times)
  also have "\<dots> \<le> Suc (blk_first bs off + i) * bs" by (intro mult_le_mono1) (simp add: blk_first_def)
  finally have 2: "off < Suc (blk_first bs off + i) * bs" .
  have 3: "(blk_first bs off + i) * bs < Suc (blk_first bs off + i) * bs" using assms(1) by simp
  show "off \<le> lo bs off i" "lo bs off i < hi bs off len i" "hi bs off len i \<le> off + len"
    "(blk_first bs off + i) * bs \<le> lo bs off i" "hi bs off len i \<le> Suc (blk_first bs off + i) * bs"
    using 1 2 3 assms(2) unfolding lo_def hi_def by linarith+
qed

lemma lo_0: "0 < bs \<Longrightarrow> lo bs off 0 = off"
  by (simp add: lo_def blk_first_def max_absorb1)

lemma hi_lo_Suc:
  assumes "0 < bs" "0 < len" "Suc i < blk_count bs off len"
  shows "hi bs off len i = lo bs off (Suc i)"
proof -
  have "(blk_first bs off + Suc i) * bs < off + len"
    using lo_le_hi(2-4) [OF assms] by linarith
  moreover have "off < Suc (blk_first bs off + i) * bs"
    using lo_le_hi(1,2,5) [OF assms(1,2), of i off] assms(3) by simp
  ultimately show ?thesis by (simp add: hi_def lo_def)
qed

lemma hi_last:
  assumes "0 < bs" "0 < len"
  shows "hi bs off len (blk_count bs off len - 1) = off + len"
proof -
  have "off div bs \<le> (off + len - 1) div bs" using assms(2) by (intro div_le_mono) linarith
  then have "blk_first bs off + (blk_count bs off len - 1) = (off + len - 1) div bs"
    by (simp add: blk_first_def blk_count_def)
  moreover have "off + len - 1 < Suc ((off + len - 1) div bs) * bs"
    using assms(1) by (simp add: dividend_less_div_times)
  ultimately show ?thesis using assms(2) by (simp add: hi_def)
qed

lemma blk_count_pos: "0 < len \<Longrightarrow> 0 < blk_count bs off len"
proof -
  assume "0 < len"
  then have "off div bs \<le> (off + len - 1) div bs" by (intro div_le_mono) linarith
  then show ?thesis by (simp add: blk_count_def)
qed

text \<open>The parts tile the range: their lengths add up to it, and every byte is in one of them.\<close>

lemma parts_sum:
  assumes "0 < bs" "0 < len" "n \<le> blk_count bs off len" "0 < n"
  shows "(\<Sum>i<n. hi bs off len i - lo bs off i) = hi bs off len (n - 1) - off"
  using assms(3,4)
proof (induction n)
  case (Suc n)
  show ?case
  proof (cases "n = 0")
    case True
    then show ?thesis using lo_0 [OF assms(1)] by simp
  next
    case False
    then have "hi bs off len (n - 1) = lo bs off n"
      using hi_lo_Suc [OF assms(1,2), of "n - 1"] Suc.prems by simp
    then show ?thesis
      using Suc False lo_le_hi(1,2) [OF assms(1,2), of n off] by simp
  qed
qed simp

lemma parts_total:
  assumes "0 < bs" "0 < len"
  shows "(\<Sum>i<blk_count bs off len. hi bs off len i - lo bs off i) = len"
  using parts_sum [OF assms order_refl blk_count_pos] hi_last [OF assms] assms(2) by simp

lemma part_of_byte:
  assumes "0 < bs" "0 < len" "off \<le> p" "p < off + len"
  shows "\<exists>i < blk_count bs off len. lo bs off i \<le> p \<and> p < hi bs off len i"
proof (intro exI conjI)
  let ?i = "p div bs - blk_first bs off"
  have le: "off div bs \<le> p div bs" using assms(3) by (rule div_le_mono)
  have "p div bs \<le> (off + len - 1) div bs" using assms(4) by (intro div_le_mono) linarith
  then show "?i < blk_count bs off len" using le by (simp add: blk_count_def blk_first_def)
  have i: "blk_first bs off + ?i = p div bs" using le by (simp add: blk_first_def)
  have "p < Suc (p div bs) * bs" using assms(1) by (simp add: dividend_less_div_times)
  then show "p < hi bs off len ?i" using assms(4) unfolding hi_def i by simp
  show "lo bs off ?i \<le> p" using assms(3) unfolding lo_def i by simp
qed

lemma parts_disjoint:
  assumes "i \<noteq> j" "lo bs off i \<le> p" "p < hi bs off len i" "lo bs off j \<le> p" "p < hi bs off len j" "0 < bs"
  shows False
proof -
  have "p div bs = blk_first bs off + i" if "lo bs off i \<le> p" "p < hi bs off len i" for i
    using that assms(6) by (intro div_nat_eqI) (auto simp: lo_def hi_def ac_simps)
  then show False using assms by (metis add_left_cancel)
qed


section \<open>The state of a read\<close>

definition served_sum :: "nat \<Rightarrow> nat \<Rightarrow> nat \<Rightarrow> bool list \<Rightarrow> nat" where
  "served_sum bs off len resolved =
     (\<Sum>i<blk_count bs off len. if resolved ! i then hi bs off len i - lo bs off i else 0)"

definition rs_ok :: "bytes \<Rightarrow> nat \<Rightarrow> nat \<Rightarrow> nat \<Rightarrow> read_state \<Rightarrow> bool" where
  "rs_ok content bs off len rs \<longleftrightarrow>
     length (rs_dst rs) = len \<and> length (rs_resolved rs) = blk_count bs off len \<and>
     (\<forall>i < blk_count bs off len. rs_resolved rs ! i \<longrightarrow>
        (\<forall>p. lo bs off i \<le> p \<longrightarrow> p < hi bs off len i \<longrightarrow> rs_dst rs ! (p - off) = content ! p)) \<and>
     rs_served rs = of_nat (served_sum bs off len (rs_resolved rs))"

lemma length_memcpy: "pos + length src \<le> length dst \<Longrightarrow> length (memcpy dst pos src) = length dst"
  by (simp add: memcpy_def)

lemma nth_memcpy:
  assumes "pos + length src \<le> length dst" "p < length dst"
  shows "memcpy dst pos src ! p = (if pos \<le> p \<and> p < pos + length src then src ! (p - pos) else dst ! p)"
  using assms by (auto simp: memcpy_def nth_append)

lemma served_sum_update:
  assumes "i < blk_count bs off len" "\<not> resolved ! i" "length resolved = blk_count bs off len"
  shows "served_sum bs off len (resolved[i := True]) =
    served_sum bs off len resolved + (hi bs off len i - lo bs off i)"
proof -
  let ?f = "\<lambda>r j. if r ! j then hi bs off len j - lo bs off j else 0"
  have "(\<Sum>j\<in>{..<blk_count bs off len} - {i}. ?f (resolved[i := True]) j) =
      (\<Sum>j\<in>{..<blk_count bs off len} - {i}. ?f resolved j)"
    by (intro sum.cong) auto
  then show ?thesis
    unfolding served_sum_def using assms
      sum.remove [of "{..<blk_count bs off len}" i "?f (resolved[i := True])"]
      sum.remove [of "{..<blk_count bs off len}" i "?f resolved"]
    by simp
qed

text \<open>Settling one part: its bytes are written, it is marked, and its length is served.\<close>

lemma rs_ok_settle:
  assumes ok: "rs_ok content bs off len rs" and i: "i < blk_count bs off len" "\<not> rs_resolved rs ! i"
    and geo: "0 < bs" "0 < len" "off + len \<le> length content"
    and upd: "rs_dst rs' = memcpy (rs_dst rs) (lo bs off i - off)
        (segment content (lo bs off i) (hi bs off len i - lo bs off i))"
      "rs_resolved rs' = (rs_resolved rs)[i := True]"
      "rs_served rs' = rs_served rs + of_nat (hi bs off len i - lo bs off i)"
  shows "rs_ok content bs off len rs'"
proof -
  let ?l = "lo bs off i" and ?h = "hi bs off len i"
  let ?src = "segment content ?l (?h - ?l)"
  note g = lo_le_hi [OF geo(1,2) i(1)]
  have len: "length (rs_dst rs) = len" "length (rs_resolved rs) = blk_count bs off len"
    using ok by (auto simp: rs_ok_def)
  have src: "length ?src = ?h - ?l" using g geo(3) by simp
  have fit: "(?l - off) + length ?src \<le> length (rs_dst rs)" using g src len(1) by simp
  have "rs_dst rs' ! (p - off) = content ! p"
    if j: "j < blk_count bs off len" "rs_resolved rs' ! j" "lo bs off j \<le> p" "p < hi bs off len j" for j p
  proof -
    note gj = lo_le_hi [OF geo(1,2) j(1)]
    have p: "off \<le> p" "p - off < length (rs_dst rs)" using gj j(3,4) len(1) by simp_all
    show ?thesis
    proof (cases "j = i")
      case True
      have "?l - off \<le> p - off \<and> p - off < ?l - off + length ?src"
        using j(3,4) [unfolded True] g(1,2) src by (intro conjI; linarith)
      moreover have "p - off - (?l - off) = p - ?l" using True j(3) g(1) by simp
      ultimately have "rs_dst rs' ! (p - off) = ?src ! (p - ?l)"
        unfolding upd(1) using p(2) fit by (simp add: nth_memcpy)
      also have "\<dots> = content ! p"
        using True j(3,4) g geo(3) by (subst nth_segment) auto
      finally show ?thesis .
    next
      case False
      then have "\<not> (?l \<le> p \<and> p < ?h)" using parts_disjoint [OF False j(3,4)] geo(1) by auto
      then have "\<not> (?l - off \<le> p - off \<and> p - off < ?l - off + length ?src)"
        using g(1) p(1) src by linarith
      then have "rs_dst rs' ! (p - off) = rs_dst rs ! (p - off)"
        unfolding upd(1) nth_memcpy [OF fit p(2)] by (rule if_not_P)
      also have "\<dots> = content ! p"
        using ok j False unfolding rs_ok_def upd(2) by simp
      finally show ?thesis .
    qed
  qed
  then show ?thesis
    using ok i len served_sum_update [OF i len(2)] upd fit
    unfolding rs_ok_def by (simp add: length_memcpy)
qed

lemma rs_ok_cong:
  assumes "rs_ok content bs off len rs" "rs_dst rs' = rs_dst rs" "rs_resolved rs' = rs_resolved rs"
    "rs_served rs' = rs_served rs"
  shows "rs_ok content bs off len rs'"
  using assms by (simp add: rs_ok_def)

lemma rs_ok_complete:
  assumes ok: "rs_ok content bs off len rs" and geo: "0 < bs" "0 < len" "off + len \<le> length content"
    and all: "\<forall>i < blk_count bs off len. rs_resolved rs ! i"
  shows "rs_dst rs = segment content off len" "rs_served rs = of_nat len"
proof -
  show "rs_dst rs = segment content off len"
  proof (rule nth_equalityI)
    show "length (rs_dst rs) = length (segment content off len)" using ok geo(3) by (simp add: rs_ok_def)
    fix q assume "q < length (rs_dst rs)"
    then have q: "q < len" using ok by (simp add: rs_ok_def)
    obtain i where i: "i < blk_count bs off len" "lo bs off i \<le> off + q" "off + q < hi bs off len i"
      using part_of_byte [OF geo(1,2), of off "off + q"] q by auto
    then have "rs_dst rs ! (off + q - off) = content ! (off + q)"
      using ok all unfolding rs_ok_def by blast
    then show "rs_dst rs ! q = segment content off len ! q" using q geo(3) by (simp add: nth_segment)
  qed
  have "served_sum bs off len (rs_resolved rs) = len"
    using all parts_total [OF geo(1,2), of off] by (simp add: served_sum_def)
  then show "rs_served rs = of_nat len" using ok by (simp add: rs_ok_def)
qed


section \<open>Owned blocks\<close>

definition ob_ok :: "OwnedBlocks \<Rightarrow> bool" where
  "ob_ok ob \<longleftrightarrow> ob_outstanding ob = length (Outstanding ob) \<and>
     list_all snd (take (ob_cursor ob) (ob_blocks ob)) \<and> ob_cursor ob \<le> length (ob_blocks ob)"

lemma ob_ok_none [simp]: "ob_ok owned_none" "Outstanding owned_none = []"
  by (simp_all add: ob_ok_def owned_none_def Outstanding_def)

lemma owned_Add_facts:
  assumes "ob_ok ob"
  shows "ob_ok (owned_Add b ob)" "Outstanding (owned_Add b ob) = Outstanding ob @ [b]"
  using assms by (simp_all add: ob_ok_def owned_Add_def Outstanding_def)

lemma owned_Empty_iff: "ob_ok ob \<Longrightarrow> owned_Empty ob \<longleftrightarrow> Outstanding ob = []"
  by (simp add: ob_ok_def owned_Empty_def)

lemma filter_settled: "list_all snd xs \<Longrightarrow> filter (\<lambda>(i, settled). \<not> settled) xs = []"
  by (induction xs) auto

lemma SkipSettled_split:
  assumes "ob_ok ob" "Outstanding ob = b # bs"
  obtains pre post where "ob_blocks ob = pre @ (b, False) # post" "list_all snd pre"
    "SkipSettled ob = ob\<lparr>ob_cursor := length pre\<rparr>"
    "map fst (filter (\<lambda>(i, settled). \<not> settled) post) = bs"
proof -
  let ?c = "ob_cursor ob" and ?blocks = "ob_blocks ob"
  let ?w = "takeWhile snd (drop ?c ?blocks)" and ?d = "dropWhile snd (drop ?c ?blocks)"
  have split: "?blocks = (take ?c ?blocks @ ?w) @ ?d" by simp
  have pre: "list_all snd (take ?c ?blocks @ ?w)"
    using assms(1) by (auto simp: ob_ok_def list_all_iff dest: set_takeWhileD)
  have out: "map fst (filter (\<lambda>(i, settled). \<not> settled) ?d) = b # bs"
    using assms(2) filter_settled [OF pre] unfolding Outstanding_def
    by (subst (asm) split) (simp only: filter_append append_Nil)
  then obtain x post where d: "?d = x # post" by (cases ?d) auto
  then have "\<not> snd x" using hd_dropWhile [of snd "drop ?c ?blocks"] by simp
  then have x: "x = (b, False)" "map fst (filter (\<lambda>(i, settled). \<not> settled) post) = bs"
    using out d by (cases x; simp)+
  show ?thesis
  proof (rule that [of "take ?c ?blocks @ ?w" post])
    show "?blocks = (take ?c ?blocks @ ?w) @ (b, False) # post" using split d x(1) by simp
    show "SkipSettled ob = ob\<lparr>ob_cursor := length (take ?c ?blocks @ ?w)\<rparr>"
      using assms(1) by (simp add: SkipSettled_def ob_ok_def min_def)
  qed (use pre x(2) in auto)
qed

lemma owned_Next_facts:
  assumes "ob_ok ob" "Outstanding ob = b # bs"
  shows "fst (owned_Next ob) = b" "ob_ok (snd (owned_Next ob))"
    "Outstanding (snd (owned_Next ob)) = Outstanding ob"
    "ob_ok (MarkPublished (snd (owned_Next ob)))"
    "Outstanding (MarkPublished (snd (owned_Next ob))) = bs"
proof -
  obtain pre post where s: "ob_blocks ob = pre @ (b, False) # post" "list_all snd pre"
    "SkipSettled ob = ob\<lparr>ob_cursor := length pre\<rparr>"
    "map fst (filter (\<lambda>(i, settled). \<not> settled) post) = bs"
    using assms by (rule SkipSettled_split)
  have n: "owned_Next ob = (b, ob\<lparr>ob_cursor := length pre\<rparr>)"
    using s(1,3) by (simp add: owned_Next_def Let_def)
  have same: "Outstanding (ob\<lparr>ob_cursor := c\<rparr>) = Outstanding ob" for c by (simp add: Outstanding_def)
  show "fst (owned_Next ob) = b" "Outstanding (snd (owned_Next ob)) = Outstanding ob"
    using n same by simp_all
  show ok1: "ob_ok (snd (owned_Next ob))"
    using n s(1,2) assms(1) same by (simp add: ob_ok_def)
  have "SkipSettled (snd (owned_Next ob)) = snd (owned_Next ob)"
    using n s(1) by (simp add: SkipSettled_def)
  then have m: "MarkPublished (snd (owned_Next ob)) = ob\<lparr>ob_cursor := length pre,
      ob_blocks := pre @ (b, True) # post, ob_outstanding := ob_outstanding ob - 1\<rparr>"
    using n s(1) by (simp add: MarkPublished_def Let_def)
  show "Outstanding (MarkPublished (snd (owned_Next ob))) = bs"
    unfolding m using s(4) filter_settled [OF s(2)] by (simp add: Outstanding_def)
  then show "ob_ok (MarkPublished (snd (owned_Next ob)))"
    using assms s(2) m by (simp add: ob_ok_def)
qed

lemma settle_first_Cons:
  "settle_first b (x # rest) =
    (if fst x = b \<and> \<not> snd x then ((b, True) # rest, True)
     else (x # fst (settle_first b rest), snd (settle_first b rest)))"
  by (cases x) (simp add: case_prod_beta)

lemma settle_first_unsettled:
  "map fst (filter (\<lambda>(i, settled). \<not> settled) (fst (settle_first b xs))) =
     remove1 b (map fst (filter (\<lambda>(i, settled). \<not> settled) xs))"
proof (induction xs)
  case (Cons x xs)
  then show ?case by (cases x) (simp add: settle_first_Cons del: settle_first.simps)
qed simp

lemma settle_first_found:
  "snd (settle_first b xs) \<longleftrightarrow> b \<in> set (map fst (filter (\<lambda>(i, settled). \<not> settled) xs))"
proof (induction xs)
  case (Cons x xs)
  then show ?case by (cases x) (simp add: settle_first_Cons del: settle_first.simps)
qed simp

lemma settle_first_length: "length (fst (settle_first b xs)) = length xs"
proof (induction xs)
  case (Cons x xs)
  then show ?case by (cases x) (simp add: settle_first_Cons del: settle_first.simps)
qed simp

lemma settle_first_prefix:
  "list_all snd (take n xs) \<Longrightarrow> list_all snd (take n (fst (settle_first b xs)))"
proof (induction xs arbitrary: n)
  case (Cons x xs)
  then show ?case
    by (cases x; cases n) (auto simp: settle_first_Cons simp del: settle_first.simps)
qed simp

lemma Settle_facts:
  assumes "ob_ok ob" "b \<in> set (Outstanding ob)"
  shows "ob_ok (Settle b ob)" "Outstanding (Settle b ob) = remove1 b (Outstanding ob)"
proof -
  have f: "snd (settle_first b (ob_blocks ob))"
    using assms(2) settle_first_found unfolding Outstanding_def by blast
  then have s: "Settle b ob = ob\<lparr>ob_blocks := fst (settle_first b (ob_blocks ob)),
      ob_outstanding := ob_outstanding ob - 1\<rparr>"
    by (cases "settle_first b (ob_blocks ob)") (simp add: Settle_def)
  then show out: "Outstanding (Settle b ob) = remove1 b (Outstanding ob)"
    by (simp add: Outstanding_def settle_first_unsettled)
  show "ob_ok (Settle b ob)"
    using assms settle_first_length [of b "ob_blocks ob"] settle_first_prefix [of _ "ob_blocks ob" b] out
    unfolding ob_ok_def by (simp add: s length_remove1)
qed


section \<open>What the reader relies on\<close>

definition env_bs :: "'w cached_env \<Rightarrow> u64" where
  "env_bs env = blockSize (env_options env)"

definition blk :: "bytes \<Rightarrow> u64 \<Rightarrow> u64 \<Rightarrow> bytes" where
  "blk content bs i = segment content (unat i * unat bs) (unat bs)"

definition in_asset :: "bytes \<Rightarrow> u64 \<Rightarrow> u64 \<Rightarrow> bool" where
  "in_asset content bs i \<longleftrightarrow> unat i * unat bs < length content"

text \<open>
  The environment of a cached reader: the decorated reader keeps the read contract, and
  the shared store and the persistent tier hand out blocks of the right length only if
  they are the asset's bytes, whatever other readers do between the calls. The set \<open>mine\<close>
  names the blocks whose fetch this reader has taken on and not yet settled.
\<close>

locale cached_world = inner: asset_reader inv "env_read env" content
  for inv :: "'w \<Rightarrow> bool" and env :: "'w cached_env" and content :: bytes +
  fixes mine :: "'w \<Rightarrow> u64 set"
  assumes size: "length content = unat (am_size (env_meta env))"
    and bs: "0 < unat (env_bs env)" "unat (env_bs env) \<le> max_block"
    and acquire_inv: "inv w \<Longrightarrow> inv (snd (env_acquire env i w))"
    and acquire_hit: "inv w \<Longrightarrow> in_asset content (env_bs env) i \<Longrightarrow>
      acq_outcome (fst (env_acquire env i w)) = Hit \<Longrightarrow> acq_block (fst (env_acquire env i w)) = Some x \<Longrightarrow>
      of_nat (length x) = ext_length (extent env i) \<Longrightarrow> x = blk content (env_bs env) i"
    and await_ok: "inv w \<Longrightarrow> in_asset content (env_bs env) i \<Longrightarrow> env_await env i w = Some (r, w') \<Longrightarrow>
      inv w' \<and> (\<forall>x. r = Some x \<longrightarrow> of_nat (length x) = ext_length (extent env i) \<longrightarrow>
        x = blk content (env_bs env) i)"
    and publish_inv: "inv w \<Longrightarrow> in_asset content (env_bs env) i \<Longrightarrow>
      inv (snd (env_publish env i (blk content (env_bs env) i) w))"
    and abandon_inv: "inv w \<Longrightarrow> inv (env_abandon env i w)"
    and load_inv: "inv w \<Longrightarrow> inv (snd (env_load env i n w))"
    and load_ok: "inv w \<Longrightarrow> in_asset content (env_bs env) i \<Longrightarrow>
      fst (env_load env i (ext_length (extent env i)) w) = Some x \<Longrightarrow> x = blk content (env_bs env) i"
    and store_inv: "inv w \<Longrightarrow> in_asset content (env_bs env) i \<Longrightarrow>
      inv (snd (env_store env i (blk content (env_bs env) i) w))"
    and mine_acquire: "inv w \<Longrightarrow> mine (snd (env_acquire env i w)) =
      (if acq_outcome (fst (env_acquire env i w)) = Owned then insert i (mine w) else mine w)"
    and mine_settle: "mine (snd (env_publish env i x w)) = mine w - {i}" "mine (env_abandon env i w) = mine w - {i}"
    and mine_frame: "mine (snd (env_read env off n w)) = mine w" "mine (snd (env_load env i n w)) = mine w"
      "mine (snd (env_store env i x w)) = mine w" "env_await env i w = Some (r, w') \<Longrightarrow> mine w' = mine w"

definition in_rng :: "bytes \<Rightarrow> ReadRange \<Rightarrow> bool" where
  "in_rng content rng \<longleftrightarrow> 0 < unat (range_length rng) \<and>
     unat (range_offset rng) + unat (range_length rng) \<le> length content"

definition rfirst :: "'w cached_env \<Rightarrow> ReadRange \<Rightarrow> u64" where
  "rfirst env rng = span_first (CoveringBlocks (range_offset rng) (range_length rng) (env_bs env))"

definition rcount :: "'w cached_env \<Rightarrow> ReadRange \<Rightarrow> nat" where
  "rcount env rng = blk_count (unat (env_bs env)) (unat (range_offset rng)) (unat (range_length rng))"

definition bidx :: "'w cached_env \<Rightarrow> ReadRange \<Rightarrow> nat \<Rightarrow> u64" where
  "bidx env rng i = rfirst env rng + of_nat i"

definition state_ok :: "'w cached_env \<Rightarrow> bytes \<Rightarrow> ReadRange \<Rightarrow> read_state \<Rightarrow> bool" where
  "state_ok env content rng rs \<longleftrightarrow>
     rs_ok content (unat (env_bs env)) (unat (range_offset rng)) (unat (range_length rng)) rs"

definition inner_failed :: "('w \<Rightarrow> bool) \<Rightarrow> 'w cached_env \<Rightarrow> Status \<Rightarrow> bool" where
  "inner_failed I env st \<longleftrightarrow> \<not> IsOk st \<and>
     (\<exists>w off n. I w \<and> st = rr_status (fst (fst (env_read env off n w))))"

context cached_world
begin

lemma content_64: "length content < 2 ^ 64"
  using size unat_u64_less [of "am_size (env_meta env)"] by simp

lemma rng_64:
  assumes "in_rng content rng"
  shows "unat (range_offset rng) + unat (range_length rng) < 2 ^ 64"
  using assms content_64 unfolding in_rng_def by linarith

lemma rfirst_unat:
  assumes "in_rng content rng"
  shows "unat (rfirst env rng) = blk_first (unat (env_bs env)) (unat (range_offset rng))"
  using CoveringBlocks_unat(1) [OF _ rng_64 [OF assms]] assms
  by (simp add: rfirst_def blk_first_def in_rng_def)

lemma bidx_unat:
  assumes "in_rng content rng" "i < rcount env rng"
  shows "unat (bidx env rng i) = blk_first (unat (env_bs env)) (unat (range_offset rng)) + i"
    "in_asset content (env_bs env) (bidx env rng i)"
proof -
  let ?bs = "unat (env_bs env)" and ?off = "unat (range_offset rng)" and ?len = "unat (range_length rng)"
  have pos: "0 < ?len" and fit: "?off + ?len \<le> length content" using assms(1) by (auto simp: in_rng_def)
  note g = lo_le_hi [OF bs(1) pos, of i ?off, folded rcount_def, OF assms(2)]
  have less: "(blk_first ?bs ?off + i) * ?bs < length content" using g fit by linarith
  have "blk_first ?bs ?off + i \<le> (blk_first ?bs ?off + i) * ?bs" using bs(1) by simp
  then have 64: "blk_first ?bs ?off + i < 2 ^ 64" using less content_64 by linarith
  then have "unat (of_nat i :: u64) = i" by simp
  then show u: "unat (bidx env rng i) = blk_first ?bs ?off + i"
    using 64 by (simp add: bidx_def unat_u64_add rfirst_unat [OF assms(1)])
  show "in_asset content (env_bs env) (bidx env rng i)" using less u by (simp add: in_asset_def)
qed

lemma bidx_mono:
  assumes "in_rng content rng" "i < rcount env rng" "j < rcount env rng"
  shows "unat (bidx env rng i) < unat (bidx env rng j) \<longleftrightarrow> i < j" "bidx env rng i = bidx env rng j \<longleftrightarrow> i = j"
  using bidx_unat(1) [OF assms(1,2)] bidx_unat(1) [OF assms(1,3)] by (auto simp: word_unat_eq_iff)

lemma bidx_back:
  assumes "in_rng content rng" "i < rcount env rng"
  shows "unat (bidx env rng i - rfirst env rng) = i"
proof -
  have "unat (bidx env rng i) < 2 ^ 64" using unat_u64_less [of "bidx env rng i"] by simp
  then have "i < 2 ^ 64" using bidx_unat(1) [OF assms] by linarith
  then show ?thesis by (simp add: bidx_def)
qed

lemma extent_unat:
  assumes "in_asset content (env_bs env) b"
  shows "unat (ext_offset (extent env b)) = unat b * unat (env_bs env)"
    "unat (ext_length (extent env b)) =
       min (unat (env_bs env)) (length content - unat b * unat (env_bs env))"
proof -
  have "unat b * unat (env_bs env) < 2 ^ 64" using assms content_64 unfolding in_asset_def by linarith
  from ExtentOf_unat [OF this, of "am_size (env_meta env)"] size
  show "unat (ext_offset (extent env b)) = unat b * unat (env_bs env)"
    "unat (ext_length (extent env b)) =
       min (unat (env_bs env)) (length content - unat b * unat (env_bs env))"
    by (simp_all add: extent_def env_bs_def)
qed

lemma blk_extent:
  assumes "in_asset content (env_bs env) b"
  shows "blk content (env_bs env) b =
      segment content (unat (ext_offset (extent env b))) (unat (ext_length (extent env b)))"
    "of_nat (length (blk content (env_bs env) b)) = ext_length (extent env b)"
    "length (blk content (env_bs env) b) \<le> max_block"
proof -
  note e = extent_unat [OF assms]
  show "blk content (env_bs env) b =
      segment content (unat (ext_offset (extent env b))) (unat (ext_length (extent env b)))"
    unfolding e blk_def by (rule segment_clip [symmetric])
  have "length (blk content (env_bs env) b) = unat (ext_length (extent env b))"
    unfolding e by (simp add: blk_def)
  then show "of_nat (length (blk content (env_bs env) b)) = ext_length (extent env b)" by simp
  show "length (blk content (env_bs env) b) \<le> max_block" using bs(2) by (simp add: blk_def)
qed

text \<open>The bounds the source computes for the part of a block in the range.\<close>

lemma part_bounds:
  assumes "in_rng content rng" "i < rcount env rng"
  defines "ext \<equiv> extent env (bidx env rng i)"
  defines "l \<equiv> lo (unat (env_bs env)) (unat (range_offset rng)) i"
  defines "h \<equiv> hi (unat (env_bs env)) (unat (range_offset rng)) (unat (range_length rng)) i"
  shows "unat (max (range_offset rng) (ext_offset ext)) = l"
    "unat (min (range_offset rng + range_length rng) (ext_offset ext + ext_length ext)) = h"
    "unat (range_offset rng) \<le> l" "l < h" "h \<le> length content"
    "unat (ext_offset ext) \<le> l" "h - unat (ext_offset ext) \<le> unat (env_bs env)"
proof -
  let ?bs = "unat (env_bs env)" and ?off = "unat (range_offset rng)" and ?len = "unat (range_length rng)"
  have pos: "0 < ?len" and fit: "?off + ?len \<le> length content" using assms(1) by (auto simp: in_rng_def)
  note g = lo_le_hi [OF bs(1) pos, of i ?off, folded rcount_def, OF assms(2), folded l_def h_def]
  note b = bidx_unat [OF assms(1,2)]
  note e = extent_unat [OF b(2), folded ext_def, unfolded b(1)]
  show "unat (max (range_offset rng) (ext_offset ext)) = l"
    by (simp add: max_def word_le_nat_alt e l_def lo_def)
  have r: "unat (range_offset rng + range_length rng) = ?off + ?len"
    using rng_64 [OF assms(1)] by (rule unat_u64_add)
  have "unat (ext_offset ext) + unat (ext_length ext) \<le> length content"
    using b(2) unfolding e in_asset_def b(1) by linarith
  then have x: "unat (ext_offset ext + ext_length ext) = unat (ext_offset ext) + unat (ext_length ext)"
    using content_64 by (intro unat_u64_add) linarith
  have "unat (min (range_offset rng + range_length rng) (ext_offset ext + ext_length ext)) =
      min (?off + ?len) (unat (ext_offset ext) + unat (ext_length ext))"
    by (simp add: min_def word_le_nat_alt r x)
  also have "\<dots> = h"
    unfolding h_def hi_def e mult_Suc using fit b(2) unfolding in_asset_def b(1) by linarith
  finally show "unat (min (range_offset rng + range_length rng) (ext_offset ext + ext_length ext)) = h" .
  show "?off \<le> l" "l < h" "h \<le> length content" "unat (ext_offset ext) \<le> l"
    "h - unat (ext_offset ext) \<le> ?bs"
    using g fit unfolding e mult_Suc by linarith+
qed

lemma CopyOverlap_blk:
  assumes "in_rng content rng" "i < rcount env rng"
  defines "l \<equiv> lo (unat (env_bs env)) (unat (range_offset rng)) i"
  defines "h \<equiv> hi (unat (env_bs env)) (unat (range_offset rng)) (unat (range_length rng)) i"
  shows "CopyOverlap dst (range_offset rng) (range_length rng) (ext_offset (extent env (bidx env rng i)))
      (blk content (env_bs env) (bidx env rng i)) (ext_length (extent env (bidx env rng i))) =
    (memcpy dst (l - unat (range_offset rng)) (segment content l (h - l)), of_nat (h - l))"
proof -
  let ?ext = "extent env (bidx env rng i)"
  let ?from = "max (range_offset rng) (ext_offset ?ext)"
  let ?till = "min (range_offset rng + range_length rng) (ext_offset ?ext + ext_length ?ext)"
  note p = part_bounds [OF assms(1,2), folded l_def h_def]
  have nle: "\<not> ?till \<le> ?from" using p(1,2,4) by (simp add: word_le_nat_alt)
  have d: "unat (?till - ?from) = h - l" using p(1,2,4) by (subst unat_u64_sub) (simp_all add: word_le_nat_alt)
  have o1: "unat (?from - range_offset rng) = l - unat (range_offset rng)"
    using p(1,3) by (subst unat_u64_sub) (simp_all add: word_le_nat_alt)
  have o2: "unat (?from - ext_offset ?ext) = l - unat (ext_offset ?ext)"
    using p(1,6) by (subst unat_u64_sub) (simp_all add: word_le_nat_alt)
  have "segment (blk content (env_bs env) (bidx env rng i)) (l - unat (ext_offset ?ext)) (h - l) =
      segment content l (h - l)"
    using p(4,6,7) extent_unat(1) [OF bidx_unat(2) [OF assms(1,2)]]
    by (simp add: blk_def segment_segment min_def)
  moreover have "?till - ?from = of_nat (h - l)" unfolding d [symmetric] by simp
  ultimately show ?thesis unfolding CopyOverlap_def Let_def d o1 o2 using nle by simp
qed

end

end
