(* ===== verification/CachedLoops.thy ===== *)
theory CachedLoops
  imports CachedCorrect
begin

text \<open>
  The loops of \<open>CachedAssetReader::Impl::ReadCached\<close>, each with the invariant it keeps: the
  resolved parts of the destination hold the asset's bytes, the blocks this read owns and
  the blocks it waits for are unresolved, disjoint and in ascending order.
\<close>

definition pass_ok ::
    "'w cached_env \<Rightarrow> ReadRange \<Rightarrow> read_state \<Rightarrow> OwnedBlocks \<Rightarrow> nat list \<Rightarrow> nat list \<Rightarrow> bool" where
  "pass_ok env rng rs owned js busy \<longleftrightarrow>
     ob_ok owned \<and> Outstanding owned = map (bidx env rng) js \<and> sorted_wrt (<) js \<and>
     distinct busy \<and> set js \<inter> set busy = {} \<and>
     (\<forall>i \<in> set js \<union> set busy. i < rcount env rng \<and> \<not> rs_resolved rs ! i)"

lemma pass_ok_mark:
  assumes "pass_ok env rng rs owned js busy" "i \<notin> set js" "i \<notin> set busy"
    "rs_resolved rs' = (rs_resolved rs)[i := True]"
  shows "pass_ok env rng rs' owned js busy"
  using assms unfolding pass_ok_def by (metis UnE nth_list_update_neq)

lemma pass_ok_cong:
  "pass_ok env rng rs owned js busy \<Longrightarrow> rs_resolved rs' = rs_resolved rs \<Longrightarrow> pass_ok env rng rs' owned js busy"
  by (simp add: pass_ok_def)

lemma pass_ok_abandoned:
  "pass_ok env rng rs owned js busy \<Longrightarrow> pass_ok env rng rs owned_none [] busy"
  by (simp add: pass_ok_def)

lemma pass_ok_Add:
  assumes "pass_ok env rng rs owned js busy" "\<forall>j\<in>set js. j < i" "i \<notin> set busy" "i < rcount env rng"
    "\<not> rs_resolved rs ! i"
  shows "pass_ok env rng rs (owned_Add (bidx env rng i) owned) (js @ [i]) busy"
  using assms by (auto simp: pass_ok_def owned_Add_facts sorted_wrt_append)

lemma pass_ok_busy:
  assumes "pass_ok env rng rs owned js busy" "i \<notin> set js" "i \<notin> set busy" "i < rcount env rng"
    "\<not> rs_resolved rs ! i"
  shows "pass_ok env rng rs owned js (busy @ [i])"
  using assms by (auto simp: pass_ok_def)

lemma pass_ok_head:
  assumes "pass_ok env rng rs owned (j # js) busy"
  shows "j < rcount env rng" "\<not> rs_resolved rs ! j" "j \<notin> set js" "j \<notin> set busy"
    "pass_ok env rng rs (MarkPublished (snd (owned_Next owned))) js busy"
    "fst (owned_Next owned) = bidx env rng j" "ob_outstanding owned \<noteq> 0"
proof -
  have ok: "ob_ok owned" "Outstanding owned = bidx env rng j # map (bidx env rng) js"
    using assms by (auto simp: pass_ok_def)
  show "fst (owned_Next owned) = bidx env rng j" using owned_Next_facts(1) [OF ok] .
  show "ob_outstanding owned \<noteq> 0" using ok by (simp add: ob_ok_def)
  show "pass_ok env rng rs (MarkPublished (snd (owned_Next owned))) js busy"
    using assms owned_Next_facts(4,5) [OF ok] by (simp add: pass_ok_def)
  show "j < rcount env rng" "\<not> rs_resolved rs ! j" "j \<notin> set js" "j \<notin> set busy"
    using assms by (auto simp: pass_ok_def)
qed

lemma remove1_map:
  "inj_on f (insert x (set xs)) \<Longrightarrow> remove1 (f x) (map f xs) = map f (remove1 x xs)"
  by (induction xs) (auto simp: inj_on_def)

lemma concat_map_split:
  "concat groups = map f js \<Longrightarrow> \<exists>nss. js = concat nss \<and> groups = map (map f) nss"
proof (induction groups arbitrary: js)
  case (Cons g gs)
  then obtain a b where ab: "js = a @ b" "g = map f a" "concat gs = map f b"
    by (auto simp: append_eq_map_conv)
  with Cons.IH obtain nss where "b = concat nss" "gs = map (map f) nss" by blast
  then show ?case using ab by (intro exI [of _ "a # nss"]) simp
qed simp

context cached_world
begin

lemma read_full:
  assumes "inv w" "env_read env off n w = ((r, xs), w')" "IsOk (rr_status r)"
    "unat off + unat n \<le> length content"
  shows "bytesRead r = n" "xs = segment content (unat off) (unat n)"
proof -
  show xs: "xs = segment content (unat off) (unat n)"
    using inner.read_ok [OF assms(1), of off n] assms(2,3) by simp
  have "unat (bytesRead r) = length xs"
    using inner.read_delivers [OF assms(1), of off n] assms(2) by simp
  also have "\<dots> = unat n" using xs assms(4) by simp
  finally show "bytesRead r = n" by (simp add: word_unat_eq_iff)
qed

lemma read_failed:
  assumes "inv w" "env_read env off n w = ((r, xs), w')" "\<not> IsOk (rr_status r)"
  shows "inner_failed inv env (rr_status r)"
  unfolding inner_failed_def using assms by (metis fst_conv)

lemma read_keeps: "inv w \<Longrightarrow> env_read env off n w = (r, w') \<Longrightarrow> inv w'"
  using inner.read_inv [of w off n] by simp

lemma AbandonAll_inv: "inv w \<Longrightarrow> inv (snd (AbandonAll (env_abandon env) ob w))"
proof -
  have "inv w \<Longrightarrow> inv (fold (env_abandon env) bs w)" for bs w
    by (induction bs arbitrary: w) (auto intro: abandon_inv)
  then show "inv w \<Longrightarrow> inv (snd (AbandonAll (env_abandon env) ob w))" by (simp add: AbandonAll_def)
qed

lemma AbandonAll_mine: "mine (snd (AbandonAll (env_abandon env) ob w)) = mine w - set (Outstanding ob)"
proof -
  have "mine (fold (env_abandon env) bs w) = mine w - set bs" for bs w
    by (induction bs arbitrary: w) (auto simp: mine_settle)
  then show ?thesis by (simp add: AbandonAll_def)
qed

lemma read_mine: "env_read env off n w = (r, w') \<Longrightarrow> mine w' = mine w"
  using mine_frame(1) [of off n w] by simp

lemma state_ok_settle:
  assumes "in_rng content rng" "state_ok env content rng rs" "i < rcount env rng" "\<not> rs_resolved rs ! i"
  defines "l \<equiv> lo (unat (env_bs env)) (unat (range_offset rng)) i"
  defines "h \<equiv> hi (unat (env_bs env)) (unat (range_offset rng)) (unat (range_length rng)) i"
  assumes "rs_dst rs' = memcpy (rs_dst rs) (l - unat (range_offset rng)) (segment content l (h - l))"
    "rs_resolved rs' = (rs_resolved rs)[i := True]" "rs_served rs' = rs_served rs + of_nat (h - l)"
  shows "state_ok env content rng rs'"
  using rs_ok_settle [OF assms(2) [unfolded state_ok_def] assms(3) [unfolded rcount_def] assms(4) bs(1)]
    assms unfolding in_rng_def state_ok_def by simp

lemma state_ok_cong:
  "state_ok env content rng rs \<Longrightarrow> rs_dst rs' = rs_dst rs \<Longrightarrow> rs_resolved rs' = rs_resolved rs \<Longrightarrow>
    rs_served rs' = rs_served rs \<Longrightarrow> state_ok env content rng rs'"
  by (simp add: state_ok_def rs_ok_def)

lemma serve_block_ok:
  assumes "in_rng content rng" "state_ok env content rng rs" "i < rcount env rng" "\<not> rs_resolved rs ! i"
  shows "state_ok env content rng
      (serve_block env rng i (bidx env rng i) (blk content (env_bs env) (bidx env rng i)) rs)"
  by (rule state_ok_settle [OF assms]) (simp_all add: serve_block_def CopyOverlap_blk [OF assms(1,3)])

lemma serve_block_resolved:
  "rs_resolved (serve_block env rng i b x rs) = (rs_resolved rs)[i := True]"
  by (simp add: serve_block_def case_prod_beta Let_def)

lemma direct_block_ok:
  assumes "in_rng content rng" "state_ok env content rng rs" "i < rcount env rng" "\<not> rs_resolved rs ! i"
    and "inv w" "direct_block env rng i (bidx env rng i) rs w = (r, w')"
  shows "inv w' \<and> mine w' = mine w \<and> (case r of Inl (st, m) \<Rightarrow> inner_failed inv env st
    | Inr rs' \<Rightarrow> state_ok env content rng rs' \<and> rs_resolved rs' = (rs_resolved rs)[i := True])"
proof -
  let ?ext = "extent env (bidx env rng i)"
  define fr where "fr = max (range_offset rng) (ext_offset ?ext)"
  define till where "till = min (range_offset rng + range_length rng) (ext_offset ?ext + ext_length ?ext)"
  note p = part_bounds [OF assms(1,3), folded fr_def till_def]
  have d: "unat (till - fr) = unat till - unat fr"
    using p(1,2,4) by (intro unat_u64_sub) (simp add: word_le_nat_alt)
  have o: "unat (fr - range_offset rng) = unat fr - unat (range_offset rng)"
    using p(1,3) by (intro unat_u64_sub) (simp add: word_le_nat_alt)
  obtain res xs w1 where rd: "env_read env fr (till - fr) w = ((res, xs), w1)"
    by (metis surj_pair)
  have w1: "inv w1" "mine w1 = mine w" using read_keeps [OF assms(5) rd] read_mine [OF rd] by simp_all
  have db: "direct_block env rng i (bidx env rng i) rs w =
      (let ((direct, bs), w') = ReadDirect env fr (till - fr) w in
        if \<not> IsOk direct then (Inl (direct, rs_metrics rs), w')
        else (Inr (rs\<lparr>rs_dst := memcpy (rs_dst rs) (unat (fr - range_offset rng)) bs,
                      rs_metrics := AddBlockMiss 1 (rs_metrics rs), rs_served := rs_served rs + (till - fr),
                      rs_resolved := (rs_resolved rs)[i := True]\<rparr>), w'))"
    unfolding direct_block_def Let_def fr_def till_def by (rule refl)
  show ?thesis
  proof (cases "IsOk (rr_status res)")
    case False
    then have "ReadDirect env fr (till - fr) w = ((rr_status res, xs), w1)"
      by (simp add: ReadDirect_def rd)
    then show ?thesis
      using assms(6) w1 read_failed [OF assms(5) rd False] False unfolding db by auto
  next
    case True
    have "unat fr + unat (till - fr) \<le> length content" using p(1,2,4,5) d by linarith
    note f = read_full [OF assms(5) rd True this]
    have "till - fr = of_nat (unat till - unat fr)" unfolding d [symmetric] by simp
    note s = state_ok_settle [OF assms(1-4), folded p(1,2), folded this]
    have "ReadDirect env fr (till - fr) w = ((Status_Ok, xs), w1)"
      using True f(1) by (simp add: ReadDirect_def rd)
    then show ?thesis
      using assms(6) w1 f(2) unfolding db by (auto simp: IsOk_def o d intro!: s)
  qed
qed

lemma acquire_loop_ok:
  assumes "in_rng content rng"
  shows "inv w \<Longrightarrow> state_ok env content rng rs \<Longrightarrow> pass_ok env rng rs owned js busy \<Longrightarrow>
    mine w = set (Outstanding owned) \<Longrightarrow>
    \<forall>j \<in> set js \<union> set busy. \<forall>i \<in> set is. j < i \<Longrightarrow> sorted_wrt (<) is \<Longrightarrow> \<forall>i \<in> set is. i < rcount env rng \<Longrightarrow>
    acquire_loop env rng (rfirst env rng) is owned busy rs w = (r, w') \<Longrightarrow>
    inv w' \<and> (case r of Inl (st, m) \<Rightarrow> inner_failed inv env st \<and> mine w' = {}
      | Inr (owned', busy', rs') \<Rightarrow> state_ok env content rng rs' \<and> mine w' = set (Outstanding owned') \<and>
          (\<exists>js'. pass_ok env rng rs' owned' js' busy'))"
proof (induction "is" arbitrary: owned js busy rs w)
  case Nil
  then show ?case by auto
next
  case (Cons i "is")
  note prems = Cons.prems
  let ?b = "bidx env rng i"
  have i: "i < rcount env rng" "i \<notin> set js" "i \<notin> set busy" "\<forall>j\<in>set js. j < i" using prems(5,7) by auto
  have rest: "sorted_wrt (<) is" "\<forall>j \<in> set is. j < rcount env rng" "\<forall>j\<in>set is. i < j"
    "\<forall>j \<in> set js \<union> set busy. \<forall>i \<in> set is. j < i" using prems(5-7) by auto
  show ?case
  proof (cases "rs_resolved rs ! i")
    case True
    then show ?thesis using Cons.IH [OF prems(1-4) rest(4,1,2)] prems(8) by simp
  next
    case False
    obtain acq w1 where acq: "env_acquire env ?b w = (acq, w1)" by fastforce
    have w1: "inv w1" using acquire_inv [OF prems(1), of ?b] acq by simp
    have fold_b: "rfirst env rng + of_nat i = ?b" by (simp add: bidx_def)
    note eq = prems(8) [unfolded acquire_loop.simps Let_def fold_b if_not_P [OF False] acq split]
    have m1: "mine w1 = (if acq_outcome acq = Owned then insert ?b (mine w) else mine w)"
      using mine_acquire [OF prems(1), of ?b] acq by simp
    have direct: ?thesis
      if hit: "acq_outcome acq = Hit" and eq: "(let (owned', w2) = AbandonAll (env_abandon env) owned w1
           in (case direct_block env rng i ?b rs w2 of (Inl st, w3) \<Rightarrow> (Inl st, w3)
             | (Inr rs', w3) \<Rightarrow> acquire_loop env rng (rfirst env rng) is owned' busy rs' w3)) = (r, w')"
    proof -
      define w2 where "w2 = snd (AbandonAll (env_abandon env) owned w1)"
      obtain d w3 where d: "direct_block env rng i ?b rs w2 = (d, w3)" by fastforce
      have "inv w2" using AbandonAll_inv [OF w1] by (simp add: w2_def)
      note ok = direct_block_ok [OF assms prems(2) i(1) False this d]
      have m2: "mine w2 = {}" using AbandonAll_mine [of owned w1] m1 hit prems(4) by (simp add: w2_def)
      have ab: "AbandonAll (env_abandon env) owned w1 = (owned_none, w2)"
        by (simp add: w2_def AbandonAll_def)
      show ?thesis
      proof (cases d)
        case (Inl e)
        then show ?thesis using eq ok d ab m2 by (cases e) auto
      next
        case (Inr rs1)
        then have "pass_ok env rng rs1 owned_none [] busy"
          using pass_ok_mark [OF pass_ok_abandoned [OF prems(3)] _ i(3)] ok by auto
        then show ?thesis
          using Cons.IH [of w3 rs1 owned_none "[]" busy] rest ok Inr eq d ab m2 by auto
      qed
    qed
    show ?thesis
    proof (cases "acq_outcome acq")
      case Hit
      show ?thesis
      proof (cases "\<exists>x. acq_block acq = Some x \<and> of_nat (length x) = ext_length (extent env ?b)")
        case True
        then obtain x where x: "acq_block acq = Some x" "of_nat (length x) = ext_length (extent env ?b)" by blast
        then have "x = blk content (env_bs env) ?b"
          using acquire_hit [OF prems(1) bidx_unat(2) [OF assms i(1)], of x] acq Hit by simp
        note sv = serve_block_ok [OF assms prems(2) i(1) False, folded this]
        have "pass_ok env rng (serve_block env rng i ?b x rs) owned js busy"
          by (rule pass_ok_mark [OF prems(3) i(2,3) serve_block_resolved])
        then show ?thesis using Cons.IH [OF w1 sv _ _ rest(4,1,2)] eq Hit x m1 prems(4) by simp
      next
        case no: False
        show ?thesis
          by (rule direct [OF Hit]) (use eq Hit no in \<open>auto simp: Let_def split: option.splits if_splits\<close>)
      qed
    next
      case Owned
      have "ob_ok owned" using prems(3) by (simp add: pass_ok_def)
      then have "mine w1 = set (Outstanding (owned_Add ?b owned))"
        using m1 Owned prems(4) by (simp add: owned_Add_facts)
      then show ?thesis
        using Cons.IH [OF w1 prems(2) pass_ok_Add [OF prems(3) i(4,3,1) False] _ _ rest(1,2)] rest(3,4) eq Owned
        by auto
    next
      case Busy
      then show ?thesis
        using Cons.IH [OF w1 prems(2) pass_ok_busy [OF prems(3) i(2,3,1) False] _ _ rest(1,2)] rest(3,4) eq m1 prems(4)
        by auto
    qed
  qed
qed

lemma pass_ok_Settle:
  assumes "in_rng content rng" "pass_ok env rng rs owned js busy" "j \<in> set js"
    "rs_resolved rs' = (rs_resolved rs)[j := True]"
  shows "pass_ok env rng rs' (Settle (bidx env rng j) owned) (remove1 j js) busy"
proof -
  have ok: "ob_ok owned" "Outstanding owned = map (bidx env rng) js" "sorted_wrt (<) js"
    using assms(2) by (auto simp: pass_ok_def)
  then have d: "distinct js" by (metis strict_sorted_iff)
  have "inj_on (bidx env rng) (insert j (set js))"
    using assms(2,3) bidx_mono(2) [OF assms(1)] by (auto simp: inj_on_def pass_ok_def)
  then have "Outstanding (Settle (bidx env rng j) owned) = map (bidx env rng) (remove1 j js)"
    using Settle_facts(2) [OF ok(1)] ok(2) assms(3) remove1_map by simp
  moreover have "ob_ok (Settle (bidx env rng j) owned)" using Settle_facts(1) [OF ok(1)] ok(2) assms(3) by simp
  moreover have "sorted_wrt (<) (remove1 j js)" using ok(3) sorted_remove1 by (metis d distinct_remove1 strict_sorted_iff)
  moreover have "i < rcount env rng \<and> \<not> rs_resolved rs' ! i" if "i \<in> set (remove1 j js) \<union> set busy" for i
  proof -
    have "i \<noteq> j" "i \<in> set js \<union> set busy" using that assms(2,3) d by (auto simp: pass_ok_def)
    then show ?thesis using assms(2,4) by (simp add: pass_ok_def)
  qed
  ultimately show ?thesis
    using assms(2) d unfolding pass_ok_def by auto
qed

lemma pass_ok_owned:
  assumes "in_rng content rng" "pass_ok env rng rs owned js busy" "j \<in> set js"
  shows "distinct (Outstanding owned)"
    "set (Outstanding (Settle (bidx env rng j) owned)) = set (Outstanding owned) - {bidx env rng j}"
proof -
  have ok: "ob_ok owned" "Outstanding owned = map (bidx env rng) js" "sorted_wrt (<) js"
    using assms(2) by (auto simp: pass_ok_def)
  have "inj_on (bidx env rng) (set js)"
    using assms(2) bidx_mono(2) [OF assms(1)] by (auto simp: inj_on_def pass_ok_def)
  then show d: "distinct (Outstanding owned)"
    using ok(2,3) by (simp add: distinct_map strict_sorted_iff)
  then show "set (Outstanding (Settle (bidx env rng j) owned)) = set (Outstanding owned) - {bidx env rng j}"
    using Settle_facts(2) [OF ok(1)] ok(2) assms(3) by (simp add: set_remove1_eq)
qed

lemma load_loop_ok:
  assumes "in_rng content rng"
  shows "inv w \<Longrightarrow> state_ok env content rng rs \<Longrightarrow> pass_ok env rng rs owned js busy \<Longrightarrow>
    distinct ls \<Longrightarrow> set ls \<subseteq> set js \<Longrightarrow>
    load_loop env rng (rfirst env rng) (map (bidx env rng) ls) owned rs w = (owned', rs', w') \<Longrightarrow>
    mine w = set (Outstanding owned) \<Longrightarrow>
    inv w' \<and> state_ok env content rng rs' \<and> mine w' = set (Outstanding owned') \<and>
    (\<exists>js'. pass_ok env rng rs' owned' js' busy)"
proof (induction ls arbitrary: owned js rs w)
  case Nil
  then show ?case by auto
next
  case (Cons l ls)
  note prems = Cons.prems
  let ?b = "bidx env rng l"
  have l: "l \<in> set js" "l < rcount env rng" "\<not> rs_resolved rs ! l"
    using prems(3,5) by (auto simp: pass_ok_def)
  note asset = bidx_unat(2) [OF assms l(2)]
  obtain x w1 where x: "env_load env ?b (ext_length (extent env ?b)) w = (x, w1)" by fastforce
  have w1: "inv w1" "mine w1 = mine w"
    using load_inv [OF prems(1), of ?b "ext_length (extent env ?b)"]
      mine_frame(2) [of ?b "ext_length (extent env ?b)" w] x by simp_all
  show ?case
  proof (cases x)
    case None
    then show ?thesis using Cons.IH [OF w1(1) prems(2,3)] prems(4-7) w1(2) x by simp
  next
    case (Some y)
    have y: "y = blk content (env_bs env) ?b" using load_ok [OF prems(1) asset, of y] x Some by simp
    obtain ev w2 where pub: "env_publish env ?b y w1 = (ev, w2)" by fastforce
    have w2: "inv w2" using publish_inv [OF w1(1) asset] pub y by simp
    have "mine w2 = set (Outstanding (Settle ?b owned))"
      using mine_settle(1) [of ?b y w1] pub w1(2) prems(7) pass_ok_owned(2) [OF assms prems(3) l(1)] by simp
    define rs1 where "rs1 = rs\<lparr>rs_metrics := AddPersistedHit 1 (AddEviction ev (rs_metrics rs))\<rparr>"
    have "state_ok env content rng rs1" by (rule state_ok_cong [OF prems(2)]) (simp_all add: rs1_def)
    moreover have "\<not> rs_resolved rs1 ! l" using l(3) by (simp add: rs1_def)
    ultimately have "state_ok env content rng (serve_block env rng l ?b y rs1)"
      using serve_block_ok [OF assms _ l(2)] y by simp
    moreover have "pass_ok env rng (serve_block env rng l ?b y rs1) (Settle ?b owned) (remove1 l js) busy"
      by (rule pass_ok_Settle [OF assms prems(3) l(1)]) (simp add: serve_block_resolved rs1_def)
    moreover have "load_loop env rng (rfirst env rng) (map (bidx env rng) ls) (Settle ?b owned)
        (serve_block env rng l ?b y rs1) w2 = (owned', rs', w')"
      using prems(6) by (simp add: x Some pub bidx_back [OF assms l(2)] rs1_def)
    moreover have "set ls \<subseteq> set (remove1 l js)" using prems(4,5) in_set_remove1 by (metis distinct.simps(2) set_subset_Cons subsetD subsetI)
    ultimately show ?thesis using Cons.IH [OF w2] prems(4) \<open>mine w2 = _\<close> by auto
  qed
qed

text \<open>One fetched run: its blocks are cut out of the transfer, published and copied.\<close>

lemma transfer_block:
  assumes "transfer = segment content (unat (run_offset run)) (unat (run_length run))"
    "in_asset content (env_bs env) b"
    "covers_block (env_bs env) (am_size (env_meta env)) run b"
  shows "segment transfer (unat (ext_offset (extent env b) - run_offset run)) (unat (ext_length (extent env b))) =
    blk content (env_bs env) b"
proof -
  note e = extent_unat [OF assms(2)]
  have c: "unat (run_offset run) \<le> unat b * unat (env_bs env)"
    "min (length content) (Suc (unat b) * unat (env_bs env)) \<le> unat (run_offset run) + unat (run_length run)"
    using assms(3) size by (auto simp: covers_block_def)
  have "unat (ext_offset (extent env b) - run_offset run) = unat (ext_offset (extent env b)) - unat (run_offset run)"
    using c(1) e(1) by (intro unat_u64_sub) (simp add: word_le_nat_alt)
  moreover have "unat (ext_offset (extent env b)) - unat (run_offset run) + unat (ext_length (extent env b))
      \<le> unat (run_length run)"
    using c assms(2) unfolding e in_asset_def mult_Suc by linarith
  ultimately show ?thesis
    using c(1) e(1) unfolding assms(1) blk_extent(1) [OF assms(2)] by (simp add: segment_segment min_def)
qed

lemma pass_ok_head_out:
  assumes "in_rng content rng" "pass_ok env rng rs owned (j # js) busy"
  shows "set (Outstanding (MarkPublished (snd (owned_Next owned)))) = set (Outstanding owned) - {bidx env rng j}"
proof -
  have ok: "ob_ok owned" "Outstanding owned = bidx env rng j # map (bidx env rng) js"
    using assms(2) by (auto simp: pass_ok_def)
  have "distinct (Outstanding owned)" using pass_ok_owned(1) [OF assms, of j] by simp
  then show ?thesis using owned_Next_facts(5) [OF ok] ok(2) by auto
qed

lemma settle_run_ok:
  assumes "in_rng content rng"
    and transfer: "transfer = segment content (unat (run_offset run)) (unat (run_length run))"
  defines "runLast \<equiv> firstBlock run + blockCount run - 1"
  shows "inv w \<Longrightarrow> state_ok env content rng rs \<Longrightarrow> pass_ok env rng rs owned (gs @ rest) busy \<Longrightarrow>
    \<forall>g \<in> set gs. covers_block (env_bs env) (am_size (env_meta env)) run (bidx env rng g) \<and> bidx env rng g \<le> runLast \<Longrightarrow>
    \<forall>g \<in> set rest. \<not> bidx env rng g \<le> runLast \<Longrightarrow>
    settle_run env rng (rfirst env rng) run transfer owned taken rs w = (owned', taken', rs', w') \<Longrightarrow>
    mine w = set (Outstanding owned) \<Longrightarrow>
    inv w' \<and> state_ok env content rng rs' \<and> pass_ok env rng rs' owned' rest busy \<and> mine w' = set (Outstanding owned')"
proof (induction gs arbitrary: owned taken rs w)
  case Nil
  have "\<not> (ob_outstanding owned \<noteq> 0 \<and> fst (owned_Next owned) \<le> runLast)"
  proof (cases rest)
    case Nil
    then show ?thesis using Nil.prems(3) by (simp add: pass_ok_def ob_ok_def)
  next
    case (Cons g gs)
    then show ?thesis using pass_ok_head(6) [of env rng rs owned g gs busy] Nil.prems(3,5) by simp
  qed
  then have "settle_run env rng (rfirst env rng) run transfer owned taken rs w = (owned, taken, rs, w)"
    unfolding runLast_def by (subst settle_run.simps) (rule if_not_P)
  then show ?case using Nil.prems by simp
next
  case (Cons g gs)
  note prems = Cons.prems
  let ?b = "bidx env rng g"
  note h = pass_ok_head [OF prems(3) [unfolded append_Cons]]
  note asset = bidx_unat(2) [OF assms(1) h(1)]
  have go: "ob_outstanding owned \<noteq> 0 \<and> fst (owned_Next owned) \<le> firstBlock run + blockCount run - 1"
    using h(6,7) prems(4) by (simp add: runLast_def)
  have nx: "owned_Next owned = (?b, snd (owned_Next owned))" using h(6) by (metis prod.collapse)
  have t: "segment transfer (unat (ext_offset (extent env ?b) - run_offset run)) (unat (ext_length (extent env ?b))) =
      blk content (env_bs env) ?b"
    using transfer_block [OF transfer asset] prems(4) by simp
  obtain ev w1 where pub: "env_publish env ?b (blk content (env_bs env) ?b) w = (ev, w1)" by fastforce
  have w1: "inv w1" using publish_inv [OF prems(1) asset] pub by simp
  obtain stored w2 where st: "(if env_persistentEnabled env then env_store env ?b (blk content (env_bs env) ?b) w1
      else (False, w1)) = (stored, w2)" by fastforce
  have w2: "inv w2" using store_inv [OF w1 asset] w1 st by (auto split: if_splits)
  have "mine w2 = mine w1"
    using mine_frame(3) [of ?b "blk content (env_bs env) ?b" w1] st by (auto split: if_splits)
  then have m2: "mine w2 = set (Outstanding (MarkPublished (snd (owned_Next owned))))"
    using mine_settle(1) [of ?b "blk content (env_bs env) ?b" w] pub prems(7) pass_ok_head_out [OF assms(1) prems(3) [unfolded append_Cons]]
    by simp
  obtain dst copied where cp: "CopyOverlap (rs_dst rs) (range_offset rng) (range_length rng)
      (ext_offset (extent env ?b)) (blk content (env_bs env) ?b) (ext_length (extent env ?b)) = (dst, copied)"
    by fastforce
  define rs1 where "rs1 = rs\<lparr>rs_dst := dst,
      rs_metrics := (if stored then AddPersistedWrite 1 (AddBlockMiss 1 (AddEviction ev (rs_metrics rs)))
         else AddBlockMiss 1 (AddEviction ev (rs_metrics rs))),
      rs_served := rs_served rs + copied, rs_resolved := (rs_resolved rs)[g := True]\<rparr>"
  have "state_ok env content rng rs1"
    using cp unfolding CopyOverlap_blk [OF assms(1) h(1)]
    by (intro state_ok_settle [OF assms(1) prems(2) h(1,2)]) (auto simp: rs1_def)
  moreover have "pass_ok env rng rs1 (MarkPublished (snd (owned_Next owned))) (gs @ rest) busy"
    by (rule pass_ok_mark [OF h(5,3,4)]) (simp add: rs1_def)
  moreover have "settle_run env rng (rfirst env rng) run transfer (MarkPublished (snd (owned_Next owned)))
      (taken + copied) rs1 w2 = (owned', taken', rs', w')"
    using prems(6) unfolding settle_run.simps [of env rng "rfirst env rng" run transfer owned] if_P [OF go]
    by (subst (asm) nx)
      (simp only: Let_def split t pub st cp bidx_back [OF assms(1) h(1)] rs1_def)
  ultimately show ?case using Cons.IH [OF w2] prems(4,5) m2 by auto
qed

lemma group_run:
  assumes "in_rng content rng" "pass_ok env rng rs owned (ns @ rest) busy" "ns \<noteq> []"
  defines "run \<equiv> run_of (env_bs env) (am_size (env_meta env)) (map (bidx env rng) ns)"
  shows "\<forall>g \<in> set ns. covers_block (env_bs env) (am_size (env_meta env)) run (bidx env rng g) \<and>
      bidx env rng g \<le> firstBlock run + blockCount run - 1"
    "\<forall>g \<in> set rest. \<not> bidx env rng g \<le> firstBlock run + blockCount run - 1"
    "unat (run_offset run) + unat (run_length run) \<le> length content"
proof -
  let ?grp = "map (bidx env rng) ns"
  have all: "\<forall>i\<in>set (ns @ rest). i < rcount env rng" and srt: "sorted_wrt (<) (ns @ rest)"
    using assms(2) by (auto simp: pass_ok_def)
  have asc: "ascending ?grp"
    unfolding ascending_def sorted_wrt_map
    by (rule sorted_wrt_mono_rel [of _ "(<)"]) (use srt all bidx_mono(1) [OF assms(1)] in \<open>auto simp: sorted_wrt_append\<close>)
  have ins: "\<forall>b\<in>set ?grp. unat b * unat (env_bs env) < unat (am_size (env_meta env))"
    using bidx_unat(2) [OF assms(1)] all size by (auto simp: in_asset_def)
  have ne: "?grp \<noteq> []" using assms(3) by simp
  have lst: "firstBlock run + blockCount run - 1 = bidx env rng (last ns)"
    using assms(3) by (simp add: run_def run_of_def close_run_def last_map)
  have "unat b \<le> unat (last ?grp)" if "b \<in> set ?grp" for b
    using sorted_group_bounds(2) [of ?grp b] asc that by (simp add: ascending_def)
  then show "\<forall>g \<in> set ns. covers_block (env_bs env) (am_size (env_meta env)) run (bidx env rng g) \<and>
      bidx env rng g \<le> firstBlock run + blockCount run - 1"
    unfolding lst using run_of_covers [OF asc ins bs(1), folded run_def] assms(3)
    by (simp add: word_le_nat_alt last_map)
  show "\<forall>g \<in> set rest. \<not> bidx env rng g \<le> firstBlock run + blockCount run - 1"
    unfolding lst using srt all assms(3) bidx_mono(1) [OF assms(1)]
    by (auto simp: sorted_wrt_append word_le_nat_alt not_le)
  show "unat (run_offset run) + unat (run_length run) \<le> length content"
    using run_of_unat(3) [OF asc ne ins bs(1)] size unfolding run_def by simp
qed

lemma fetch_loop_ok:
  assumes "in_rng content rng"
  shows "inv w \<Longrightarrow> state_ok env content rng rs \<Longrightarrow> pass_ok env rng rs owned (concat nss) busy \<Longrightarrow> [] \<notin> set nss \<Longrightarrow>
    fetch_loop env rng (rfirst env rng)
      (map (\<lambda>ns. run_of (env_bs env) (am_size (env_meta env)) (map (bidx env rng) ns)) nss) owned rs w = (r, w') \<Longrightarrow>
    mine w = set (Outstanding owned) \<Longrightarrow>
    inv w' \<and> mine w' = {} \<and> (case r of Inl (st, m) \<Rightarrow> inner_failed inv env st
      | Inr (owned', rs') \<Rightarrow> state_ok env content rng rs' \<and> pass_ok env rng rs' owned' [] busy)"
proof (induction nss arbitrary: owned rs w)
  case Nil
  then show ?case by (auto simp: pass_ok_def)
next
  case (Cons ns nss)
  note prems = Cons.prems
  let ?run = "run_of (env_bs env) (am_size (env_meta env)) (map (bidx env rng) ns)"
  let ?runs = "map (\<lambda>ns. run_of (env_bs env) (am_size (env_meta env)) (map (bidx env rng) ns)) nss"
  have po: "pass_ok env rng rs owned (ns @ concat nss) busy" and ne: "ns \<noteq> []" using prems(3,4) by auto
  note g = group_run [OF assms po ne]
  obtain res xs w1 where rd: "env_read env (run_offset ?run) (run_length ?run) w = ((res, xs), w1)"
    by (metis surj_pair)
  have w1: "inv w1" "mine w1 = set (Outstanding owned)"
    using read_keeps [OF prems(1) rd] read_mine [OF rd] prems(6) by simp_all
  show ?case
  proof (cases "IsOk (rr_status res)")
    case False
    then show ?thesis
      using prems(5) AbandonAll_inv [OF w1(1), of owned] AbandonAll_mine [of owned w1] w1(2) read_failed [OF prems(1) rd False]
      by (auto simp: rd case_prod_beta Let_def)
  next
    case True
    note f = read_full [OF prems(1) rd True g(3)]
    obtain owned1 taken rs1 w2
      where st: "settle_run env rng (rfirst env rng) ?run xs owned 0 rs w1 = (owned1, taken, rs1, w2)"
      by (metis surj_pair)
    note s = settle_run_ok [OF assms f(2) w1(1) prems(2) po g(1,2) st w1(2)]
    define rs2 where "rs2 = rs1\<lparr>rs_metrics := AddBytesOverFetched (OverFetchedBytes ?run taken) (rs_metrics rs1)\<rparr>"
    have "fetch_loop env rng (rfirst env rng) ?runs owned1 rs2 w2 = (r, w')"
      using prems(5) True f(1) by (simp add: rd st rs2_def)
    moreover have "state_ok env content rng rs2" "pass_ok env rng rs2 owned1 (concat nss) busy"
      using state_ok_cong [of rng rs1 rs2] pass_ok_cong [of env rng rs1 owned1 "concat nss" busy rs2] s
      by (simp_all add: rs2_def)
    ultimately show ?thesis using Cons.IH [of w2 rs2 owned1] s prems(4) by simp
  qed
qed

lemma fetch_planned_ok:
  assumes "in_rng content rng" "inv w" "state_ok env content rng rs" "pass_ok env rng rs owned js busy"
    and "fetch_loop env rng (rfirst env rng)
      (PlanRuns (Outstanding owned) (env_bs env) (am_size (env_meta env)) g mx) owned rs w = (r, w')"
    and "mine w = set (Outstanding owned)"
  shows "inv w' \<and> mine w' = {} \<and> (case r of Inl (st, m) \<Rightarrow> inner_failed inv env st
    | Inr (owned', rs') \<Rightarrow> state_ok env content rng rs' \<and> pass_ok env rng rs' owned' [] busy)"
proof -
  obtain groups where gr: "concat groups = Outstanding owned"
    "PlanRuns (Outstanding owned) (env_bs env) (am_size (env_meta env)) g mx =
       map (\<lambda>grp. close_run (env_bs env) (am_size (env_meta env)) (hd grp) (last grp)) groups"
    "plan_groups (env_bs env) (am_size (env_meta env)) g mx groups"
    using PlanRuns_split by blast
  have "Outstanding owned = map (bidx env rng) js" using assms(4) by (simp add: pass_ok_def)
  with gr(1) obtain nss where n: "js = concat nss" "groups = map (map (bidx env rng)) nss"
    using concat_map_split by metis
  have "[] \<notin> set nss" using gr(3) n(2) by (auto simp: plan_groups_def)
  then show ?thesis
    using fetch_loop_ok [OF assms(1-3) assms(4) [unfolded n(1)], of r w'] assms(5,6)
    by (simp add: gr(2) n(2) run_of_def comp_def)
qed

lemma await_loop_ok:
  assumes "in_rng content rng"
  shows "inv w \<Longrightarrow> state_ok env content rng rs \<Longrightarrow> distinct busy \<Longrightarrow>
    \<forall>i\<in>set busy. i < rcount env rng \<and> \<not> rs_resolved rs ! i \<Longrightarrow>
    await_loop env rng (rfirst env rng) busy rs w = Some (rs', w') \<Longrightarrow>
    inv w' \<and> state_ok env content rng rs' \<and> mine w' = mine w"
proof (induction busy arbitrary: rs w)
  case Nil
  then show ?case by simp
next
  case (Cons i busy)
  note prems = Cons.prems
  let ?b = "bidx env rng i"
  have i: "i < rcount env rng" "\<not> rs_resolved rs ! i" using prems(4) by auto
  have fold_b: "rfirst env rng + of_nat i = ?b" by (simp add: bidx_def)
  note eq = prems(5) [unfolded await_loop.simps fold_b]
  obtain x w1 where aw: "env_await env ?b w = Some (x, w1)" using eq by (auto split: option.splits)
  note a = await_ok [OF prems(1) bidx_unat(2) [OF assms i(1)] aw] mine_frame(4) [OF aw]
  show ?case
  proof (cases "\<exists>y. x = Some y \<and> of_nat (length y) = ext_length (extent env ?b)")
    case False
    then have "await_loop env rng (rfirst env rng) busy rs w1 = Some (rs', w')"
      using eq aw by (auto split: option.splits if_splits)
    then show ?thesis using Cons.IH [of w1 rs] a prems(2-4) by auto
  next
    case True
    then obtain y where y: "x = Some y" "of_nat (length y) = ext_length (extent env ?b)" by blast
    define rs1 where "rs1 = serve_block env rng i ?b y rs"
    define rs2 where "rs2 = rs1\<lparr>rs_metrics := AddRequestsSavedBySingleFlight 1 (rs_metrics rs1)\<rparr>"
    have "y = blk content (env_bs env) ?b" using a y by blast
    then have "state_ok env content rng rs1"
      using serve_block_ok [OF assms prems(2) i] by (simp add: rs1_def)
    then have "state_ok env content rng rs2" by (rule state_ok_cong) (simp_all add: rs2_def)
    moreover have "rs_resolved rs2 = (rs_resolved rs)[i := True]" by (simp add: rs2_def rs1_def serve_block_resolved)
    then have "\<forall>j\<in>set busy. j < rcount env rng \<and> \<not> rs_resolved rs2 ! j"
      using prems(3,4) by (metis distinct.simps(2) list.set_intros(2) nth_list_update_neq)
    moreover have "await_loop env rng (rfirst env rng) busy rs2 w1 = Some (rs', w')"
      using eq aw y by (simp add: rs1_def rs2_def Let_def)
    ultimately show ?thesis using Cons.IH [of w1 rs2] a prems(3) by auto
  qed
qed

end

end
