(* ===== verification/CachedContract.thy ===== *)
theory CachedContract
  imports CachedLoops
begin

text \<open>
  The cached reader keeps the read contract of the reader it decorates: the passes, the
  leftover loop and the whole of \<open>ReadCached\<close> and \<open>Read\<close>.
\<close>

context cached_world
begin

lemma load_persisted_ok:
  assumes "in_rng content rng" "inv w" "state_ok env content rng rs" "pass_ok env rng rs owned js busy"
    and "load_persisted env rng (rfirst env rng) owned rs w = (owned', rs', w')" "mine w = set (Outstanding owned)"
  shows "inv w' \<and> state_ok env content rng rs' \<and> mine w' = set (Outstanding owned') \<and>
    (\<exists>js'. pass_ok env rng rs' owned' js' busy)"
proof -
  have out: "Outstanding owned = map (bidx env rng) js" and d: "distinct js"
    using assms(4) unfolding pass_ok_def by (auto simp: strict_sorted_iff)
  note loop = load_loop_ok [OF assms(1-4) d order_refl _ assms(6)]
  consider "owned' = owned" "rs' = rs" "w' = w"
    | "load_loop env rng (rfirst env rng) (map (bidx env rng) js) owned rs w = (owned', rs', w')"
    using assms(5) unfolding load_persisted_def out [symmetric] 
    by (cases "env_persists env \<and> \<not> owned_Empty owned") simp_all
  then show ?thesis
  proof cases
    case 1
    then show ?thesis using assms(2-4,6) by blast
  next
    case 2
    then show ?thesis by (rule loop)
  qed
qed

lemma fetch_owned_ok:
  assumes "in_rng content rng" "inv w" "state_ok env content rng rs" "pass_ok env rng rs owned js busy"
    and "fetch_owned env rng (rfirst env rng) owned rs w = (r, w')" "mine w = set (Outstanding owned)"
  shows "inv w' \<and> mine w' = {} \<and> (case r of Inl (st, m) \<Rightarrow> inner_failed inv env st
    | Inr (owned', rs') \<Rightarrow> state_ok env content rng rs' \<and> pass_ok env rng rs' owned' [] busy)"
proof (cases "owned_Empty owned")
  case True
  then have "js = []" using assms(4) owned_Empty_iff [of owned] by (simp add: pass_ok_def)
  then show ?thesis using True assms by (auto simp: fetch_owned_def pass_ok_def)
next
  case False
  define runs where "runs = PlanRuns (Outstanding owned) (env_bs env) (am_size (env_meta env))
    (coalesceGapBlocks (env_options env)) (maxRequestBytes (env_options env))"
  define rs1 where "rs1 = rs\<lparr>rs_metrics :=
    AddRequestsSavedByCoalescing (of_nat (ob_outstanding owned) - of_nat (length runs)) (rs_metrics rs)\<rparr>"
  have "state_ok env content rng rs1" "pass_ok env rng rs1 owned js busy"
    using state_ok_cong [OF assms(3), of rs1] pass_ok_cong [OF assms(4), of rs1] by (simp_all add: rs1_def)
  moreover have "fetch_loop env rng (rfirst env rng) runs owned rs1 w = (r, w')"
    using assms(5) False by (simp add: fetch_owned_def runs_def rs1_def env_bs_def Let_def)
  ultimately show ?thesis using fetch_planned_ok [OF assms(1,2)] assms(6) unfolding runs_def by blast
qed

text \<open>
  A pass waits for other readers only after it has published or given back every block
  it owned, so two readers never wait for each other.
\<close>

lemma waits_without_owning:
  assumes "in_rng content rng" "inv w" "state_ok env content rng rs" "pass_ok env rng rs owned js busy"
    and "fetch_owned env rng (rfirst env rng) owned rs w = (Inr (owned', rs'), w')" "mine w = set (Outstanding owned)"
  shows "Outstanding owned' = [] \<and> mine w' = {}"
  using fetch_owned_ok [OF assms] by (auto simp: pass_ok_def)

lemma cooperative_pass_ok:
  assumes "in_rng content rng" "inv w" "state_ok env content rng rs"
    and "cooperative_pass env rng (rfirst env rng) (rcount env rng) rs w = Some (res, w')" "mine w = {}"
  shows "inv w' \<and> mine w' = {} \<and> (case res of Failed st m \<Rightarrow> inner_failed inv env st
    | Stop rs' \<Rightarrow> state_ok env content rng rs' | Again rs' \<Rightarrow> state_ok env content rng rs')"
proof -
  obtain a w1 where a: "acquire_loop env rng (rfirst env rng) [0..<rcount env rng] owned_none [] rs w = (a, w1)"
    by fastforce
  have "pass_ok env rng rs owned_none [] []" by (simp add: pass_ok_def)
  note acq = acquire_loop_ok [OF assms(1-3) this _ _ _ _ a]
  show ?thesis
  proof (cases a)
    case (Inl e)
    then show ?thesis using assms(4,5) acq a by (cases e) (auto simp: cooperative_pass_def)
  next
    case (Inr t)
    obtain owned busy rs1 where t: "t = (owned, busy, rs1)" by (metis surj_pair)
    obtain js where 1: "inv w1" "state_ok env content rng rs1" "pass_ok env rng rs1 owned js busy"
      and m1: "mine w1 = set (Outstanding owned)"
      using acq Inr t assms(5) by auto
    obtain owned2 rs2 w2 where l: "load_persisted env rng (rfirst env rng) owned rs1 w1 = (owned2, rs2, w2)"
      by (metis surj_pair)
    obtain js2 where 2: "inv w2" "state_ok env content rng rs2" "pass_ok env rng rs2 owned2 js2 busy"
      and m2: "mine w2 = set (Outstanding owned2)"
      using load_persisted_ok [OF assms(1) 1 l m1] by blast
    obtain f w3 where f: "fetch_owned env rng (rfirst env rng) owned2 rs2 w2 = (f, w3)" by fastforce
    note fok = fetch_owned_ok [OF assms(1) 2 f m2]
    note eq = assms(4) [unfolded cooperative_pass_def a Inr t, simplified, unfolded l, simplified, unfolded f]
    show ?thesis
    proof (cases "owned_Empty owned2 \<and> busy = []")
      case True
      then show ?thesis using eq 2 m2 AbandonAll_inv [of w2] AbandonAll_mine [of owned2 w2] by auto
    next
      case False
      show ?thesis
      proof (cases f)
        case (Inl e)
        then show ?thesis using eq fok False by (cases e) auto
      next
        case (Inr u)
        obtain owned3 rs3 where u: "u = (owned3, rs3)" by fastforce
        then obtain rs4 w4 where aw: "await_loop env rng (rfirst env rng) busy rs3 w3 = Some (rs4, w4)"
          "res = Again rs4" "w' = snd (AbandonAll (env_abandon env) owned3 w4)"
          using eq Inr False by (auto split: option.splits)
        have "inv w4 \<and> state_ok env content rng rs4 \<and> mine w4 = {}"
          using await_loop_ok [OF assms(1) _ _ _ _ aw(1)] fok Inr u by (auto simp: pass_ok_def)
        then show ?thesis using aw AbandonAll_inv AbandonAll_mine [of owned3 w4] by auto
      qed
    qed
  qed
qed

lemma passes_ok:
  assumes "in_rng content rng"
  shows "inv w \<Longrightarrow> state_ok env content rng rs \<Longrightarrow>
    passes n env rng (rfirst env rng) (rcount env rng) rs w = Some (r, w') \<Longrightarrow> mine w = {} \<Longrightarrow>
    inv w' \<and> mine w' = {} \<and> (case r of Inl (st, m) \<Rightarrow> inner_failed inv env st | Inr rs' \<Rightarrow> state_ok env content rng rs')"
proof (induction n arbitrary: rs w)
  case 0
  then show ?case by auto
next
  case (Suc n)
  obtain p w1 where p: "cooperative_pass env rng (rfirst env rng) (rcount env rng) rs w = Some (p, w1)"
    using Suc.prems(3) by (auto split: option.splits)
  note ok = cooperative_pass_ok [OF assms Suc.prems(1,2) p Suc.prems(4)]
  show ?case
    using Suc.prems(3) ok Suc.IH [of w1] p by (cases p) auto
qed

lemma leftover_loop_ok:
  assumes "in_rng content rng"
  shows "inv w \<Longrightarrow> state_ok env content rng rs \<Longrightarrow> \<forall>i\<in>set is. i < rcount env rng \<Longrightarrow>
    leftover_loop env rng (rfirst env rng) is rs w = (r, w') \<Longrightarrow>
    inv w' \<and> mine w' = mine w \<and> (case r of Inl (st, m) \<Rightarrow> inner_failed inv env st
      | Inr rs' \<Rightarrow> state_ok env content rng rs' \<and>
          (\<forall>i < rcount env rng. i \<in> set is \<or> rs_resolved rs ! i \<longrightarrow> rs_resolved rs' ! i))"
proof (induction "is" arbitrary: rs w)
  case Nil
  then show ?case by auto
next
  case (Cons i "is")
  note prems = Cons.prems
  show ?case
  proof (cases "rs_resolved rs ! i")
    case True
    then show ?thesis using Cons.IH [of w rs] prems by (auto split: sum.splits)
  next
    case False
    have fold_b: "rfirst env rng + of_nat i = bidx env rng i" by (simp add: bidx_def)
    have i: "i < rcount env rng" using prems(3) by simp
    obtain d w1 where d: "direct_block env rng i (bidx env rng i) rs w = (d, w1)" by fastforce
    note ok = direct_block_ok [OF assms prems(2) i False prems(1) d]
    show ?thesis
    proof (cases d)
      case (Inl e)
      then show ?thesis using prems(4) ok False d by (cases e) (auto simp: fold_b)
    next
      case (Inr rs1)
      have len: "length (rs_resolved rs) = rcount env rng"
        using prems(2) by (simp add: state_ok_def rs_ok_def rcount_def)
      have "rs_resolved rs1 = (rs_resolved rs)[i := True]" "state_ok env content rng rs1" "inv w1" "mine w1 = mine w"
        using ok Inr by auto
      then show ?thesis
        using Cons.IH [of w1 rs1] prems(3,4) False d Inr len i
        by (auto simp: fold_b nth_list_update split: sum.splits)
    qed
  qed
qed

text \<open>Every pass returns when every wait does.\<close>

lemma await_loop_total:
  assumes "in_rng content rng" "\<forall>i w. inv w \<longrightarrow> mine w = {} \<longrightarrow> in_asset content (env_bs env) i \<longrightarrow> env_await env i w \<noteq> None"
  shows "inv w \<Longrightarrow> mine w = {} \<Longrightarrow> \<forall>i\<in>set busy. i < rcount env rng \<Longrightarrow> await_loop env rng (rfirst env rng) busy rs w \<noteq> None"
proof (induction busy arbitrary: rs w)
  case Nil
  then show ?case by simp
next
  case (Cons i busy)
  have fold_b: "rfirst env rng + of_nat i = bidx env rng i" by (simp add: bidx_def)
  have asset: "in_asset content (env_bs env) (bidx env rng i)" using bidx_unat(2) [OF assms(1)] Cons.prems(3) by simp
  then obtain x w1 where aw: "env_await env (bidx env rng i) w = Some (x, w1)" using assms(2) Cons.prems(1,2) by fastforce
  then have "inv w1" "mine w1 = {}"
    using await_ok [OF Cons.prems(1) asset aw] mine_frame(4) [OF aw] Cons.prems(2) by simp_all
  then show ?case using Cons.IH Cons.prems(3) aw by (cases x) (auto simp: fold_b Let_def)
qed

lemma cooperative_pass_total:
  assumes "in_rng content rng" "\<forall>i w. inv w \<longrightarrow> mine w = {} \<longrightarrow> in_asset content (env_bs env) i \<longrightarrow> env_await env i w \<noteq> None"
    and "inv w" "state_ok env content rng rs" "mine w = {}"
  shows "cooperative_pass env rng (rfirst env rng) (rcount env rng) rs w \<noteq> None"
proof -
  obtain a w1 where a: "acquire_loop env rng (rfirst env rng) [0..<rcount env rng] owned_none [] rs w = (a, w1)"
    by fastforce
  have "pass_ok env rng rs owned_none [] []" by (simp add: pass_ok_def)
  note acq = acquire_loop_ok [OF assms(1,3,4) this _ _ _ _ a]
  show ?thesis
  proof (cases a)
    case (Inl e)
    then show ?thesis using a by (cases e) (simp add: cooperative_pass_def)
  next
    case (Inr t)
    obtain owned busy rs1 where t: "t = (owned, busy, rs1)" by (metis surj_pair)
    obtain js where 1: "inv w1" "state_ok env content rng rs1" "pass_ok env rng rs1 owned js busy"
      and m1: "mine w1 = set (Outstanding owned)"
      using acq Inr t assms(5) by auto
    obtain owned2 rs2 w2 where l: "load_persisted env rng (rfirst env rng) owned rs1 w1 = (owned2, rs2, w2)"
      by (metis surj_pair)
    obtain js2 where 2: "inv w2" "state_ok env content rng rs2" "pass_ok env rng rs2 owned2 js2 busy"
      and m2: "mine w2 = set (Outstanding owned2)"
      using load_persisted_ok [OF assms(1) 1 l m1] by blast
    obtain f w3 where f: "fetch_owned env rng (rfirst env rng) owned2 rs2 w2 = (f, w3)" by fastforce
    have "inv w3" "mine w3 = {}" "\<forall>i\<in>set busy. i < rcount env rng"
      using fetch_owned_ok [OF assms(1) 2 f m2] 2(3) by (auto simp: pass_ok_def)
    note aw = await_loop_total [OF assms(1,2) this]
    show ?thesis
    proof (cases f)
      case (Inl e)
      then show ?thesis using a Inr t l f by (cases e) (simp add: cooperative_pass_def)
    next
      case f_Inr: (Inr u)
      obtain rs4 w4 where "await_loop env rng (rfirst env rng) busy (snd u) w3 = Some (rs4, w4)"
        using aw [of "snd u"] by fastforce
      then show ?thesis using a Inr t l f f_Inr by (cases u) (simp add: cooperative_pass_def)
    qed
  qed
qed

lemma passes_total:
  assumes "in_rng content rng" "\<forall>i w. inv w \<longrightarrow> mine w = {} \<longrightarrow> in_asset content (env_bs env) i \<longrightarrow> env_await env i w \<noteq> None"
  shows "inv w \<Longrightarrow> state_ok env content rng rs \<Longrightarrow> mine w = {} \<Longrightarrow>
    passes n env rng (rfirst env rng) (rcount env rng) rs w \<noteq> None"
proof (induction n arbitrary: rs w)
  case (Suc n)
  obtain p w1 where p: "cooperative_pass env rng (rfirst env rng) (rcount env rng) rs w = Some (p, w1)"
    using cooperative_pass_total [OF assms Suc.prems] by fastforce
  then show ?case using cooperative_pass_ok [OF assms(1) Suc.prems(1,2) p Suc.prems(3)] Suc.IH by (cases p) auto
qed simp

lemma span_blocks:
  assumes "in_rng content rng"
  defines "span \<equiv> CoveringBlocks (range_offset rng) (range_length rng) (blockSize (env_options env))"
  shows "span_first span = rfirst env rng" "unat (span_last span - span_first span + 1) = rcount env rng"
proof -
  show "span_first span = rfirst env rng" by (simp add: span_def rfirst_def env_bs_def)
  let ?bs = "unat (env_bs env)" and ?off = "unat (range_offset rng)" and ?len = "unat (range_length rng)"
  have pos: "0 < ?len" using assms(1) by (simp add: in_rng_def)
  note c = CoveringBlocks_unat [OF pos rng_64 [OF assms(1)], of "env_bs env", folded span_def [folded env_bs_def]]
  have le: "?off div ?bs \<le> (?off + ?len - 1) div ?bs" using pos by (intro div_le_mono) linarith
  have "(?off + ?len - 1) div ?bs \<le> ?off + ?len - 1" by (rule div_le_dividend)
  then have "Suc ((?off + ?len - 1) div ?bs) < 2 ^ 64" using rng_64 [OF assms(1)] pos rng_64
    using content_64 assms(1) unfolding in_rng_def by linarith
  moreover have "unat (span_last span - span_first span) = (?off + ?len - 1) div ?bs - ?off div ?bs"
    using c le by (subst unat_u64_sub) (simp_all add: word_le_nat_alt)
  ultimately show "unat (span_last span - span_first span + 1) = rcount env rng"
    using le by (subst unat_u64_add) (simp_all add: rcount_def blk_count_def Suc_diff_le)
qed

definition read_start :: "ReadRange \<Rightarrow> ReaderMetrics \<Rightarrow> read_state" where
  "read_start rng m = \<lparr>rs_dst = replicate (unat (range_length rng)) 0,
     rs_resolved = replicate (rcount env rng) False, rs_cacheServed = 0, rs_served = 0, rs_metrics = m\<rparr>"

lemma state_ok_start: "state_ok env content rng (read_start rng m)"
  by (simp add: state_ok_def rs_ok_def read_start_def rcount_def served_sum_def)

lemma ReadCached_eq:
  assumes "in_rng content rng"
  shows "ReadCached env rng m w =
    (case passes kMaxCooperativePasses env rng (rfirst env rng) (rcount env rng) (read_start rng m) w of
          None \<Rightarrow> None
        | Some (Inl (st, m), w1) \<Rightarrow> Some ((fails st, m), w1)
        | Some (Inr rs1, w1) \<Rightarrow>
            (case leftover_loop env rng (rfirst env rng) [0..<rcount env rng] rs1 w1 of
               (Inl (st, m), w2) \<Rightarrow> Some ((fails st, m), w2)
             | (Inr rs2, w2) \<Rightarrow>
                 let m1 = (if rs_cacheServed rs2 = of_nat (rcount env rng) then AddBlockHit 1 (rs_metrics rs2)
                           else if rs_cacheServed rs2 > 0 then AddPartialHit 1 (rs_metrics rs2)
                           else rs_metrics rs2);
                     m2 = ObserveResidentBytes (env_resident env w2) m1
                 in if rs_served rs2 \<noteq> range_length rng
                    then Some ((fails (ShortReadStatus (range_offset rng) (range_length rng)
                                 (rs_served rs2) (resolvedIdentifier (env_meta env))), m2), w2)
                    else Some (((ReadResult_of (range_length rng) Status_Ok, rs_dst rs2), m2), w2)))"
  unfolding ReadCached_def Let_def span_blocks(1) [OF assms]
    span_blocks(2) [OF assms, unfolded span_blocks(1) [OF assms]] read_start_def by (rule refl)

lemma ReadCached_ok:
  assumes "in_rng content rng" "inv w" "ReadCached env rng m w = Some (((res, xs), m'), w')" "mine w = {}"
  shows "inv w' \<and> mine w' = {} \<and>
    (if IsOk (rr_status res)
     then xs = segment content (unat (range_offset rng)) (unat (range_length rng)) \<and>
       bytesRead res = range_length rng
     else inner_failed inv env (rr_status res) \<and> bytesRead res = 0 \<and> xs = [])"
proof -
  note eq = assms(3) [unfolded ReadCached_eq [OF assms(1)]]
  have failed: ?thesis if "inv w'" "mine w' = {}" "inner_failed inv env st" "(res, xs) = fails st" for st
    using that by (auto simp: fails_def inner_failed_def ReadResult_of_def)
  obtain p w1 where p: "passes kMaxCooperativePasses env rng (rfirst env rng) (rcount env rng) (read_start rng m) w
      = Some (p, w1)"
    using eq by (auto split: option.splits)
  note pok = passes_ok [OF assms(1,2) state_ok_start p assms(4)]
  show ?thesis
  proof (cases p)
    case (Inl e)
    then show ?thesis using pok eq p failed by (cases e) auto
  next
    case (Inr rs1)
    obtain l w2 where l: "leftover_loop env rng (rfirst env rng) [0..<rcount env rng] rs1 w1 = (l, w2)" by fastforce
    have lok: "inv w2 \<and> mine w2 = mine w1 \<and> (case l of Inl (st, m) \<Rightarrow> inner_failed inv env st
      | Inr rs' \<Rightarrow> state_ok env content rng rs' \<and>
          (\<forall>i < rcount env rng. i \<in> set [0..<rcount env rng] \<or> rs_resolved rs1 ! i \<longrightarrow> rs_resolved rs' ! i))"
      by (rule leftover_loop_ok [OF assms(1) _ _ _ l]) (use pok Inr in auto)
    show ?thesis
    proof (cases l)
      case (Inl e)
      then show ?thesis using lok pok eq p Inr l failed by (cases e) auto
    next
      case (Inr rs2)
      have fin: "rs_dst rs2 = segment content (unat (range_offset rng)) (unat (range_length rng))"
        "rs_served rs2 = of_nat (unat (range_length rng))"
        by (rule rs_ok_complete [where bs = "unat (env_bs env)"];
            use lok Inr bs(1) assms(1) in \<open>auto simp: state_ok_def rcount_def in_rng_def\<close>)+
      then have "res = ReadResult_of (range_length rng) Status_Ok \<and> xs = rs_dst rs2 \<and> w' = w2"
        using eq p \<open>p = Inr rs1\<close> l Inr by (auto simp: Let_def)
      then show ?thesis using fin(1) lok pok by (simp add: IsOk_def)
    qed
  qed
qed

lemma ReadCached_total:
  assumes "in_rng content rng" "\<forall>i w. inv w \<longrightarrow> mine w = {} \<longrightarrow> in_asset content (env_bs env) i \<longrightarrow> env_await env i w \<noteq> None"
    and "inv w" "mine w = {}"
  shows "ReadCached env rng m w \<noteq> None"
proof -
  obtain p w1 where p: "passes kMaxCooperativePasses env rng (rfirst env rng) (rcount env rng) (read_start rng m) w
      = Some (p, w1)"
    using passes_total [OF assms(1-3) state_ok_start assms(4), of kMaxCooperativePasses m] by fastforce
  show ?thesis
  proof (cases p)
    case (Inr rs1)
    obtain l w2 where "leftover_loop env rng (rfirst env rng) [0..<rcount env rng] rs1 w1 = (l, w2)" by fastforce
    then show ?thesis
      unfolding ReadCached_eq [OF assms(1)] using p Inr by (cases l) (auto simp: Let_def)
  qed (use p in \<open>auto simp: ReadCached_eq [OF assms(1)]\<close>)
qed

lemma transfer_in_rng:
  assumes "outcome (ResolveReadRange off sz (am_size (env_meta env))) = Transfer"
  shows "in_rng content (ResolveReadRange off sz (am_size (env_meta env)))"
    "segment content (unat off) (unat (range_length (ResolveReadRange off sz (am_size (env_meta env))))) =
       segment content (unat off) (unat sz)"
    "unat (range_length (ResolveReadRange off sz (am_size (env_meta env)))) =
       min (unat sz) (length content - unat off)"
proof -
  have t: "unat off + unat sz < 2 ^ 64" "sz \<noteq> 0" "unat off < length content"
    "unat (range_length (ResolveReadRange off sz (am_size (env_meta env)))) =
       min (unat sz) (length content - unat off)"
    using assms size by (auto simp: ResolveReadRange_facts)
  then have "0 < unat sz" using unat_gt_0 by blast
  then show "in_rng content (ResolveReadRange off sz (am_size (env_meta env)))"
    using t(3,4) by (simp add: in_rng_def ResolveReadRange_offset)
  show "segment content (unat off) (unat (range_length (ResolveReadRange off sz (am_size (env_meta env))))) =
      segment content (unat off) (unat sz)"
    unfolding t(4) by (rule segment_clip)
  show "unat (range_length (ResolveReadRange off sz (am_size (env_meta env)))) =
      min (unat sz) (length content - unat off)" by (rule t(4))
qed

text \<open>The contract: what \<open>Read\<close> delivers, when it fails and that it returns.\<close>

lemma CachedRead_cases:
  assumes "inv w" "CachedRead env t0 t1 null off sz m w = Some (((res, xs), m'), w')"
  defines "rng \<equiv> ResolveReadRange off sz (am_size (env_meta env))"
  obtains (refused) "2 ^ 64 \<le> unat off + unat sz \<or> unat off + unat sz < 2 ^ 64 \<and> null \<and> 0 < sz" "w' = w" "xs = []"
      "bytesRead res = 0" "code (rr_status res) = InvalidArgument"
    | (empty) "unat off + unat sz < 2 ^ 64" "w' = w" "xs = []" "bytesRead res = 0" "rr_status res = Status_Ok"
        "segment content (unat off) (unat sz) = []"
    | (bypass) "unat off + unat sz < 2 ^ 64" "env_read env off sz w = ((res, xs), w')"
    | (cached) m1 m2 where "unat off + unat sz < 2 ^ 64" "outcome rng = Transfer"
        "ReadCached env rng m1 w = Some (((res, xs), m2), w')"
proof (cases "outcome rng")
  case Overflow
  then show ?thesis
    using assms(2) refused by (auto simp: CachedRead_def Let_def rng_def fails_def OverflowStatus_def ResolveReadRange_facts)
next
  case Empty
  then show ?thesis
    using assms(2) refused empty size
    by (auto simp: CachedRead_def Let_def rng_def fails_def ResolveReadRange_facts word_less_nat_alt
        split: if_splits)
next
  case Transfer
  then have less: "unat off + unat sz < 2 ^ 64" by (simp add: rng_def ResolveReadRange_facts)
  consider "null \<and> 0 < sz" | "\<not> (null \<and> 0 < sz)" "range_length rng \<ge> bypassThresholdBytes (env_options env)"
    | "\<not> (null \<and> 0 < sz)" "\<not> range_length rng \<ge> bypassThresholdBytes (env_options env)" by blast
  then show ?thesis
  proof cases
    case 1
    then show ?thesis
      using assms(2) Transfer refused less by (auto simp: CachedRead_def Let_def rng_def [symmetric] fails_def)
  next
    case 2
    then show ?thesis
      using assms(2) Transfer bypass less
      by (cases "env_read env off sz w") (auto simp: CachedRead_def Let_def rng_def [symmetric])
  next
    case 3
    then show ?thesis
      using assms(2) Transfer cached less by (auto simp: CachedRead_def Let_def rng_def [symmetric])
  qed
qed

lemma CachedRead_ok:
  assumes "inv w" "CachedRead env t0 t1 null off sz m w = Some (((res, xs), m'), w')" "mine w = {}"
  shows "inv w' \<and> mine w' = {} \<and> unat (bytesRead res) = length xs \<and> length xs \<le> unat sz \<and>
    (if IsOk (rr_status res) then xs = segment content (unat off) (unat sz)
     else inner_failed inv env (rr_status res) \<or>
       code (rr_status res) = InvalidArgument \<and> (2 ^ 64 \<le> unat off + unat sz \<or> null \<and> 0 < sz)) \<and>
    (2 ^ 64 \<le> unat off + unat sz \<longrightarrow> code (rr_status res) = InvalidArgument)"
  using assms(1,2)
proof (cases rule: CachedRead_cases)
  case refused
  then show ?thesis using assms(1,3) by (auto simp: IsOk_def)
next
  case empty
  then show ?thesis using assms(1,3) by (simp add: IsOk_def)
next
  case bypass
  then show ?thesis
    using read_keeps [OF assms(1) bypass(2)] read_mine [OF bypass(2)] assms(3) inner.read_delivers [OF assms(1), of off sz]
      inner.read_ok [OF assms(1), of off sz] read_failed [OF assms(1) bypass(2)] by auto
next
  case (cached m1 m2)
  note t = transfer_in_rng [OF cached(2)]
  show ?thesis
    using ReadCached_ok [OF t(1) assms(1) cached(3) assms(3)] t(2,3) cached(1)
    by (auto simp: ResolveReadRange_offset split: if_splits)
qed

lemma CachedRead_total:
  assumes "\<forall>i w. inv w \<longrightarrow> mine w = {} \<longrightarrow> in_asset content (env_bs env) i \<longrightarrow> env_await env i w \<noteq> None" "inv w" "mine w = {}"
  shows "CachedRead env t0 t1 null off sz m w \<noteq> None"
  using ReadCached_total [OF transfer_in_rng(1) assms, of off sz]
  by (cases "outcome (ResolveReadRange off sz (am_size (env_meta env)))")
    (auto simp: CachedRead_def Let_def case_prod_beta)

end

end
