(* ===== verification/CacheHistory.thy ===== *)
theory CacheHistory
  imports BlockCache
begin

text \<open>
  Histories of the block store: any sequence of its operations by any number of
  bindings, which is what concurrent readers produce since each operation is atomic.
  The properties of the store are stated over all such histories.
\<close>

datatype cache_op =
    OpBind string Validator u64
  | OpDestroy Binding
  | OpAcquire Binding u64
  | OpAwait Binding u64
  | OpPublish Binding u64 bytes
  | OpAbandon Binding u64
  | OpClear
  | OpConfigure CacheOptions

primrec exec :: "cache_op \<Rightarrow> BlockCache \<Rightarrow> BlockCache" where
  "exec (OpBind r v bs) s = snd (Bind r v bs s)"
| "exec (OpDestroy b) s = Binding_destroy b s"
| "exec (OpAcquire b i) s = snd (Acquire b i s)"
| "exec (OpAwait b i) s = snd (Await_poll b i s)"
| "exec (OpPublish b i x) s = snd (Publish b i x s)"
| "exec (OpAbandon b i) s = Abandon b i s"
| "exec OpClear s = ClearForTesting s"
| "exec (OpConfigure opts) s = snd (ConfigureProcess opts s)"

text \<open>Blocks are at most the largest legal block size and budgets below \<open>2 ^ 63\<close> bytes.\<close>

primrec legal :: "cache_op \<Rightarrow> bool" where
  "legal (OpBind r v bs) = True"
| "legal (OpDestroy b) = True"
| "legal (OpAcquire b i) = True"
| "legal (OpAwait b i) = True"
| "legal (OpPublish b i x) = (length x \<le> max_block)"
| "legal (OpAbandon b i) = True"
| "legal OpClear = True"
| "legal (OpConfigure opts) = (unat (budgetBytes opts) < 2 ^ 63)"

text \<open>The operations that end the ownership of a key.\<close>

primrec releases :: "ShardKey \<Rightarrow> cache_op \<Rightarrow> bool" where
  "releases k (OpBind r v bs) = False"
| "releases k (OpDestroy b) = (isPrivate b \<and> b_identityId b = identityId k)"
| "releases k (OpAcquire b i) = False"
| "releases k (OpAwait b i) = False"
| "releases k (OpPublish b i x) = (block_key b i = k)"
| "releases k (OpAbandon b i) = (block_key b i = k)"
| "releases k OpClear = True"
| "releases k (OpConfigure opts) = True"

text \<open>Every publish stores the bytes the content function assigns to its key.\<close>

primrec publishes :: "(ShardKey \<Rightarrow> bytes) \<Rightarrow> cache_op \<Rightarrow> bool" where
  "publishes C (OpBind r v bs) = True"
| "publishes C (OpDestroy b) = True"
| "publishes C (OpAcquire b i) = True"
| "publishes C (OpAwait b i) = True"
| "publishes C (OpPublish b i x) = (x = C (block_key b i))"
| "publishes C (OpAbandon b i) = True"
| "publishes C OpClear = True"
| "publishes C (OpConfigure opts) = True"

fun issued :: "cache_op list \<Rightarrow> BlockCache \<Rightarrow> (Validator \<times> Binding) list" where
  "issued [] s = []"
| "issued (op # ops) s =
    (case op of OpBind r v bs \<Rightarrow> [(v, fst (Bind r v bs s))] | _ \<Rightarrow> []) @ issued ops (exec op s)"

section \<open>Invariants of histories\<close>

lemma exec_inv: "store_inv s \<Longrightarrow> legal op \<Longrightarrow> store_inv (exec op s)"
  by (cases op)
    (simp_all add: Bind_facts Binding_destroy_facts bc.acquire_inv bc.poll_same bc.publish_inv
      Abandon_facts ClearForTesting_facts ConfigureProcess_inv)

lemma history_inv: "store_inv s \<Longrightarrow> \<forall>op\<in>set ops. legal op \<Longrightarrow> store_inv (fold exec ops s)"
  by (induction ops arbitrary: s) (auto intro: exec_inv)

lemma new_inv:
  "unat (budgetBytes opts) < 2 ^ 63 \<Longrightarrow> store_inv (BlockCache_new opts)"
  "unat (budgetBytes opts) < 2 ^ 63 \<Longrightarrow> slots (BlockCache_new opts) k = None"
  by (simp_all add: BlockCache_new_def store_inv_Reset)

lemma store_inv_shards:
  assumes "store_inv s" "sh \<in> set (shards s)"
  shows "shard_wf sh" "within_budget (shardBudget s) sh"
  using assms unfolding store_inv_def in_set_conv_nth [of sh] by blast+

text \<open>
  C32: after every history from a fresh store, each stripe's byte count is the sum of
  the lengths of its resident blocks, at most the stripe's budget unless a single
  block is left, the LRU list names exactly the resident blocks once each, and the
  store-wide total is the sum over the stripes.
\<close>

theorem history_budget:
  assumes "unat (budgetBytes opts) < 2 ^ 63" "\<forall>op\<in>set ops. legal op"
  shows "let s = fold exec ops (BlockCache_new opts)
         in residentTotal s = sum_list (map residentBytes (shards s)) \<and>
            (\<forall>sh\<in>set (shards s).
               unat (residentBytes sh) = sum_list (map (entry_bytes (entries sh)) (lru sh)) \<and>
               (residentBytes sh \<le> shardBudget s \<or> length (lru sh) \<le> 1) \<and>
               distinct (lru sh) \<and>
               (\<forall>k. k \<in> set (lru sh) \<longleftrightarrow> (\<exists>e. map_of (entries sh) k = Some e \<and> \<not> e_pending e)))"
proof -
  have "store_inv (fold exec ops (BlockCache_new opts))"
    using assms by (intro history_inv new_inv)
  note inv = this
  have "residentTotal (fold exec ops (BlockCache_new opts)) =
      sum_list (map residentBytes (shards (fold exec ops (BlockCache_new opts))))"
    using inv by (simp add: store_inv_def)
  then show ?thesis
    using store_inv_shards [OF inv] unfolding Let_def shard_wf_def within_budget_def resident_sum_def
    by blast
qed

definition sample_binding :: Binding where
  "sample_binding =
    \<lparr>b_identity = \<lparr>id_resolvedIdentifier = ''http://h/a'', id_validator = ''v'', id_blockSize = 4096\<rparr>,
     b_identityId = 1, isPrivate = False\<rparr>"

definition sample_store :: BlockCache where
  "sample_store = BlockCache_new CacheOptions_default"

lemma sample_store_facts:
  "unat (budgetBytes CacheOptions_default) < 2 ^ 63" "store_inv sample_store"
  "slots sample_store k = None"
  using new_inv [of CacheOptions_default]
  by (simp_all add: sample_store_def CacheOptions_default_def cache_constants)

theorem history_budget_witness:
  "let s = fold exec [OpAcquire sample_binding 0, OpPublish sample_binding 0 [1, 2]]
             (BlockCache_new CacheOptions_default)
   in residentTotal s = sum_list (map residentBytes (shards s))"
  using history_budget [OF sample_store_facts(1),
      of "[OpAcquire sample_binding 0, OpPublish sample_binding 0 [1, 2]]"]
  by (simp add: Let_def max_block_def)

section \<open>Single flight\<close>

lemma exec_pending:
  assumes "store_inv s" "legal op" "\<not> releases k op" "slots s k = Some Pending"
  shows "slots (exec op s) k = Some Pending"
  using assms
  by (cases op)
    (auto simp: Bind_facts Binding_destroy_facts bc.pending_acquire bc.poll_same bc.pending_publish
      bc.pending_abandon)

lemma history_pending:
  assumes "store_inv s" "\<forall>op\<in>set ops. legal op \<and> \<not> releases k op" "slots s k = Some Pending"
  shows "slots (fold exec ops s) k = Some Pending"
  using assms by (induction ops arbitrary: s) (auto intro: exec_inv exec_pending)

text \<open>
  C30: once a caller is told it owns a block, then through any history of operations by
  other callers, until that block is published or abandoned (or its private binding
  closes, or the whole store is reset), every caller asking for the same block of the
  same identity is told to wait: exactly one fetch is in flight.
\<close>

theorem single_flight:
  assumes "store_inv s" "acq_outcome (fst (Acquire b i s)) = Owned"
    and "\<forall>op\<in>set ops. legal op \<and> \<not> releases (block_key b i) op"
    and "b_identityId b' = b_identityId b"
  shows "acq_outcome (fst (Acquire b' i (fold exec ops (snd (Acquire b i s))))) = Busy"
proof -
  let ?s1 = "snd (Acquire b i s)"
  have "slots s (block_key b i) = None"
    using assms(1,2) Acquire_pending [of s b i] Acquire_ready(1) [of s b i]
    by (cases "slots s (block_key b i)"; cases "the (slots s (block_key b i))") auto
  then have 1: "store_inv ?s1" "slots ?s1 (block_key b i) = Some Pending"
    using Acquire_absent [OF assms(1)] by auto
  have "slots (fold exec ops ?s1) (block_key b' i) = Some Pending"
    using history_pending [OF 1(1) assms(3) 1(2)] assms(4) by (simp add: block_key_def)
  moreover have "store_inv (fold exec ops ?s1)" using 1(1) assms(3) by (intro history_inv) auto
  ultimately show ?thesis by (simp add: Acquire_pending)
qed

theorem single_flight_witness:
  "acq_outcome (fst (Acquire sample_binding 0 (fold exec [OpAcquire sample_binding 1]
     (snd (Acquire sample_binding 0 sample_store))))) = Busy"
  using single_flight [of sample_store sample_binding 0 "[OpAcquire sample_binding 1]" sample_binding]
    sample_store_facts(2,3) Acquire_absent(1) [of sample_store sample_binding 0]
  by simp

section \<open>Content\<close>

lemma exec_consistent:
  assumes "store_inv s" "legal op" "publishes C op" "consistent C (slots s)"
  shows "consistent C (slots (exec op s))"
proof (cases op)
  case (OpBind r v bs)
  then show ?thesis using assms(4) by (simp add: Bind_facts)
next
  case (OpDestroy b)
  have "slots (Binding_destroy b s) k = Some (Ready x) \<Longrightarrow> slots s k = Some (Ready x)" for k x
    by (simp add: Binding_destroy_facts(2) [OF assms(1)] split: if_splits)
  then show ?thesis using OpDestroy assms(4) by (auto simp: consistent_def)
next
  case OpClear
  then show ?thesis by (simp add: consistent_def ClearForTesting_facts(2) [OF assms(1)])
next
  case (OpConfigure opts)
  then show ?thesis
    using assms(2,4) store_inv_Reset(2) [of opts s] by (simp add: ConfigureProcess_def consistent_def)
next
  case (OpPublish b i x)
  then show ?thesis using assms by (simp add: bc.consistent_publish)
qed (use assms in \<open>simp_all add: bc.consistent_acquire bc.poll_same bc.consistent_abandon\<close>)

lemma history_consistent:
  assumes "store_inv s" "\<forall>op\<in>set ops. legal op \<and> publishes C op" "consistent C (slots s)"
  shows "consistent C (slots (fold exec ops s))"
  using assms by (induction ops arbitrary: s) (auto intro: exec_inv exec_consistent)

text \<open>
  C29: if every publish of a history stores the bytes that belong to its key, then a hit
  after that history returns exactly the bytes of the requested block of the requested
  identity, whatever was evicted, abandoned, dropped or reconfigured in between.
\<close>

theorem hit_returns_content:
  assumes "unat (budgetBytes opts) < 2 ^ 63" "\<forall>op\<in>set ops. legal op \<and> publishes C op"
    and "acq_outcome (fst (Acquire b i (fold exec ops (BlockCache_new opts)))) = Hit"
  shows "acq_block (fst (Acquire b i (fold exec ops (BlockCache_new opts)))) = Some (C (block_key b i))"
proof -
  have "store_inv (fold exec ops (BlockCache_new opts))"
    using assms(1,2) by (intro history_inv new_inv) auto
  moreover have "consistent C (slots (fold exec ops (BlockCache_new opts)))"
    using assms(1,2) new_inv [OF assms(1)] by (intro history_consistent) (auto simp: consistent_def)
  ultimately show ?thesis using assms(3) by (rule bc.acquire_Hit)
qed


lemma sample_hit:
  "acq_outcome (fst (Acquire sample_binding 0
     (fold exec [OpAcquire sample_binding 0, OpPublish sample_binding 0 [1, 2]] sample_store))) = Hit"
proof -
  let ?s1 = "snd (Acquire sample_binding 0 sample_store)"
  have 1: "store_inv ?s1" "slots ?s1 (block_key sample_binding 0) = Some Pending"
    using Acquire_absent [OF sample_store_facts(2,3)] by simp_all
  have "store_inv (snd (Publish sample_binding 0 [1, 2] ?s1))"
    "slots (snd (Publish sample_binding 0 [1, 2] ?s1)) (block_key sample_binding 0) = Some (Ready [1, 2])"
    using Publish_pending(1,2) [OF 1, of "[1, 2]"] by (simp_all add: max_block_def)
  then show ?thesis using Acquire_ready(1) by simp
qed

theorem hit_returns_content_witness:
  "acq_block (fst (Acquire sample_binding 0
     (fold exec [OpAcquire sample_binding 0, OpPublish sample_binding 0 [1, 2]]
       (BlockCache_new CacheOptions_default)))) = Some [1, 2]"
  using hit_returns_content [OF sample_store_facts(1),
      of "[OpAcquire sample_binding 0, OpPublish sample_binding 0 [1, 2]]" "\<lambda>_. [1, 2]" sample_binding 0]
    sample_hit
  by (simp add: max_block_def sample_store_def)

section \<open>Identities\<close>

definition may_share :: "Validator \<times> Binding \<Rightarrow> Validator \<times> Binding \<Rightarrow> bool" where
  "may_share x y \<longleftrightarrow> b_identityId (snd x) = b_identityId (snd y) \<longrightarrow>
     IsShareable (fst x) \<and> IsShareable (fst y) \<and> b_identity (snd x) = b_identity (snd y)"

definition ids_inv :: "(Validator \<times> Binding) list \<Rightarrow> BlockCache \<Rightarrow> bool" where
  "ids_inv log s \<longleftrightarrow>
     (\<forall>ident n. (ident, n) \<in> set (identities s) \<longrightarrow> unat n < unat (nextIdentityId s)) \<and>
     (\<forall>i j n. (i, n) \<in> set (identities s) \<longrightarrow> (j, n) \<in> set (identities s) \<longrightarrow> i = j) \<and>
     (\<forall>v b. (v, b) \<in> set log \<longrightarrow> unat (b_identityId b) < unat (nextIdentityId s) \<and>
        (\<forall>ident. (ident, b_identityId b) \<in> set (identities s) \<longrightarrow>
           IsShareable v \<and> b_identity b = ident))"

lemma ids_inv_subset:
  assumes "ids_inv log s" "set (identities s') \<subseteq> set (identities s)" "nextIdentityId s' = nextIdentityId s"
  shows "ids_inv log s'"
  using assms(1) unfolding ids_inv_def assms(3) using assms(2) by blast

lemma exec_identities:
  assumes "\<And>r v bs. op \<noteq> OpBind r v bs"
  shows "set (identities (exec op s)) \<subseteq> set (identities s)" "nextIdentityId (exec op s) = nextIdentityId s"
proof -
  have p: "identities (put_shard k sh s) = identities s" "nextIdentityId (put_shard k sh s) = nextIdentityId s"
    for k sh by (simp_all add: put_shard_def)
  show "set (identities (exec op s)) \<subseteq> set (identities s)" "nextIdentityId (exec op s) = nextIdentityId s"
    using assms p
    by (cases op; auto simp: Binding_destroy_def Acquire_def Await_poll_def Publish_def Abandon_def
        ClearForTesting_def ConfigureProcess_def ResetLocked_def Let_def split: option.splits prod.splits)+
qed

lemma ids_inv_snoc:
  assumes "ids_inv log s" "unat (b_identityId b) < unat (nextIdentityId s)"
    and "\<And>ident. (ident, b_identityId b) \<in> set (identities s) \<Longrightarrow> IsShareable v \<and> b_identity b = ident"
  shows "ids_inv (log @ [(v, b)]) s"
  using assms unfolding ids_inv_def by auto

lemma Bind_ids:
  assumes inv: "ids_inv log s" and room: "unat (nextIdentityId s) + 1 < 2 ^ 64"
  shows "ids_inv (log @ [(v, fst (Bind r v bs s))]) (snd (Bind r v bs s))"
    "\<forall>x\<in>set log. may_share x (v, fst (Bind r v bs s))"
    "unat (nextIdentityId (snd (Bind r v bs s))) \<le> unat (nextIdentityId s) + 1"
proof -
  let ?n = "nextIdentityId s"
  let ?id = "\<lparr>id_resolvedIdentifier = r, id_validator = v_value v, id_blockSize = bs\<rparr>"
  have n1: "unat (?n + 1) = unat ?n + 1" using room by (subst unat_u64_add) auto
  have old: "\<And>ident m. (ident, m) \<in> set (identities s) \<Longrightarrow> unat m < unat ?n"
    and uniq: "\<And>i j n. (i, n) \<in> set (identities s) \<Longrightarrow> (j, n) \<in> set (identities s) \<Longrightarrow> i = j"
    and lg: "\<And>w b. (w, b) \<in> set log \<Longrightarrow> unat (b_identityId b) < unat ?n"
    and sh: "\<And>w b ident. (w, b) \<in> set log \<Longrightarrow> (ident, b_identityId b) \<in> set (identities s) \<Longrightarrow>
      IsShareable w \<and> b_identity b = ident"
    using inv unfolding ids_inv_def by blast+
  have fresh_id: "(ident, ?n) \<notin> set (identities s)" "(w, b) \<in> set log \<Longrightarrow> b_identityId b \<noteq> ?n" for ident w b
    using old [of ident ?n] lg [of w b] by auto
  consider (priv) "\<not> IsShareable v" | (found) m where "IsShareable v" "map_of (identities s) ?id = Some m"
    | (fresh) "IsShareable v" "map_of (identities s) ?id = None" by fastforce
  then have "ids_inv (log @ [(v, fst (Bind r v bs s))]) (snd (Bind r v bs s)) \<and>
    (\<forall>x\<in>set log. may_share x (v, fst (Bind r v bs s))) \<and>
    unat (nextIdentityId (snd (Bind r v bs s))) \<le> unat (nextIdentityId s) + 1"
  proof cases
    case priv
    then show ?thesis
      using n1 sh fresh_id uniq
      by (auto simp: Bind_def Let_def ids_inv_def may_share_def intro: less_SucI dest: old lg)
  next
    case found
    then have m: "(?id, m) \<in> set (identities s)" by (simp add: map_of_SomeD)
    let ?b = "\<lparr>b_identity = ?id, b_identityId = m, isPrivate = False\<rparr>"
    let ?s1 = "s\<lparr>liveBindings := liveBindings s + 1\<rparr>"
    have "Bind r v bs s = (?b, ?s1)" using found by (simp add: Bind_def Let_def)
    moreover have "ids_inv (log @ [(v, ?b)]) ?s1"
    proof (rule ids_inv_snoc)
      show "ids_inv log ?s1" by (rule ids_inv_subset [OF inv]) simp_all
      show "unat (b_identityId ?b) < unat (nextIdentityId ?s1)" using old [OF m] by simp
      show "(ident, b_identityId ?b) \<in> set (identities ?s1) \<Longrightarrow> IsShareable v \<and> b_identity ?b = ident"
        for ident using uniq [OF m] found(1) by simp
    qed
    moreover have "may_share x (v, ?b)" if "x \<in> set log" for x
      using sh [of "fst x" "snd x" ?id] that m found(1) by (auto simp: may_share_def)
    ultimately show ?thesis by simp
  next
    case fresh
    then show ?thesis
      using n1 sh fresh_id uniq
      by (auto simp: Bind_def Let_def ids_inv_def may_share_def intro: less_SucI dest: old lg)
  qed
  then show "ids_inv (log @ [(v, fst (Bind r v bs s))]) (snd (Bind r v bs s))"
    "\<forall>x\<in>set log. may_share x (v, fst (Bind r v bs s))"
    "unat (nextIdentityId (snd (Bind r v bs s))) \<le> unat (nextIdentityId s) + 1" by auto
qed


lemma history_issued:
  assumes "ids_inv log s" "sorted_wrt may_share log" "unat (nextIdentityId s) + length ops < 2 ^ 64"
  shows "sorted_wrt may_share (log @ issued ops s)"
  using assms
proof (induction ops arbitrary: log s)
  case (Cons op ops)
  show ?case
  proof (cases "\<exists>r v bs. op = OpBind r v bs")
    case True
    then obtain r v bs where op: "op = OpBind r v bs" by blast
    have "unat (nextIdentityId s) + 1 < 2 ^ 64" using Cons.prems(3) by simp
    note B = Bind_ids [OF Cons.prems(1) this, where r = r and v = v and bs = bs]
    have "sorted_wrt may_share ((log @ [(v, fst (Bind r v bs s))]) @ issued ops (snd (Bind r v bs s)))"
      using B Cons.prems(2,3) by (intro Cons.IH) (auto simp: sorted_wrt_append)
    then show ?thesis using op by simp
  next
    case False
    then have e: "set (identities (exec op s)) \<subseteq> set (identities s)" "nextIdentityId (exec op s) = nextIdentityId s"
      using exec_identities by blast+
    have "sorted_wrt may_share (log @ issued ops (exec op s))"
      using Cons.prems ids_inv_subset [OF Cons.prems(1) e] e(2) by (intro Cons.IH) auto
    then show ?thesis using False by (cases op) auto
  qed
qed simp

text \<open>
  C31: in every history, two bindings issued at different times address the same
  interned identity only if both validators are strong and usable and the resolved
  identifier, the validator bytes and the block size are all equal. A weak or absent
  validator never shares an entry with any other reader.
\<close>

theorem identity_separation:
  assumes "length ops < 2 ^ 64 - 2" "i < j" "j < length (issued ops (BlockCache_new opts))"
  shows "may_share (issued ops (BlockCache_new opts) ! i) (issued ops (BlockCache_new opts) ! j)"
proof -
  have "ids_inv [] (BlockCache_new opts)" "unat (nextIdentityId (BlockCache_new opts)) = 1"
    by (simp_all add: ids_inv_def BlockCache_new_def ResetLocked_def Let_def)
  then have "sorted_wrt may_share (issued ops (BlockCache_new opts))"
    using history_issued [of "[]" "BlockCache_new opts" ops] assms(1) by simp
  then show ?thesis using assms(2,3) by (rule sorted_wrt_nth_less)
qed

theorem identity_separation_witness:
  "may_share
     (issued [OpBind ''u'' \<lparr>v_value = ''w1'', v_kind = EntityTag, v_strength = Weak\<rparr> 4096,
              OpBind ''u'' \<lparr>v_value = ''w1'', v_kind = EntityTag, v_strength = Weak\<rparr> 4096]
        (BlockCache_new CacheOptions_default) ! 0)
     (issued [OpBind ''u'' \<lparr>v_value = ''w1'', v_kind = EntityTag, v_strength = Weak\<rparr> 4096,
              OpBind ''u'' \<lparr>v_value = ''w1'', v_kind = EntityTag, v_strength = Weak\<rparr> 4096]
        (BlockCache_new CacheOptions_default) ! 1)"
  by (rule identity_separation) simp_all

end
