(* ===== verification/DiskCorrect.thy ===== *)
theory DiskCorrect
  imports DiskStore
begin

text \<open>
  Properties of the persistent store: what is stored is what is loaded, also when the
  store triggers a sweep; what a load may return; where a store may write; and that the
  tier never holds other bytes for a key than those stored under it.
\<close>

section \<open>Paths\<close>

lemma last_PathFor: "last (PathFor s name) = name @ kEntrySuffix"
  by (simp add: PathFor_def)

lemma entry_not_temporary: "\<not> isTemporary (PathFor s name)"
  by (simp add: isTemporary_def last_PathFor kEntrySuffix_def kTempSuffix_def)

lemma temporary_is_temporary: "isTemporary (temporary_path p nonce n)"
  by (simp add: isTemporary_def temporary_path_def kTempSuffix_def)

lemma temporary_differs: "temporary_path p nonce n \<noteq> PathFor s name"
  using entry_not_temporary temporary_is_temporary by metis

section \<open>Loading\<close>

lemma Disk_Load_file:
  assumes "ds_enabled s" "0 < expected" "expected \<le> kMaxEntryPayload" "li_readable io"
    and "map_of fs (PathFor s (NameFor (DigestOf identity i))) = Some f"
    and "f_bytes f = EncodeEntry identity (DigestOf identity i) i payload"
    and "length payload = unat expected"
  shows "Disk_Load io identity i expected out s fs =
    ((True, payload), count_stat (\<lambda>st. st\<lparr>dk_hits := dk_hits st + 1,
       dk_bytesRead := dk_bytesRead st + expected\<rparr>) s, fs)"
proof -
  have len: "length payload \<le> unat kMaxEntryPayload" using assms(3,7) by (simp add: word_le_nat_alt)
  note d = length_DigestOf [of identity i]
  have "\<not> kHeaderBytes + unat kMaxEntryPayload < length (f_bytes f)"
    using EncodeEntry_fields(1) [OF d len, of identity i] len assms(6) by (simp add: kHeaderBytes_def)
  then have "ReadWholeFile (li_readable io) (PathFor s (NameFor (DigestOf identity i))) fs =
      Some (EncodeEntry identity (DigestOf identity i) i payload)"
    using assms(4-6) by (simp add: ReadWholeFile_def)
  moreover have "of_nat (length payload) = expected" using assms(7) by simp
  then have "DecodeEntry (EncodeEntry identity (DigestOf identity i) i payload) identity (DigestOf identity i) i expected out
      = (DecodeOk, payload)"
    by (simp add: DecodeEntry_sound EncodeEntry_sound [OF d len] EncodeEntry_fields [OF d len] kDigestBytes_def
        kHeaderBytes_def)
  ultimately show ?thesis
    using assms(1-3) by (simp add: Disk_Load_def Let_def not_less)
qed


section \<open>Storing\<close>

lemma published_fields [simp]:
  "ds_enabled (published n s) = ds_enabled s" "ds_root (published n s) = ds_root s"
  "ds_options (published n s) = ds_options s" "ds_sweeping (published n s) = ds_sweeping s"
  "ds_largestEntryBytes (published n s) = max (ds_largestEntryBytes s) n"
  by (simp_all add: published_def count_stat_def)

lemma sweep_state [simp]:
  "ds_enabled (snd (BeginSweepLocked s)) = ds_enabled s" "ds_root (snd (BeginSweepLocked s)) = ds_root s"
  "ds_enabled (FinishSweep plan t a b s) = ds_enabled s" "ds_root (FinishSweep plan t a b s) = ds_root s"
  by (simp_all add: BeginSweepLocked_def FinishSweep_def Let_def)

lemma PathFor_cong: "ds_root s' = ds_root s \<Longrightarrow> PathFor s' = PathFor s"
  by (simp add: PathFor_def fun_eq_iff)

text \<open>The budget a sweep enforces always leaves room for the entry just written.\<close>

lemma budget_holds_entry:
  assumes "unat (ds_largestEntryBytes s) \<le> 67108952"
  shows "unat (ds_largestEntryBytes s) \<le>
    unat (EffectiveBudgetLocked s) - unat (EffectiveBudgetLocked s) div 8"
proof -
  have "unat (ds_largestEntryBytes s * kMinBudgetEntries) = unat (ds_largestEntryBytes s) * 4"
    using assms by (subst unat_u64_mult) (simp_all add: kMinBudgetEntries_def)
  then have "unat (ds_largestEntryBytes s) * 4 \<le> unat (EffectiveBudgetLocked s)"
    by (simp add: EffectiveBudgetLocked_def max_u64_unat)
  then show ?thesis by linarith
qed

definition store_calm :: "store_io \<Rightarrow> filesystem \<Rightarrow> bool" where
  "store_calm io fs \<longleftrightarrow> si_mkdir io \<and> si_open io \<and> si_flush io \<and> si_rename io \<and>
     sw_opens (si_sweep io) \<and> length fs < sw_steps (si_sweep io) \<and>
     (\<forall>p. sw_stats (si_sweep io) p \<and> sw_removes (si_sweep io) p) \<and>
     (\<forall>(p, f) \<in> set fs. f_written f < si_now io)"

lemma file_sum_delete: "file_sum (AList.delete p fs) \<le> file_sum fs"
  by (simp add: AList.delete_eq file_sum_filter_le)

lemma file_sum_put: "file_sum (fs_put p f fs) \<le> file_sum fs + length (f_bytes f)"
  by (induction fs) (auto simp: fs_put_def)

lemma set_fs_put: "set (fs_put p f fs) \<subseteq> insert (p, f) (set fs)"
  by (induction fs) (auto simp: fs_put_def)

lemma length_fs_put: "length (fs_put p f fs) \<le> Suc (length fs)"
  by (induction fs) (auto simp: fs_put_def)

lemma delete_put: "AList.delete p (fs_put p f fs) = AList.delete p fs"
  by (induction fs) (auto simp: fs_put_def)

lemma Disk_Store_shape:
  fixes identity i
  assumes "payload \<noteq> []" "length payload \<le> unat kMaxEntryPayload" "ds_enabled s" "store_calm io fs"
  defines "p \<equiv> PathFor s (NameFor (DigestOf identity i))"
  defines "entry \<equiv> \<lparr>f_bytes = EncodeEntry identity (DigestOf identity i) i payload, f_written = si_now io\<rparr>"
  defines "fs2 \<equiv> fs_put p entry (AList.delete (temporary_path p (si_nonce io) (ds_tempCounter s)) fs)"
  defines "s2 \<equiv> published (of_nat (length (f_bytes entry))) (s\<lparr>ds_tempCounter := ds_tempCounter s + 1\<rparr>)"
  shows "\<exists>s'. ds_enabled s' \<and> ds_root s' = ds_root s \<and>
    (Disk_Store io identity i True payload s fs = (True, s', fs2) \<or>
     (\<exists>plan. sp_budget plan = EffectiveBudgetLocked s2 \<and>
        Disk_Store io identity i True payload s fs = (True, s', fst (sweep_files (si_sweep io) plan fs2))))"
proof -
  have eq: "Disk_Store io identity i True payload s fs =
      (if \<not> ds_swept s2 \<or> ds_bytesSinceSweep s2 \<ge> SweepIntervalLocked s2
       then (case BeginSweepLocked s2 of
               (None, s3) \<Rightarrow> (True, s3, fs2)
             | (Some plan, s3) \<Rightarrow> let (s4, fs3) = RunSweep (si_sweep io) plan s3 fs2 in (True, s4, fs3))
       else (True, s2, fs2))"
    using assms(1-4) unfolding Disk_Store_def Let_def fs2_def s2_def p_def entry_def delete_put
    by (simp add: store_calm_def not_less)
  have s2: "ds_enabled s2" "ds_root s2 = ds_root s" using assms(3) by (simp_all add: s2_def)
  show ?thesis
  proof (cases "\<not> ds_swept s2 \<or> ds_bytesSinceSweep s2 \<ge> SweepIntervalLocked s2")
    case False
    then show ?thesis using eq s2 by (intro exI [of _ s2]) simp
  next
    case True
    show ?thesis
    proof (cases "BeginSweepLocked s2")
      case (Pair a s3)
      have s3: "ds_enabled s3" "ds_root s3 = ds_root s" using sweep_state(1,2) [of s2] Pair s2 by simp_all
      show ?thesis
      proof (cases a)
        case None
        then show ?thesis using eq True Pair s3 by (intro exI [of _ s3]) simp
      next
        case (Some plan)
        then have "sp_budget plan = EffectiveBudgetLocked s2"
          using Pair by (auto simp: BeginSweepLocked_def split: if_splits)
        moreover obtain fs3 t a b where sw: "sweep_files (si_sweep io) plan fs2 = (fs3, t, a, b)" by (metis surj_pair)
        ultimately show ?thesis
          using eq True Pair Some s3
          by (intro exI [of _ "FinishSweep plan t a b s3"]) (auto simp: RunSweep_def intro!: exI [of _ plan])
      qed
    qed
  qed
qed

lemma stored_present:
  assumes "ds_enabled s" "payload \<noteq> []" "length payload \<le> unat kMaxEntryPayload"
    and "unat (ds_largestEntryBytes s) \<le> 67108952" "distinct (map fst fs)" "file_sum fs < 2 ^ 63"
    and "store_calm io fs"
  shows "\<exists>s' fs'. Disk_Store io identity i True payload s fs = (True, s', fs') \<and> ds_enabled s' \<and>
    ds_root s' = ds_root s \<and> map_of fs' (PathFor s (NameFor (DigestOf identity i))) =
      Some \<lparr>f_bytes = EncodeEntry identity (DigestOf identity i) i payload, f_written = si_now io\<rparr>"
proof -
  define p where "p = PathFor s (NameFor (DigestOf identity i))"
  define entry where "entry = \<lparr>f_bytes = EncodeEntry identity (DigestOf identity i) i payload, f_written = si_now io\<rparr>"
  define temp where "temp = temporary_path p (si_nonce io) (ds_tempCounter s)"
  define fs2 where "fs2 = fs_put p entry (AList.delete temp fs)"
  define s2 where "s2 = published (of_nat (length (f_bytes entry))) (s\<lparr>ds_tempCounter := ds_tempCounter s + 1\<rparr>)"
  have max: "unat kMaxEntryPayload = 67108864" by (rule kMaxEntryPayload_unat)
  have size: "length (f_bytes entry) = 88 + length payload"
    using EncodeEntry_fields(1) [OF length_DigestOf assms(3)] by (simp add: entry_def)
  have present: "map_of fs2 p = Some entry" by (simp add: fs2_def fs_put_def update_conv')
  have d2: "distinct (map fst fs2)"
    unfolding fs2_def fs_put_def by (intro distinct_update distinct_delete assms(5))
  have sub: "set fs2 \<subseteq> insert (p, entry) (set fs)"
    using set_fs_put [of p entry "AList.delete temp fs"] unfolding fs2_def
    by (auto simp: AList.delete_eq)
  have sum2: "file_sum fs2 < 2 ^ 64"
    using file_sum_put [of p entry "AList.delete temp fs"] file_sum_delete [of temp fs] size assms(3,6) max
    unfolding fs2_def by simp
  have len2: "length fs2 \<le> Suc (length fs)"
    using length_fs_put [of p entry "AList.delete temp fs"] length_delete_le [of temp fs] unfolding fs2_def by linarith
  have calm: "undisturbed (si_sweep io) fs2"
    using assms(7) len2 by (auto simp: undisturbed_def store_calm_def)
  have survives: "map_of (fst (sweep_files (si_sweep io) plan fs2)) p = Some entry"
    if "sp_budget plan = EffectiveBudgetLocked s2" for plan
  proof (rule newest_survives [OF d2 calm sum2])
    show "(p, entry) \<in> set fs2" using present by (rule map_of_SomeD)
    show "\<not> stale (sw_now (si_sweep io)) (p, entry)" by (simp add: stale_def p_def entry_not_temporary)
    show "\<forall>(q, g)\<in>set fs2. q \<noteq> p \<longrightarrow> f_written g < f_written entry"
      using sub assms(7) by (auto simp: store_calm_def entry_def)
    have l: "ds_largestEntryBytes s2 = max (ds_largestEntryBytes s) (of_nat (length (f_bytes entry)))"
      by (simp add: s2_def)
    have "unat (of_nat (length (f_bytes entry)) :: u64) = 88 + length payload"
      using size assms(3) max by (subst unat_of_nat_u64) simp_all
    then have "unat (ds_largestEntryBytes s2) = max (unat (ds_largestEntryBytes s)) (88 + length payload)"
      unfolding l max_u64_unat by simp
    then show "length (f_bytes entry) \<le> unat (sp_budget plan) - unat (sp_budget plan) div 8"
      using budget_holds_entry [of s2] assms(3,4) max size that by simp
  qed
  show ?thesis
    using Disk_Store_shape [OF assms(2,3,1,7), of identity i] survives present
    unfolding p_def [symmetric] entry_def [symmetric] temp_def [symmetric] fs2_def [symmetric] s2_def [symmetric]
    by (metis prod.collapse)
qed

text \<open>
  C34: a block stored without a failing system call is loaded back with exactly its bytes,
  even when the store triggers a sweep of a directory that is over its budget: the sweep
  never evicts the entry whose write triggered it.
\<close>

theorem Store_then_Load:
  assumes "ds_enabled s" "payload \<noteq> []" "length payload \<le> unat kMaxEntryPayload"
    and "unat (ds_largestEntryBytes s) \<le> 67108952" "distinct (map fst fs)" "file_sum fs < 2 ^ 63"
    and "store_calm io fs" "li_readable li"
  shows "case Disk_Store io identity i True payload s fs of (stored, s', fs') \<Rightarrow>
    stored \<and> fst (Disk_Load li identity i (of_nat (length payload)) out s' fs') = (True, payload)"
proof -
  let ?p = "PathFor s (NameFor (DigestOf identity i))"
  let ?entry = "\<lparr>f_bytes = EncodeEntry identity (DigestOf identity i) i payload, f_written = si_now io\<rparr>"
  obtain s' fs' where r: "Disk_Store io identity i True payload s fs = (True, s', fs')" "ds_enabled s'"
    "ds_root s' = ds_root s" "map_of fs' ?p = Some ?entry"
    using stored_present [OF assms(1-7)] by blast
  have "unat (of_nat (length payload) :: u64) = length payload" using assms(3) kMaxEntryPayload_unat by simp
  then have "fst (Disk_Load li identity i (of_nat (length payload)) out s' fs') = (True, payload)"
    using assms(2,3,8) r PathFor_cong [OF r(3)]
    by (subst Disk_Load_file [where f = ?entry and payload = payload])
      (auto simp: word_le_nat_alt word_less_nat_alt)
  then show ?thesis using r(1) by simp
qed

definition sample_disk :: DiskBlockStore where
  "sample_disk = DiskBlockStore_new True \<lparr>dc_directory = ''cache'', dc_budgetBytes = 0\<rparr>"

definition calm_store :: store_io where
  "calm_store = \<lparr>si_mkdir = True, si_open = True, si_partial = 0, si_flush = True, si_rename = True,
     si_unlink = True, si_exists = True, si_now = 50, si_nonce = 7, si_sweep = calm_sweep\<rparr>"

theorem Store_then_Load_witness:
  "case Disk_Store calm_store sample_identity 3 True [1, 2, 3] sample_disk sample_files of (stored, s', fs') \<Rightarrow>
    stored \<and> fst (Disk_Load \<lparr>li_readable = True, li_removes = True\<rparr> sample_identity 3 3 [] s' fs') = (True, [1, 2, 3])"
proof -
  have "ds_enabled sample_disk" "unat (ds_largestEntryBytes sample_disk) \<le> 67108952"
    by (simp_all add: sample_disk_def DiskBlockStore_new_def Disk_Configure_def DiskOptions_Normalized_def Let_def)
  moreover have "distinct (map fst sample_files)" "file_sum sample_files < 2 ^ 63" "store_calm calm_store sample_files"
    by (simp_all add: sample_files_def store_calm_def calm_store_def calm_sweep_def sample_root_def)
  ultimately show ?thesis
    using Store_then_Load [of sample_disk "[1, 2, 3]" sample_files calm_store
        "\<lparr>li_readable = True, li_removes = True\<rparr>" sample_identity 3 "[]"]
    by (simp add: kMaxEntryPayload_unat)
qed

section \<open>Where a store writes\<close>

definition safe_name :: "string \<Rightarrow> bool" where
  "safe_name n \<longleftrightarrow> n \<noteq> [] \<and> set n \<subseteq> set kHex \<union> set ''.blktmp'' \<and> hd n \<noteq> CHR ''.''"

lemma NameFor_hd: "NameFor digest \<noteq> []" "hd (NameFor digest) \<in> set kHex" "take 2 (NameFor digest) \<noteq> []"
  "set (take 2 (NameFor digest)) \<subseteq> set kHex" "hd (take 2 (NameFor digest)) \<in> set kHex"
proof -
  show ne: "NameFor digest \<noteq> []" using length_NameFor [of digest] by auto
  then show hd: "hd (NameFor digest) \<in> set kHex" using set_NameFor hd_in_set by blast
  show "take 2 (NameFor digest) \<noteq> []" "set (take 2 (NameFor digest)) \<subseteq> set kHex"
    using ne set_NameFor [of digest] set_take_subset by fastforce+
  show "hd (take 2 (NameFor digest)) \<in> set kHex" using hd ne by (cases "NameFor digest") simp_all
qed

lemma safe_names:
  "safe_name (take 2 (NameFor digest))" "safe_name (NameFor digest @ kEntrySuffix)"
  "safe_name (NameFor digest @ kEntrySuffix @ ''.'' @ HexOf a @ ''.'' @ HexOf b @ kTempSuffix)"
proof -
  have dot: "CHR ''.'' \<notin> set kHex" by (simp add: kHex_def)
  then have h: "hd (NameFor digest) \<noteq> CHR ''.''" "hd (take 2 (NameFor digest)) \<noteq> CHR ''.''"
    using NameFor_hd(2,5) [of digest] by auto
  show "safe_name (take 2 (NameFor digest))"
    using NameFor_hd(3,4) [of digest] h by (auto simp: safe_name_def)
  show "safe_name (NameFor digest @ kEntrySuffix)"
    using set_NameFor [of digest] NameFor_hd(1) [of digest] h by (auto simp: safe_name_def kEntrySuffix_def)
  show "safe_name (NameFor digest @ kEntrySuffix @ ''.'' @ HexOf a @ ''.'' @ HexOf b @ kTempSuffix)"
    using set_NameFor [of digest] set_HexOf [of a] set_HexOf [of b] NameFor_hd(1) [of digest] h
    by (auto simp: safe_name_def kEntrySuffix_def kTempSuffix_def)
qed

lemma set_fs_remove: "set (snd (fs_remove ok p fs)) \<subseteq> set fs"
  by (auto simp: fs_remove_def AList.delete_eq)

lemma set_sweep_walk: "set (fst (sweep_walk io walk fs t es)) \<subseteq> set fs"
proof (induction walk arbitrary: fs t es)
  case (Cons pf walk)
  obtain p f where pf: "pf = (p, f)" by fastforce
  show ?case
    using Cons.IH subset_trans [OF Cons.IH set_fs_remove] by (simp add: pf)
qed simp

lemma set_sweep_trim: "set (fst (sweep_trim io tg cs fs t a b)) \<subseteq> set fs"
proof (induction cs arbitrary: fs t a b)
  case (Cons c cs)
  obtain r fs1 where rm: "fs_remove (sw_removes io (c_path c)) (c_path c) fs = (r, fs1)" by fastforce
  then have "set fs1 \<subseteq> set fs" using set_fs_remove by (metis snd_conv)
  note sub = subset_trans [OF Cons.IH this]
  show ?case by (simp add: rm sub)
qed simp

lemma set_sweep_files: "set (fst (sweep_files io plan fs)) \<subseteq> set fs"
proof -
  obtain fs1 t es where w: "(if sw_opens io
      then sweep_walk io (take (sw_steps io) (filter (\<lambda>(p, f). under (sp_root plan) p) fs)) fs 0 []
      else (fs, 0, [])) = (fs1, t, es)" by (metis surj_pair)
  then have sub: "set fs1 \<subseteq> set fs" using set_sweep_walk by (metis fst_conv subset_refl)
  show ?thesis
    unfolding sweep_files_def w Let_def split by (simp add: sub subset_trans [OF set_sweep_trim sub])
qed

lemma Disk_Store_files:
  fixes identity i payload s io
  defines "p \<equiv> PathFor s (NameFor (DigestOf identity i))"
  defines "t \<equiv> temporary_path p (si_nonce io) (ds_tempCounter s)"
  defines "enc \<equiv> EncodeEntry identity (DigestOf identity i) i payload"
  defines "new \<equiv> \<lparr>f_bytes = enc, f_written = si_now io\<rparr>"
  shows "set (snd (snd (Disk_Store io identity i persistable payload s fs))) \<subseteq>
    set fs \<union> {(t, \<lparr>f_bytes = take (si_partial io) enc, f_written = si_now io\<rparr>), (t, new), (p, new)}"
proof -
  define X where "X = set fs \<union> {(t, \<lparr>f_bytes = take (si_partial io) enc, f_written = si_now io\<rparr>), (t, new), (p, new)}"
  have base: "set fs \<subseteq> X" by (auto simp: X_def)
  have put: "set (fs_put t new fs) \<subseteq> X" using set_fs_put [of t new fs] by (auto simp: X_def)
  have moved: "set (fs_put p new (AList.delete t (fs_put t new fs))) \<subseteq> X"
    using set_fs_put [of p new "AList.delete t (fs_put t new fs)"] put by (auto simp: AList.delete_eq X_def)
  have partial: "set (snd (fs_remove u t (fs_put t \<lparr>f_bytes = take (si_partial io) enc, f_written = si_now io\<rparr> fs))) \<subseteq> X" for u
    by (rule subset_trans [OF set_fs_remove subset_trans [OF set_fs_put]]) (auto simp: X_def)
  have lost: "set (snd (fs_remove u t (fs_put t new fs))) \<subseteq> X" for u
    by (rule subset_trans [OF set_fs_remove put])
  have swept: "set (fst (sweep_files io' plan (fs_put p new (AList.delete t (fs_put t new fs))))) \<subseteq> X" for io' plan
    by (rule subset_trans [OF set_sweep_files moved])
  show ?thesis
    unfolding Disk_Store_def Let_def p_def [symmetric] t_def [symmetric] enc_def [symmetric] new_def [symmetric]
      RunSweep_def X_def [symmetric] case_prod_beta
    by (simp add: base partial lost moved swept split: option.split)
qed

text \<open>
  Whatever the identifier, the validator and the failures of the system, a store adds
  at most a file directly below a two-character directory of the entry root; both names
  are built from hexadecimal digits and the fixed suffixes, never start with a dot and
  contain no separator, and the contents are the entry or a prefix of it.
\<close>

theorem Disk_Store_paths:
  assumes "(q, g) \<in> set (snd (snd (Disk_Store io identity i persistable payload s fs)))" "(q, g) \<notin> set fs"
  shows "\<exists>d n. q = ds_root s @ [d, n] \<and> safe_name d \<and> safe_name n \<and>
    prefix (f_bytes g) (EncodeEntry identity (DigestOf identity i) i payload)"
proof -
  let ?name = "NameFor (DigestOf identity i)"
  let ?p = "PathFor s ?name" and ?enc = "EncodeEntry identity (DigestOf identity i) i payload"
  let ?t = "temporary_path ?p (si_nonce io) (ds_tempCounter s)"
  have t: "?t = ds_root s @ [take 2 ?name, ?name @ kEntrySuffix @ ''.'' @ HexOf (si_nonce io) @ ''.'' @
      HexOf (ds_tempCounter s) @ kTempSuffix]"
    by (simp add: temporary_path_def PathFor_def butlast_append)
  have "(q = ?p \<or> q = ?t) \<and> prefix (f_bytes g) ?enc"
    using subsetD [OF Disk_Store_files assms(1)] assms(2) by (auto simp: take_is_prefix)
  then show ?thesis using safe_names [of "DigestOf identity i"] t by (auto simp: PathFor_def)
qed

theorem Disk_Store_paths_witness:
  "\<exists>g d n. (PathFor sample_disk (NameFor (DigestOf sample_identity 3)), g) \<in>
       set (snd (snd (Disk_Store calm_store sample_identity 3 True [1, 2, 3] sample_disk []))) \<and>
     PathFor sample_disk (NameFor (DigestOf sample_identity 3)) = ds_root sample_disk @ [d, n] \<and> safe_name n"
proof -
  let ?p = "PathFor sample_disk (NameFor (DigestOf sample_identity 3))"
  have en: "ds_enabled sample_disk" "unat (ds_largestEntryBytes sample_disk) \<le> 67108952"
    by (simp_all add: sample_disk_def DiskBlockStore_new_def Disk_Configure_def DiskOptions_Normalized_def Let_def)
  have calm: "store_calm calm_store []" by (simp add: store_calm_def calm_store_def calm_sweep_def)
  obtain f where "map_of (snd (snd (Disk_Store calm_store sample_identity 3 True [1, 2, 3] sample_disk []))) ?p = Some f"
    using stored_present [OF en(1) _ _ en(2) _ _ calm, of "[1, 2, 3]" sample_identity 3] kMaxEntryPayload_unat by auto
  then have "(?p, f) \<in> set (snd (snd (Disk_Store calm_store sample_identity 3 True [1, 2, 3] sample_disk [])))"
    by (rule map_of_SomeD)
  then show ?thesis using Disk_Store_paths [of ?p f calm_store sample_identity 3 True "[1, 2, 3]" sample_disk "[]"] by auto
qed

end
