(* ===== verification/CacheStack.thy ===== *)
theory CacheStack
  imports CachedContract CacheHistory DiskCorrect
begin

text \<open>
  The whole cached stack: opening and closing a cached reader
  (\<open>CachedAssetReader.cpp\<close>, \<open>Impl\<close>, \<open>Wrap\<close> and \<open>WrapAsset\<close>), and the environment of the read
  path built from the block store, the persistent store and the decorated reader of this
  development. Before each of its calls the other readers of the process and the other
  processes on the cache directory take a turn: a list of operations on the shared block
  store and on the shared files. A reader publishes and abandons only the blocks an
  \<open>Acquire\<close> made its own, so the turns are guarded by the set of keys the others own. What
  is proved of the read path for every world that keeps the contract is thereby a theorem
  about this stack.
\<close>

section \<open>Opening and closing\<close>

record CachedImpl =
  ci_options :: CacheOptions
  ci_persistable :: bool
  ci_persistentEnabled :: bool
  ci_persists :: bool
  ci_metrics :: ReaderMetrics
  ci_binding :: Binding

text \<open>The reader, the decorated reader's counters and the block store after the open.\<close>

definition CachedImpl_new :: "AssetMetadata \<Rightarrow> ReaderMetrics option \<Rightarrow> CacheOptions \<Rightarrow> BlockCache \<Rightarrow> DiskBlockStore \<Rightarrow>
    CachedImpl \<times> ReaderMetrics option \<times> BlockCache" where
  "CachedImpl_new meta innerMetrics requested blockStore diskStore =
    (let options = Normalized requested;
         metrics = SetAssetSize (am_size meta) (ReaderMetrics_new (resolvedIdentifier meta));
         innerMetrics' = map_option DetachFromRegistry innerMetrics;
         (binding, blockStore') = Bind (resolvedIdentifier meta) (am_validator meta) (blockSize options) blockStore;
         persistable = Persistable (am_validator meta);
         persistentEnabled = ds_enabled diskStore
     in (\<lparr>ci_options = options, ci_persistable = persistable, ci_persistentEnabled = persistentEnabled,
          ci_persists = (persistentEnabled \<and> persistable), ci_metrics = metrics, ci_binding = binding\<rparr>,
         innerMetrics', blockStore'))"

text \<open>
  The destructor absorbs the transport counters; then the binding is released and the
  counters fold into the registry.
\<close>

definition CachedImpl_destroy :: "ReaderMetrics option \<Rightarrow> CachedImpl \<Rightarrow> BlockCache \<Rightarrow> MetricsRegistry \<Rightarrow>
    BlockCache \<times> MetricsRegistry" where
  "CachedImpl_destroy innerMetrics impl blockStore registry =
    (let metrics = (case innerMetrics of None \<Rightarrow> ci_metrics impl
                    | Some inner \<Rightarrow> ReaderMetrics_AbsorbTransport inner (ci_metrics impl))
     in (Binding_destroy (ci_binding impl) blockStore, ReaderMetrics_destroy metrics registry))"

definition SnapshotMetrics :: "ReaderMetrics option \<Rightarrow> CachedImpl \<Rightarrow> MetricsSnapshot" where
  "SnapshotMetrics innerMetrics impl =
    (let snapshot = ReaderMetrics_Snapshot (ci_metrics impl)
     in case innerMetrics of None \<Rightarrow> snapshot
        | Some inner \<Rightarrow> Snapshot_AbsorbTransport (ReaderMetrics_Snapshot inner) snapshot)"

text \<open>
  \<open>inner\<close> is the decorated reader with its metadata, absent for a null pointer; the stores
  are those the last two arguments designate, the process-wide ones where they are null.
\<close>

record ('r, 'c) OpenResult =
  or_reader :: "('r + 'c) option"
  or_status :: Status

definition Wrap :: "('r \<times> AssetMetadata) option \<Rightarrow> ReaderMetrics option \<Rightarrow> CacheOptions \<Rightarrow> BlockCache \<Rightarrow> DiskBlockStore \<Rightarrow>
    ('r, 'r \<times> CachedImpl) OpenResult \<times> ReaderMetrics option \<times> BlockCache" where
  "Wrap inner innerMetrics options store persistent =
    (case inner of
       None \<Rightarrow> (\<lparr>or_reader = None, or_status = Status_Error InvalidArgument
                  ''the cache was given no reader to decorate''\<rparr>, innerMetrics, store)
     | Some (r, meta) \<Rightarrow>
         let (impl, innerMetrics', store') = CachedImpl_new meta innerMetrics options store persistent
         in (\<lparr>or_reader = Some (Inr (r, impl)), or_status = Status_Ok\<rparr>, innerMetrics', store'))"

definition WrapAsset :: "('r \<times> AssetMetadata) option \<Rightarrow> Status \<Rightarrow> ReaderMetrics option \<Rightarrow> CacheOptions \<Rightarrow> BlockCache \<Rightarrow>
    DiskBlockStore \<Rightarrow> ('r, 'r \<times> CachedImpl) OpenResult \<times> ReaderMetrics option \<times> BlockCache" where
  "WrapAsset inner status innerMetrics options store persistent =
    (case inner of
       None \<Rightarrow> (\<lparr>or_reader = None, or_status = status\<rparr>, innerMetrics, store)
     | Some (r, meta) \<Rightarrow>
         if \<not> supportsRandomAccess meta
         then (\<lparr>or_reader = Some (Inl r), or_status = status\<rparr>, innerMetrics, store)
         else Wrap inner innerMetrics options store persistent)"

section \<open>The other readers\<close>

text \<open>One operation of another reader on the block store, and the keys the others own.\<close>

fun other_exec :: "cache_op \<Rightarrow> BlockCache \<times> ShardKey set \<Rightarrow> BlockCache \<times> ShardKey set" where
  "other_exec (OpAcquire b i) (s, theirs) =
    (let (r, s') = Acquire b i s
     in (s', if acq_outcome r = Owned then insert (block_key b i) theirs else theirs))"
| "other_exec (OpPublish b i x) (s, theirs) =
    (if block_key b i \<in> theirs then (snd (Publish b i x s), theirs - {block_key b i}) else (s, theirs))"
| "other_exec (OpAbandon b i) (s, theirs) =
    (if block_key b i \<in> theirs then (Abandon b i s, theirs - {block_key b i}) else (s, theirs))"
| "other_exec (OpDestroy b) (s, theirs) =
    (Binding_destroy b s, if isPrivate b then {k \<in> theirs. identityId k \<noteq> b_identityId b} else theirs)"
| "other_exec op (s, theirs) = (exec op s, theirs)"

text \<open>
  One operation of another reader or process on the cache directory. A foreign process has
  its own store object, so its effect on the files is given by the file it renames into
  place or removes.
\<close>

datatype disk_op =
    DiskLoad load_io AssetIdentity u64 u64
  | DiskStore store_io AssetIdentity u64 bool bytes
  | DiskClear bool
  | DiskConfigure bool DiskCacheOptions
  | ForeignPut path disk_file
  | ForeignRemove path

primrec disk_exec :: "disk_op \<Rightarrow> DiskBlockStore \<times> filesystem \<Rightarrow> DiskBlockStore \<times> filesystem" where
  "disk_exec (DiskLoad io identity i n) d = snd (Disk_Load io identity i n [] (fst d) (snd d))"
| "disk_exec (DiskStore io identity i persistable x) d = snd (Disk_Store io identity i persistable x (fst d) (snd d))"
| "disk_exec (DiskClear cleared) d = Disk_Clear cleared (fst d) (snd d)"
| "disk_exec (DiskConfigure ok opts) d = (snd (Disk_Configure ok opts (fst d)), snd d)"
| "disk_exec (ForeignPut p f) d = (fst d, fs_put p f (snd d))"
| "disk_exec (ForeignRemove p) d = (fst d, AList.delete p (snd d))"

text \<open>A turn of the others, with the system's answers to the reader's own next call.\<close>

record turn =
  tn_ops :: "cache_op list"
  tn_disk :: "disk_op list"
  tn_load :: load_io
  tn_store :: store_io

section \<open>The world of one reader\<close>

text \<open>
  \<open>k_turns\<close> are the turns still to come; after the last one the others are idle.
  \<open>k_mine\<close> and \<open>k_theirs\<close> record who owns which pending block; no operation of the reader
  looks at \<open>k_mine\<close>.
\<close>

record 'w stack =
  k_store :: BlockCache
  k_disk :: DiskBlockStore
  k_files :: filesystem
  k_inner :: 'w
  k_turns :: "turn list"
  k_theirs :: "ShardKey set"
  k_mine :: "u64 set"

definition take_turn :: "turn \<Rightarrow> 'w stack \<Rightarrow> 'w stack" where
  "take_turn t w =
    (let (s, theirs) = fold other_exec (tn_ops t) (k_store w, k_theirs w);
         (d, files) = fold disk_exec (tn_disk t) (k_disk w, k_files w)
     in w\<lparr>k_store := s, k_theirs := theirs, k_disk := d, k_files := files\<rparr>)"

definition others :: "'w stack \<Rightarrow> 'w stack" where
  "others w = (case k_turns w of [] \<Rightarrow> w | t # ts \<Rightarrow> (take_turn t w)\<lparr>k_turns := ts\<rparr>)"

definition idle_io :: store_io where
  "idle_io = \<lparr>si_mkdir = True, si_open = True, si_partial = 0, si_flush = True, si_rename = True, si_unlink = True,
     si_exists = True, si_now = 0, si_nonce = 0, si_sweep = calm_sweep\<rparr>"

definition idle_turn :: turn where
  "idle_turn = \<lparr>tn_ops = [], tn_disk = [], tn_load = \<lparr>li_readable = True, li_removes = True\<rparr>, tn_store = idle_io\<rparr>"

definition this_turn :: "'w stack \<Rightarrow> turn" where
  "this_turn w = (case k_turns w of [] \<Rightarrow> idle_turn | t # ts \<Rightarrow> t)"

definition stack_read :: "'w read_fn \<Rightarrow> 'w stack read_fn" where
  "stack_read rd off n w =
    (let w1 = others w; (r, v) = rd off n (k_inner w1) in (r, w1\<lparr>k_inner := v\<rparr>))"

definition stack_acquire :: "Binding \<Rightarrow> u64 \<Rightarrow> 'w stack \<Rightarrow> AcquireResult \<times> 'w stack" where
  "stack_acquire b i w =
    (let w1 = others w; (r, s) = Acquire b i (k_store w1)
     in (r, w1\<lparr>k_store := s, k_mine := if acq_outcome r = Owned then insert i (k_mine w1) else k_mine w1\<rparr>))"

definition stack_publish :: "Binding \<Rightarrow> u64 \<Rightarrow> bytes \<Rightarrow> 'w stack \<Rightarrow> u64 \<times> 'w stack" where
  "stack_publish b i x w =
    (let w1 = others w; (n, s) = Publish b i x (k_store w1)
     in (n, w1\<lparr>k_store := s, k_mine := k_mine w1 - {i}\<rparr>))"

definition stack_abandon :: "Binding \<Rightarrow> u64 \<Rightarrow> 'w stack \<Rightarrow> 'w stack" where
  "stack_abandon b i w =
    (let w1 = others w in w1\<lparr>k_store := Abandon b i (k_store w1), k_mine := k_mine w1 - {i}\<rparr>)"

text \<open>
  \<open>Await\<close> polls under the stripe's lock and sleeps while the block is pending; every turn of
  the others may wake it. When no turn is left the block stays pending for ever.
\<close>

fun await_turns :: "Binding \<Rightarrow> u64 \<Rightarrow> turn list \<Rightarrow> 'w stack \<Rightarrow> (bytes option \<times> 'w stack) option" where
  "await_turns b i ts w =
    (case Await_poll b i (k_store w) of
       (Some r, s) \<Rightarrow> Some (r, w\<lparr>k_store := s, k_turns := ts\<rparr>)
     | (None, s) \<Rightarrow>
         (case ts of [] \<Rightarrow> None
          | t # ts' \<Rightarrow> await_turns b i ts' (take_turn t (w\<lparr>k_store := s\<rparr>))))"

declare await_turns.simps [simp del]

definition stack_await :: "Binding \<Rightarrow> u64 \<Rightarrow> 'w stack \<Rightarrow> (bytes option \<times> 'w stack) option" where
  "stack_await b i w = await_turns b i (k_turns w) w"

definition stack_load :: "AssetIdentity \<Rightarrow> u64 \<Rightarrow> u64 \<Rightarrow> 'w stack \<Rightarrow> bytes option \<times> 'w stack" where
  "stack_load identity i n w =
    (let w1 = others w;
         ((loaded, out), d, files) = Disk_Load (tn_load (this_turn w)) identity i n [] (k_disk w1) (k_files w1)
     in (if loaded then Some out else None, w1\<lparr>k_disk := d, k_files := files\<rparr>))"

definition stack_store :: "AssetIdentity \<Rightarrow> bool \<Rightarrow> u64 \<Rightarrow> bytes \<Rightarrow> 'w stack \<Rightarrow> bool \<times> 'w stack" where
  "stack_store identity persistable i x w =
    (let w1 = others w;
         (stored, d, files) = Disk_Store (tn_store (this_turn w)) identity i persistable x (k_disk w1) (k_files w1)
     in (stored, w1\<lparr>k_disk := d, k_files := files\<rparr>))"

definition stack_env :: "'w read_fn \<Rightarrow> AssetMetadata \<Rightarrow> CachedImpl \<Rightarrow> 'w stack cached_env" where
  "stack_env rd meta impl =
    \<lparr>env_read = stack_read rd, env_meta = meta, env_options = ci_options impl,
     env_acquire = stack_acquire (ci_binding impl), env_await = stack_await (ci_binding impl),
     env_publish = stack_publish (ci_binding impl), env_abandon = stack_abandon (ci_binding impl),
     env_resident = (\<lambda>w. residentTotal (k_store w)),
     env_load = stack_load (b_identity (ci_binding impl)),
     env_store = stack_store (b_identity (ci_binding impl)) (ci_persistable impl),
     env_persists = ci_persists impl, env_persistentEnabled = ci_persistentEnabled impl\<rparr>"

section \<open>The invariant\<close>

text \<open>What the others may do: nothing of theirs closes this reader's private binding or resets the store.\<close>

primrec other_ok :: "Binding \<Rightarrow> cache_op \<Rightarrow> bool" where
  "other_ok b (OpBind r v bs) = True"
| "other_ok b (OpDestroy b') = (\<not> (isPrivate b' \<and> b_identityId b' = b_identityId b))"
| "other_ok b (OpAcquire b' i) = True"
| "other_ok b (OpAwait b' i) = True"
| "other_ok b (OpPublish b' i x) = True"
| "other_ok b (OpAbandon b' i) = True"
| "other_ok b OpClear = False"
| "other_ok b (OpConfigure opts) = False"

text \<open>Whether a key is owned by another reader after a list of operations.\<close>

definition acquires :: "ShardKey \<Rightarrow> cache_op \<Rightarrow> bool" where
  "acquires k op = (case op of OpAcquire b i \<Rightarrow> block_key b i = k | _ \<Rightarrow> False)"

fun still_owned :: "ShardKey \<Rightarrow> bool \<Rightarrow> cache_op list \<Rightarrow> bool" where
  "still_owned k p [] = p"
| "still_owned k p (op # ops) =
    still_owned k (if releases k op then False else if acquires k op then True else p) ops"

definition drained :: "ShardKey \<Rightarrow> 'w stack \<Rightarrow> bool" where
  "drained k w \<longleftrightarrow> \<not> still_owned k (k \<in> k_theirs w) (concat (map tn_ops (k_turns w)))"

text \<open>A file that claims to be an entry of the asset holds the bytes of that block.\<close>

definition file_ok :: "AssetIdentity \<Rightarrow> bytes \<Rightarrow> bytes \<Rightarrow> bool" where
  "file_ok identity content raw \<longleftrightarrow>
    (\<forall>i. in_asset content (id_blockSize identity) i \<longrightarrow> entry_sound raw \<longrightarrow>
       segment raw 40 32 = DigestOf identity i \<longrightarrow> ReadLittleEndian64 (drop 24 raw) = i \<longrightarrow>
       length raw = 88 + length (blk content (id_blockSize identity) i) \<longrightarrow>
       drop 88 raw = blk content (id_blockSize identity) i)"

definition files_ok :: "AssetIdentity \<Rightarrow> bytes \<Rightarrow> filesystem \<Rightarrow> bool" where
  "files_ok identity content fs \<longleftrightarrow> (\<forall>(p, f)\<in>set fs. file_ok identity content (f_bytes f))"

text \<open>
  Blocks stored by others under the digest of a block of this asset are that block: the
  digests do not collide and an entity tag names one content.
\<close>

primrec disk_op_ok :: "AssetIdentity \<Rightarrow> bytes \<Rightarrow> disk_op \<Rightarrow> bool" where
  "disk_op_ok identity content (DiskLoad io ident i n) = True"
| "disk_op_ok identity content (DiskStore io ident i persistable x) =
    (in_asset content (id_blockSize identity) i \<longrightarrow> DigestOf ident i = DigestOf identity i \<longrightarrow>
     length x = length (blk content (id_blockSize identity) i) \<longrightarrow> x = blk content (id_blockSize identity) i)"
| "disk_op_ok identity content (DiskClear cleared) = True"
| "disk_op_ok identity content (DiskConfigure ok opts) = True"
| "disk_op_ok identity content (ForeignPut p f) = file_ok identity content (f_bytes f)"
| "disk_op_ok identity content (ForeignRemove p) = True"

definition turn_ok :: "(ShardKey \<Rightarrow> bytes) \<Rightarrow> Binding \<Rightarrow> bytes \<Rightarrow> turn \<Rightarrow> bool" where
  "turn_ok C b content t \<longleftrightarrow>
    (\<forall>op\<in>set (tn_ops t). legal op \<and> publishes C op \<and> other_ok b op) \<and>
    (\<forall>op\<in>set (tn_disk t). disk_op_ok (b_identity b) content op)"

definition owners_ok :: "Binding \<Rightarrow> u64 set \<Rightarrow> BlockCache \<times> ShardKey set \<Rightarrow> bool" where
  "owners_ok b mine st \<longleftrightarrow>
    (\<forall>k. slots (fst st) k = Some Pending \<longrightarrow> k \<in> snd st \<or> (\<exists>i\<in>mine. k = block_key b i))"

definition shared_ok :: "(ShardKey \<Rightarrow> bytes) \<Rightarrow> Binding \<Rightarrow> u64 set \<Rightarrow> BlockCache \<times> ShardKey set \<Rightarrow> bool" where
  "shared_ok C b mine st \<longleftrightarrow>
    store_inv (fst st) \<and> consistent C (slots (fst st)) \<and> owners_ok b mine st"

definition stack_inv :: "bool \<Rightarrow> (ShardKey \<Rightarrow> bytes) \<Rightarrow> Binding \<Rightarrow> bytes \<Rightarrow> ('w \<Rightarrow> bool) \<Rightarrow> 'w stack \<Rightarrow> bool" where
  "stack_inv fair C b content I w \<longleftrightarrow>
    shared_ok C b (k_mine w) (k_store w, k_theirs w) \<and> files_ok (b_identity b) content (k_files w) \<and>
    (\<forall>t\<in>set (k_turns w). turn_ok C b content t) \<and> I (k_inner w) \<and>
    (fair \<longrightarrow> (\<forall>i. drained (block_key b i) w))"

section \<open>Turns keep the invariant\<close>

lemma acquire_pending_iff:
  assumes "store_inv s"
  shows "slots (snd (Acquire b i s)) k = Some Pending \<longleftrightarrow>
    slots s k = Some Pending \<or> k = block_key b i \<and> acq_outcome (fst (Acquire b i s)) = Owned"
proof (cases "slots s (block_key b i)")
  case None
  then show ?thesis using bc.acquire_absent [OF assms None] by auto
next
  case (Some sl)
  then show ?thesis
    using bc.acquire_pending [OF assms, of b i] bc.acquire_ready [OF assms, of b i] by (cases sl) auto
qed

lemma publish_pending:
  assumes "store_inv s" "length x \<le> max_block" "slots (snd (Publish b i x s)) k = Some Pending"
  shows "slots s k = Some Pending \<and> k \<noteq> block_key b i"
proof (cases "slots s (block_key b i) = Some Pending")
  case True
  show ?thesis using bc.publish_pending [OF assms(1) True assms(2)] assms(3) by (cases "k = block_key b i") auto
next
  case False
  then show ?thesis using bc.publish_other [OF assms(1) False] assms(3) by auto
qed

lemma abandon_pending:
  assumes "store_inv s" "slots (Abandon b i s) k = Some Pending"
  shows "slots s k = Some Pending \<and> k \<noteq> block_key b i"
  using bc.abandon_law [OF assms(1), of b i] assms(2) by (auto split: if_splits)

lemma shared_okI:
  assumes "store_inv s" "consistent C (slots s)"
    and "\<And>k. slots s k = Some Pending \<Longrightarrow> k \<in> theirs \<or> (\<exists>i\<in>mine. k = block_key b i)"
  shows "shared_ok C b mine (s, theirs)"
  using assms by (simp add: shared_ok_def owners_ok_def)

lemma shared_exec:
  assumes "shared_ok C b mine st" "legal op" "publishes C op" "other_ok b op"
  shows "shared_ok C b mine (other_exec op st)"
proof -
  obtain s theirs where st: "st = (s, theirs)" by fastforce
  then have inv: "store_inv s" "consistent C (slots s)" "owners_ok b mine (s, theirs)"
    using assms(1) by (simp_all add: shared_ok_def)
  have same: "shared_ok C b mine (exec op s, theirs)"
    if "\<forall>k. slots (exec op s) k = Some Pending \<longrightarrow> slots s k = Some Pending"
    using that inv exec_inv [OF inv(1) assms(2)] exec_consistent [OF inv(1) assms(2,3) inv(2)]
    by (simp add: shared_ok_def owners_ok_def)
  show ?thesis
  proof (cases op)
    case (OpAcquire b' i)
    then show ?thesis
      using inv st by (auto simp: shared_ok_def owners_ok_def case_prod_beta Let_def acquire_pending_iff
          bc.acquire_inv bc.consistent_acquire)
  next
    case (OpPublish b' i x)
    then have x: "length x \<le> max_block" "x = C (block_key b' i)" using assms(2,3) by simp_all
    show ?thesis
    proof (cases "block_key b' i \<in> theirs")
      case True
      have "shared_ok C b mine (snd (Publish b' i x s), theirs - {block_key b' i})"
        by (intro shared_okI bc.publish_inv [OF inv(1) x(1)] bc.consistent_publish [OF inv(1,2) x(2,1)])
          (use publish_pending [OF inv(1) x(1)] inv(3) in \<open>auto simp: owners_ok_def\<close>)
      then show ?thesis using OpPublish st True by simp
    qed (use OpPublish st assms(1) in simp)
  next
    case (OpAbandon b' i)
    show ?thesis
    proof (cases "block_key b' i \<in> theirs")
      case True
      have "shared_ok C b mine (Abandon b' i s, theirs - {block_key b' i})"
        by (intro shared_okI bc.consistent_abandon [OF inv(1,2)] conjunct1 [OF bc.abandon_law [OF inv(1)]])
          (use abandon_pending [OF inv(1)] inv(3) in \<open>auto simp: owners_ok_def\<close>)
      then show ?thesis using OpAbandon st True by simp
    qed (use OpAbandon st assms(1) in simp)
  next
    case (OpDestroy b')
    then show ?thesis
      using inv st exec_consistent [OF inv(1) assms(2,3) inv(2)]
      by (auto simp: shared_ok_def owners_ok_def Binding_destroy_facts)
  qed (use same assms(4) st in \<open>simp_all add: Bind_facts bc.poll_same inv(1)\<close>)
qed

lemma shared_execs:
  "\<forall>op\<in>set ops. legal op \<and> publishes C op \<and> other_ok b op \<Longrightarrow> shared_ok C b mine st \<Longrightarrow>
    shared_ok C b mine (fold other_exec ops st)"
  by (induction ops arbitrary: st) (simp_all add: shared_exec del: split_paired_All)

text \<open>Ownership by others: what the schedule promises is kept as it is worked off.\<close>

lemma still_owned_mono: "still_owned k p ops \<Longrightarrow> p \<longrightarrow> q \<Longrightarrow> still_owned k q ops"
  by (induction ops arbitrary: p q) (auto split: if_splits)

lemma other_exec_theirs:
  assumes "other_ok b op" "k \<in> snd (other_exec op (s, theirs))"
  shows "\<not> releases k op \<and> (acquires k op \<or> k \<in> theirs)"
  using assms by (cases op) (auto simp: acquires_def Let_def case_prod_beta split: if_splits)

lemma still_owned_execs:
  "\<forall>op\<in>set ops. other_ok b op \<Longrightarrow> \<not> still_owned k (k \<in> snd st) (ops @ rest) \<Longrightarrow>
    \<not> still_owned k (k \<in> snd (fold other_exec ops st)) rest"
proof (induction ops arbitrary: st)
  case (Cons op ops)
  obtain s theirs where st: "st = (s, theirs)" by fastforce
  have "\<not> still_owned k (k \<in> snd (other_exec op st)) (ops @ rest)"
  proof
    assume "still_owned k (k \<in> snd (other_exec op st)) (ops @ rest)"
    moreover have "k \<in> snd (other_exec op st) \<longrightarrow>
        (if releases k op then False else if acquires k op then True else k \<in> theirs)"
      using Cons.prems(1) other_exec_theirs [of b op k s theirs] unfolding st by auto
    ultimately show False using Cons.prems(2) still_owned_mono unfolding st by fastforce
  qed
  then show ?case using Cons by simp
qed simp

section \<open>Files\<close>

lemma file_ok_prefix:
  assumes "length payload \<le> unat kMaxEntryPayload"
    and "in_asset content (id_blockSize identity) i \<longrightarrow> DigestOf ident i = DigestOf identity i \<longrightarrow>
      length payload = length (blk content (id_blockSize identity) i) \<longrightarrow> payload = blk content (id_blockSize identity) i"
  shows "file_ok identity content (take m (EncodeEntry ident (DigestOf ident i) i payload))"
proof (cases "m < length (EncodeEntry ident (DigestOf ident i) i payload)")
  case True
  let ?e = "EncodeEntry ident (DigestOf ident i) i payload"
  note s = EncodeEntry_sound [OF length_DigestOf assms(1)]
  have "\<not> entry_sound (take m ?e)"
  proof (cases "m < 88")
    case True
    then show ?thesis using entry_soundD(1) [of "take m ?e"] by fastforce
  next
    case False
    then show ?thesis using \<open>m < length ?e\<close> by (intro entry_sound_resize [OF s]) simp_all
  qed
  then show ?thesis by (simp add: file_ok_def)
next
  case False
  note f = EncodeEntry_fields [OF length_DigestOf assms(1)]
  show ?thesis using False assms(2) f by (auto simp: file_ok_def)
qed

lemma Disk_Load_shrinks: "set (snd (snd (Disk_Load io identity i n out s fs))) \<subseteq> set fs"
  by (auto simp: Disk_Load_def Let_def fs_remove_def AList.delete_eq case_prod_beta split: option.splits if_splits)

lemma Disk_Load_payload:
  assumes "Disk_Load io identity i n out s fs = ((True, x), d, fs')"
  shows "\<exists>p f. (p, f) \<in> set fs \<and> entry_sound (f_bytes f) \<and> segment (f_bytes f) 40 32 = DigestOf identity i \<and>
    ReadLittleEndian64 (drop 24 (f_bytes f)) = i \<and> length (f_bytes f) = 88 + unat n \<and> x = drop 88 (f_bytes f)"
proof -
  let ?p = "PathFor s (NameFor (DigestOf identity i))"
  obtain r where r: "ReadWholeFile (li_readable io) ?p fs = Some r"
    "fst (DecodeEntry r identity (DigestOf identity i) i n out) = DecodeOk"
    "snd (DecodeEntry r identity (DigestOf identity i) i n out) = x"
    using assms by (auto simp: Disk_Load_def Let_def case_prod_beta split: if_splits option.splits)
  then obtain f where f: "map_of fs ?p = Some f" "r = f_bytes f"
    by (auto simp: ReadWholeFile_def split: option.splits if_splits)
  have d: "entry_sound r" "segment r 40 kDigestBytes = DigestOf identity i" "ReadLittleEndian64 (drop 24 r) = i"
    "ReadLittleEndian64 (drop 32 r) = n" "x = drop kHeaderBytes r"
    using r(2,3) by (auto simp: DecodeEntry_sound split: if_splits)
  have "(?p, f) \<in> set fs" using f(1) by (rule map_of_SomeD)
  moreover have "length r = 88 + unat n" using entry_soundD(2) [OF d(1)] unfolding d(4) .
  ultimately show ?thesis using d f(2) by (auto simp: kDigestBytes_def kHeaderBytes_def)
qed

lemma files_ok_store:
  assumes "files_ok identity content fs" "disk_op_ok identity content (DiskStore io ident i persistable x)"
  shows "files_ok identity content (snd (snd (Disk_Store io ident i persistable x s fs)))"
proof (cases "x = [] \<or> length x > unat kMaxEntryPayload")
  case True
  then show ?thesis using assms(1) by (simp add: Disk_Store_def)
next
  case False
  have ok: "file_ok identity content (take m (EncodeEntry ident (DigestOf ident i) i x))" for m
    using False assms(2) by (intro file_ok_prefix) simp_all
  have "file_ok identity content (EncodeEntry ident (DigestOf ident i) i x)"
    using ok [of "length (EncodeEntry ident (DigestOf ident i) i x)"] by simp
  then show ?thesis
    using Disk_Store_files [of io ident i persistable x s fs] assms(1) ok by (fastforce simp: files_ok_def)
qed

lemma files_ok_exec:
  assumes "files_ok identity content (snd d)" "disk_op_ok identity content op"
  shows "files_ok identity content (snd (disk_exec op d))"
proof (cases op)
  case (DiskLoad io ident i n)
  then show ?thesis using assms(1) Disk_Load_shrinks [of io ident i n "[]" "fst d" "snd d"] by (auto simp: files_ok_def)
next
  case (DiskStore io ident i persistable x)
  then show ?thesis using assms files_ok_store by simp
next
  case (ForeignPut p f)
  then show ?thesis using assms set_fs_put [of p f "snd d"] by (fastforce simp: files_ok_def)
qed (use assms(1) in \<open>auto simp: files_ok_def Disk_Clear_def AList.delete_eq\<close>)

lemma files_ok_execs:
  "\<forall>op\<in>set ops. disk_op_ok identity content op \<Longrightarrow> files_ok identity content (snd d) \<Longrightarrow>
    files_ok identity content (snd (fold disk_exec ops d))"
  by (induction ops arbitrary: d) (simp_all add: files_ok_exec del: split_paired_All)

section \<open>The stack keeps the contract\<close>

lemma stack_invD:
  assumes "stack_inv fair C b content I w"
  shows "store_inv (k_store w)" "consistent C (slots (k_store w))" "owners_ok b (k_mine w) (k_store w, k_theirs w)"
    "files_ok (b_identity b) content (k_files w)" "\<And>t. t \<in> set (k_turns w) \<Longrightarrow> turn_ok C b content t" "I (k_inner w)"
    "fair \<Longrightarrow> drained (block_key b i) w"
  using assms by (simp_all add: stack_inv_def shared_ok_def)

lemma take_turn_frame [simp]:
  "k_mine (take_turn t w) = k_mine w" "k_inner (take_turn t w) = k_inner w" "k_turns (take_turn t w) = k_turns w"
  "k_store (take_turn t w) = fst (fold other_exec (tn_ops t) (k_store w, k_theirs w))"
  "k_theirs (take_turn t w) = snd (fold other_exec (tn_ops t) (k_store w, k_theirs w))"
  "k_files (take_turn t w) = snd (fold disk_exec (tn_disk t) (k_disk w, k_files w))"
  by (simp_all add: take_turn_def case_prod_beta)

lemma take_turn_inv:
  assumes "stack_inv fair C b content I w" "k_turns w = t # ts"
  shows "stack_inv fair C b content I ((take_turn t w)\<lparr>k_turns := ts\<rparr>)"
proof -
  have t: "turn_ok C b content t" using stack_invD(5) [OF assms(1)] assms(2) by simp
  then have "shared_ok C b (k_mine w) (fold other_exec (tn_ops t) (k_store w, k_theirs w))"
    using assms(1) by (intro shared_execs) (simp_all add: stack_inv_def turn_ok_def)
  moreover have "files_ok (b_identity b) content (snd (fold disk_exec (tn_disk t) (k_disk w, k_files w)))"
    using t stack_invD(4) [OF assms(1)] by (intro files_ok_execs) (simp_all add: turn_ok_def)
  moreover have "drained (block_key b i) ((take_turn t w)\<lparr>k_turns := ts\<rparr>)" if fair for i
  proof -
    have "\<forall>op\<in>set (tn_ops t). other_ok b op" using t by (simp add: turn_ok_def)
    then show ?thesis
      using still_owned_execs [of "tn_ops t" b "block_key b i" "(k_store w, k_theirs w)"] stack_invD(7) [OF assms(1) that]
      by (simp add: drained_def assms(2))
  qed
  ultimately show ?thesis using assms by (simp add: stack_inv_def)
qed

lemma others_inv: "stack_inv fair C b content I w \<Longrightarrow> stack_inv fair C b content I (others w)"
  using take_turn_inv by (auto simp: others_def split: list.splits)

lemma others_mine [simp]: "k_mine (others w) = k_mine w"
  by (simp add: others_def split: list.splits)

lemma stack_inv_inner:
  "stack_inv fair C b content I w \<Longrightarrow> I v \<Longrightarrow> stack_inv fair C b content I (w\<lparr>k_inner := v\<rparr>)"
  by (simp add: stack_inv_def drained_def)

lemma stack_inv_disk:
  "stack_inv fair C b content I w \<Longrightarrow> files_ok (b_identity b) content fs \<Longrightarrow>
    stack_inv fair C b content I (w\<lparr>k_disk := d, k_files := fs\<rparr>)"
  by (simp add: stack_inv_def drained_def)

lemma stack_inv_store:
  assumes "stack_inv fair C b content I w" "store_inv s" "consistent C (slots s)"
    and "\<And>k. slots s k = Some Pending \<Longrightarrow> k \<in> k_theirs w \<or> (\<exists>i\<in>mine. k = block_key b i)"
  shows "stack_inv fair C b content I (w\<lparr>k_store := s, k_mine := mine\<rparr>)"
  using assms shared_okI [of s C "k_theirs w" mine b] by (simp add: stack_inv_def drained_def)

lemma stack_acquire_inv:
  assumes "stack_inv fair C b content I w"
  shows "stack_inv fair C b content I (snd (stack_acquire b i w))"
proof -
  note o = others_inv [OF assms]
  note inv = stack_invD [OF o]
  show ?thesis
    unfolding stack_acquire_def Let_def case_prod_beta snd_conv
    by (intro stack_inv_store [OF o] bc.acquire_inv bc.consistent_acquire inv(1,2))
      (use inv(3) in \<open>auto simp: owners_ok_def acquire_pending_iff [OF inv(1)]\<close>)
qed

lemma stack_publish_inv:
  assumes "stack_inv fair C b content I w" "x = C (block_key b i)" "length x \<le> max_block"
  shows "stack_inv fair C b content I (snd (stack_publish b i x w))"
proof -
  note o = others_inv [OF assms(1)]
  note inv = stack_invD [OF o]
  show ?thesis
    unfolding stack_publish_def Let_def case_prod_beta snd_conv
    by (intro stack_inv_store [OF o] bc.publish_inv bc.consistent_publish inv(1,2) assms(2,3))
      (use inv(3) publish_pending [OF inv(1) assms(3)] in \<open>fastforce simp: owners_ok_def\<close>)
qed

lemma stack_abandon_inv:
  assumes "stack_inv fair C b content I w"
  shows "stack_inv fair C b content I (stack_abandon b i w)"
proof -
  note o = others_inv [OF assms]
  note inv = stack_invD [OF o]
  show ?thesis
    unfolding stack_abandon_def Let_def
    by (intro stack_inv_store [OF o] conjunct1 [OF bc.abandon_law [OF inv(1)]] bc.consistent_abandon inv(1,2))
      (use inv(3) abandon_pending [OF inv(1)] in \<open>fastforce simp: owners_ok_def\<close>)
qed

text \<open>Waiting: what it returns, and that it returns when the others settle what they own.\<close>

lemma poll_inv:
  assumes "stack_inv fair C b content I w"
  shows "stack_inv fair C b content I (w\<lparr>k_store := snd (Await_poll b i (k_store w))\<rparr>)"
  using stack_inv_store [OF assms, of "snd (Await_poll b i (k_store w))" "k_mine w"] stack_invD(1-3) [OF assms]
    bc.poll_same [of "k_store w" b i]
  by (simp add: owners_ok_def)

lemma await_turns_ok:
  "stack_inv fair C b content I (w\<lparr>k_turns := ts\<rparr>) \<Longrightarrow> await_turns b i ts w = Some (r, w') \<Longrightarrow>
    stack_inv fair C b content I w' \<and> k_mine w' = k_mine w \<and> (\<forall>x. r = Some x \<longrightarrow> x = C (block_key b i))"
proof (induction b i ts w rule: await_turns.induct)
  case (1 b i ts w)
  obtain p s where p: "Await_poll b i (k_store w) = (p, s)" by fastforce
  have comm: "w\<lparr>k_store := s, k_turns := ts\<rparr> = w\<lparr>k_turns := ts, k_store := s\<rparr>" by simp
  have inv: "stack_inv fair C b content I (w\<lparr>k_store := s, k_turns := ts\<rparr>)"
    using poll_inv [OF 1(2), of i] p unfolding comm by simp
  show ?case
  proof (cases p)
    case (Some r')
    then have "r' = r" "w' = w\<lparr>k_store := s, k_turns := ts\<rparr>"
      using 1(3) p by (simp_all add: await_turns.simps [of b i ts w])
    then show ?thesis
      using inv bc.poll_Some [OF stack_invD(1,2) [OF 1(2)], of b i] p Some by simp
  next
    case None
    then obtain t ts' where ts: "ts = t # ts'" "await_turns b i ts' (take_turn t (w\<lparr>k_store := s\<rparr>)) = Some (r, w')"
      using 1(3) p by (auto simp: await_turns.simps [of b i ts w] split: list.splits)
    have "stack_inv fair C b content I ((take_turn t (w\<lparr>k_store := s, k_turns := ts\<rparr>))\<lparr>k_turns := ts'\<rparr>)"
      using inv p ts(1) by (intro take_turn_inv) simp_all
    then have "stack_inv fair C b content I ((take_turn t (w\<lparr>k_store := s\<rparr>))\<lparr>k_turns := ts'\<rparr>)"
      by (simp add: take_turn_def case_prod_beta)
    from 1(1) [OF p [symmetric] None ts(1) this ts(2)] show ?thesis by simp
  qed
qed

lemma await_turns_mine: "await_turns b i ts w = Some (r, w') \<Longrightarrow> k_mine w' = k_mine w"
proof (induction b i ts w rule: await_turns.induct)
  case (1 b i ts w)
  show ?case
    using 1(2) [unfolded await_turns.simps [of b i ts w]] 1(1)
    by (auto split: prod.splits option.splits list.splits)
qed

lemma await_turns_returns:
  "stack_inv True C b content I (w\<lparr>k_turns := ts\<rparr>) \<Longrightarrow> i \<notin> k_mine w \<Longrightarrow> await_turns b i ts w \<noteq> None"
proof (induction b i ts w rule: await_turns.induct)
  case (1 b i ts w)
  obtain p s where p: "Await_poll b i (k_store w) = (p, s)" by fastforce
  have comm: "w\<lparr>k_store := s, k_turns := ts\<rparr> = w\<lparr>k_turns := ts, k_store := s\<rparr>" by simp
  have inv: "stack_inv True C b content I (w\<lparr>k_store := s, k_turns := ts\<rparr>)"
    using poll_inv [OF 1(2), of i] p unfolding comm by simp
  show ?case
  proof (cases p)
    case (Some r)
    then show ?thesis using p by (simp add: await_turns.simps [of b i ts w])
  next
    case None
    have "slots (k_store w) (block_key b i) = Some Pending"
      using bc.poll_absent [of "k_store w" b i] bc.poll_ready [of "k_store w" b i] stack_invD(1) [OF 1(2)] p None
      by (cases "slots (k_store w) (block_key b i)"; cases "the (slots (k_store w) (block_key b i))") auto
    moreover have "block_key b i \<noteq> block_key b j" if "j \<in> k_mine w" for j
      using that 1(3) by (auto simp: block_key_def)
    ultimately have "block_key b i \<in> k_theirs w" using stack_invD(3) [OF 1(2)] by (auto simp: owners_ok_def)
    moreover have "drained (block_key b i) (w\<lparr>k_turns := ts\<rparr>)" using stack_invD(7) [OF 1(2)] by simp
    ultimately obtain t ts' where ts: "ts = t # ts'" by (cases ts) (auto simp: drained_def)
    have "stack_inv True C b content I ((take_turn t (w\<lparr>k_store := s, k_turns := ts\<rparr>))\<lparr>k_turns := ts'\<rparr>)"
      using inv ts by (intro take_turn_inv) simp_all
    then have "stack_inv True C b content I ((take_turn t (w\<lparr>k_store := s\<rparr>))\<lparr>k_turns := ts'\<rparr>)"
      by (simp add: take_turn_def case_prod_beta)
    from 1(1) [OF p [symmetric] None ts this] 1(3) show ?thesis
      using p None ts by (subst await_turns.simps) simp
  qed
qed

lemma blk_bound: "unat bs \<le> max_block \<Longrightarrow> length (blk content bs i) \<le> max_block"
  by (simp add: blk_def)

text \<open>
  The stack over a decorated reader that keeps the read contract. \<open>C\<close> assigns to every key
  of the shared store the bytes that belong to it, and to this reader's keys its blocks.
\<close>

locale cached_stack = under: asset_reader I rd content
  for I :: "'w \<Rightarrow> bool" and rd :: "'w read_fn" and content :: bytes +
  fixes meta :: AssetMetadata and impl :: CachedImpl and C :: "ShardKey \<Rightarrow> bytes" and fair :: bool
  assumes meta_size: "length content = unat (am_size meta)"
    and impl_block: "0 < unat (blockSize (ci_options impl))" "unat (blockSize (ci_options impl)) \<le> max_block"
      "id_blockSize (b_identity (ci_binding impl)) = blockSize (ci_options impl)"
    and keys: "in_asset content (blockSize (ci_options impl)) i \<Longrightarrow>
      C (block_key (ci_binding impl) i) = blk content (blockSize (ci_options impl)) i"

context cached_stack
begin

abbreviation stack_ok :: "'w stack \<Rightarrow> bool" where
  "stack_ok \<equiv> stack_inv fair C (ci_binding impl) content I"

abbreviation env :: "'w stack cached_env" where
  "env \<equiv> stack_env rd meta impl"

lemma env_bs_eq [simp]: "env_bs env = blockSize (ci_options impl)"
  by (simp add: env_bs_def stack_env_def)

lemma read_law:
  assumes "stack_ok w"
  shows "stack_ok (snd (env_read env off n w))" "\<exists>v. I v \<and> fst (env_read env off n w) = fst (rd off n v)"
proof -
  note o = others_inv [OF assms]
  show "stack_ok (snd (env_read env off n w))"
    using stack_inv_inner [OF o, of "snd (rd off n (k_inner (others w)))"] under.read_inv stack_invD(6) [OF o]
    by (simp add: stack_env_def stack_read_def Let_def case_prod_beta)
  show "\<exists>v. I v \<and> fst (env_read env off n w) = fst (rd off n v)"
    using stack_invD(6) [OF o] by (auto simp: stack_env_def stack_read_def Let_def case_prod_beta)
qed

lemma acquire_law:
  assumes "stack_ok w" "in_asset content (env_bs env) i" "acq_outcome (fst (env_acquire env i w)) = Hit"
  shows "acq_block (fst (env_acquire env i w)) = Some (blk content (env_bs env) i)"
proof -
  note o = others_inv [OF assms(1)]
  show ?thesis
    using bc.acquire_Hit [OF stack_invD(1,2) [OF o], of "ci_binding impl" i] assms(2,3) keys
    by (simp add: stack_env_def stack_acquire_def Let_def case_prod_beta env_bs_def)
qed

lemma publish_law:
  assumes "stack_ok w" "in_asset content (env_bs env) i"
  shows "stack_ok (snd (env_publish env i (blk content (env_bs env) i) w))"
  using stack_publish_inv [OF assms(1), of "blk content (env_bs env) i" i] assms(2) keys blk_bound [OF impl_block(2)]
  by (simp add: stack_env_def env_bs_def)

lemma await_law:
  assumes "stack_ok w" "in_asset content (env_bs env) i" "env_await env i w = Some (r, w')"
  shows "stack_ok w' \<and> (\<forall>x. r = Some x \<longrightarrow> x = blk content (env_bs env) i)"
  using await_turns_ok [of fair C "ci_binding impl" content I "k_turns w" w i r w'] assms keys [of i]
  by (simp add: stack_env_def stack_await_def env_bs_def)

lemma load_inv_law:
  assumes "stack_ok w"
  shows "stack_ok (snd (env_load env i n w))"
proof -
  note o = others_inv [OF assms]
  let ?l = "Disk_Load (tn_load (this_turn w)) (b_identity (ci_binding impl)) i n [] (k_disk (others w)) (k_files (others w))"
  have "files_ok (b_identity (ci_binding impl)) content (snd (snd ?l))"
    using stack_invD(4) [OF o] Disk_Load_shrinks [of "tn_load (this_turn w)" "b_identity (ci_binding impl)" i n "[]"
      "k_disk (others w)" "k_files (others w)"] by (auto simp: files_ok_def)
  then show ?thesis
    using stack_inv_disk [OF o] by (simp add: stack_env_def stack_load_def Let_def case_prod_beta)
qed

lemma load_law:
  assumes "stack_ok w" "in_asset content (env_bs env) i"
    and "fst (env_load env i (ext_length (extent env i)) w) = Some x"
  shows "x = blk content (env_bs env) i"
proof -
  let ?id = "b_identity (ci_binding impl)" and ?n = "ext_length (extent env i)"
  note o = others_inv [OF assms(1)]
  obtain d fs' where "Disk_Load (tn_load (this_turn w)) ?id i ?n [] (k_disk (others w)) (k_files (others w)) = ((True, x), d, fs')"
    using assms(3) by (auto simp: stack_env_def stack_load_def Let_def case_prod_beta prod_eq_iff split: if_splits)
  then obtain p f where f: "(p, f) \<in> set (k_files (others w))" "entry_sound (f_bytes f)"
      "segment (f_bytes f) 40 32 = DigestOf ?id i" "ReadLittleEndian64 (drop 24 (f_bytes f)) = i"
      "length (f_bytes f) = 88 + unat ?n" "x = drop 88 (f_bytes f)"
    using Disk_Load_payload by blast
  have "length content < 2 ^ 64" using meta_size unat_u64_less [of "am_size meta"] by simp
  then have "unat i * unat (blockSize (ci_options impl)) < 2 ^ 64"
    using assms(2) unfolding in_asset_def env_bs_eq by linarith
  from ExtentOf_unat(2) [OF this, of "am_size meta"]
  have "unat ?n = length (blk content (env_bs env) i)"
    using meta_size by (simp add: extent_def stack_env_def env_bs_def blk_def min.commute)
  moreover have "file_ok ?id content (f_bytes f)"
    using bspec [OF stack_invD(4) [OF o, unfolded files_ok_def] f(1)] by simp
  ultimately show ?thesis
    using f(2-6) assms(2) unfolding file_ok_def impl_block(3) env_bs_eq by metis
qed

lemma store_law:
  assumes "stack_ok w" "in_asset content (env_bs env) i"
  shows "stack_ok (snd (env_store env i (blk content (env_bs env) i) w))"
proof -
  note o = others_inv [OF assms(1)]
  let ?s = "Disk_Store (tn_store (this_turn w)) (b_identity (ci_binding impl)) i (ci_persistable impl)
    (blk content (env_bs env) i) (k_disk (others w)) (k_files (others w))"
  have "files_ok (b_identity (ci_binding impl)) content (snd (snd ?s))"
    using stack_invD(4) [OF o] impl_block(3) by (intro files_ok_store) simp_all
  then show ?thesis
    using stack_inv_disk [OF o] by (simp add: stack_env_def stack_store_def Let_def case_prod_beta env_bs_def)
qed

lemma mine_laws:
  "k_mine (snd (env_publish env i x w)) = k_mine w - {i}" "k_mine (env_abandon env i w) = k_mine w - {i}"
  "k_mine (snd (env_read env off n w)) = k_mine w" "k_mine (snd (env_load env i n w)) = k_mine w"
  "k_mine (snd (env_store env i x w)) = k_mine w"
  "k_mine (snd (env_acquire env i w)) =
     (if acq_outcome (fst (env_acquire env i w)) = Owned then insert i (k_mine w) else k_mine w)"
  by (simp_all add: stack_env_def stack_publish_def stack_abandon_def stack_read_def stack_load_def stack_store_def
      stack_acquire_def Let_def case_prod_beta)

lemma await_mine: "env_await env i w = Some (r, w') \<Longrightarrow> k_mine w' = k_mine w"
  using await_turns_mine [of "ci_binding impl" i "k_turns w" w r w'] by (simp add: stack_env_def stack_await_def)

end

sublocale cached_stack \<subseteq> world: cached_world "stack_inv fair C (ci_binding impl) content I" "stack_env rd meta impl" content k_mine
proof unfold_locales
  fix w :: "'w stack" and off n i x r w'
  assume inv: "stack_ok w"
  obtain v where v: "I v" "fst (env_read env off n w) = fst (rd off n v)" using read_law(2) [OF inv] by blast
  show "length (snd (fst (env_read env off n w))) = unat (bytesRead (fst (fst (env_read env off n w)))) \<and>
      length (snd (fst (env_read env off n w))) \<le> unat n"
    unfolding v(2) by (rule under.read_delivers [OF v(1)])
  show "snd (fst (env_read env off n w)) = segment content (unat off) (unat n)"
    if "IsOk (rr_status (fst (fst (env_read env off n w))))"
    using under.read_ok [OF v(1)] that unfolding v(2) by blast
  show "code (rr_status (fst (fst (env_read env off n w)))) = InvalidArgument" if "2 ^ 64 \<le> unat off + unat n"
    using under.read_overflow [OF v(1)] that unfolding v(2) by blast
  show "stack_ok (snd (env_acquire env i w))" "stack_ok (env_abandon env i w)"
    using stack_acquire_inv [OF inv] stack_abandon_inv [OF inv] by (simp_all add: stack_env_def)
  show "x = blk content (env_bs env) i"
    if "in_asset content (env_bs env) i" "acq_outcome (fst (env_acquire env i w)) = Hit"
      "acq_block (fst (env_acquire env i w)) = Some x"
    using acquire_law [OF inv that(1,2)] that(3) by simp
next
  show "length content = unat (am_size (env_meta env))" "0 < unat (env_bs env)" "unat (env_bs env) \<le> max_block"
    using meta_size impl_block(1,2) by (simp_all add: stack_env_def env_bs_def)
qed (fact read_law(1) publish_law load_inv_law load_law store_law mine_laws(1-5) await_mine | rule mine_laws(6) | use await_law in blast)+

context cached_stack
begin

lemmas stacked_read_ok = world.CachedRead_ok
lemmas stacked_read_total = world.CachedRead_total

end

end
