(* ===== verification/LocalReader.thy ===== *)
theory LocalReader
  imports AssetReader Metrics
begin

text \<open>
  \<open>libs/usd-asset-local\<close>: the local file backend (\<open>LocalAssetReader.cpp\<close>, and the POSIX branch
  of \<open>PlatformFile.cpp\<close>). The file system is the rest of the world: a file has bytes and an
  identity, and every system call on the open handle meets an event that says whether
  another process rewrote the file just before it, how many bytes a \<open>pread\<close> delivers at
  most, and which calls fail. After the last event nothing changes and nothing fails. The
  interpretation \<open>local\<close> shows that the reader keeps the read contract, provided that equal
  identities mean equal bytes, which is what the backend claims by a strong validator.
\<close>

section \<open>Platform layer\<close>

record FileIdentity =
  fi_size :: u64
  fi_deviceId :: u64
  fi_fileId :: u64
  fi_modifiedTicks :: u64

definition FileIdentity_eq :: "FileIdentity \<Rightarrow> FileIdentity \<Rightarrow> bool" where
  "FileIdentity_eq lhs rhs \<longleftrightarrow> fi_size lhs = fi_size rhs \<and> fi_deviceId lhs = fi_deviceId rhs \<and>
     fi_fileId lhs = fi_fileId rhs \<and> fi_modifiedTicks lhs = fi_modifiedTicks rhs"

definition FormatIdentity :: "FileIdentity \<Rightarrow> string" where
  "FormatIdentity identity = to_dec (unat (fi_deviceId identity)) @ '':'' @ to_dec (unat (fi_fileId identity)) @
     '':'' @ to_dec (unat (fi_size identity)) @ '':'' @ to_dec (unat (fi_modifiedTicks identity))"

definition WithPath :: "string \<Rightarrow> string \<Rightarrow> string" where
  "WithPath what path = what @ '': '' @ ElideSecrets path"

datatype errno = ENOENT | ENOTDIR | ENAMETOOLONG | EACCES | EPERM | EISDIR | EINTR | Errno int

text \<open>The numbers Linux assigns.\<close>

primrec errno_value :: "errno \<Rightarrow> int" where
  "errno_value EPERM = 1"
| "errno_value ENOENT = 2"
| "errno_value EINTR = 4"
| "errno_value EACCES = 13"
| "errno_value ENOTDIR = 20"
| "errno_value EISDIR = 21"
| "errno_value ENAMETOOLONG = 36"
| "errno_value (Errno n) = n"

definition MapErrno :: "errno \<Rightarrow> string \<Rightarrow> Status" where
  "MapErrno error path =
    (case error of
       ENOENT \<Rightarrow> Status_Error NotFound (WithPath ''no such asset'' path)
     | ENOTDIR \<Rightarrow> Status_Error NotFound (WithPath ''no such asset'' path)
     | ENAMETOOLONG \<Rightarrow> Status_Error NotFound (WithPath ''no such asset'' path)
     | EACCES \<Rightarrow> Status_Error AccessDenied (WithPath ''asset is not readable by this process'' path)
     | EPERM \<Rightarrow> Status_Error AccessDenied (WithPath ''asset is not readable by this process'' path)
     | EISDIR \<Rightarrow> Status_Error InvalidArgument (WithPath ''asset identifier names a directory'' path)
     | _ \<Rightarrow> WithTransportStatus (errno_value error)
              (Status_Error NetworkError (WithPath ''filesystem error opening asset'' path)))"

record file_state =
  fl_bytes :: bytes
  fl_identity :: FileIdentity

record sys_event =
  ev_rewrite :: "file_state option"
  ev_pread :: "errno + nat"
  ev_stat :: "errno option"
  ev_startNs :: u64
  ev_endNs :: u64

definition calm_event :: sys_event where
  "calm_event = \<lparr>ev_rewrite = None, ev_pread = Inr (2 ^ 64), ev_stat = None, ev_startNs = 0, ev_endNs = 0\<rparr>"

definition file_after :: "sys_event \<Rightarrow> file_state \<Rightarrow> file_state" where
  "file_after e f = (case ev_rewrite e of None \<Rightarrow> f | Some f' \<Rightarrow> f')"

text \<open>One \<open>pread\<close>: at least a byte when the file has one there, at most what was asked for.\<close>

definition pread :: "nat \<Rightarrow> file_state \<Rightarrow> u64 \<Rightarrow> u64 \<Rightarrow> bytes" where
  "pread limit f n off = take (max 1 limit) (segment (fl_bytes f) (unat off) (unat n))"

type_synonym world = "file_state \<times> sys_event list"

text \<open>The call is repeated while it is interrupted.\<close>

fun pread_retry :: "u64 \<Rightarrow> u64 \<Rightarrow> file_state \<Rightarrow> sys_event list \<Rightarrow> (errno + bytes) \<times> sys_event \<times> world" where
  "pread_retry n off f [] = (Inr (pread (unat n) f n off), calm_event, (f, []))"
| "pread_retry n off f (e # es) =
    (let f' = file_after e f
     in case ev_pread e of
          Inl error \<Rightarrow> if error = EINTR then pread_retry n off f' es else (Inl error, e, (f', es))
        | Inr limit \<Rightarrow> (Inr (pread limit f' n off), e, (f', es)))"

definition PositionalRead :: "u64 \<Rightarrow> u64 \<Rightarrow> world \<Rightarrow> (Status \<times> bytes) \<times> sys_event \<times> world" where
  "PositionalRead n off w =
    (case pread_retry n off (fst w) (snd w) of
       (Inl error, e, w') \<Rightarrow>
         ((WithTransportStatus (errno_value error)
             (WithRange off n (Status_Error NetworkError ''filesystem error reading asset'')), []), e, w')
     | (Inr xs, e, w') \<Rightarrow> ((Status_Ok, xs), e, w'))"

definition Stat :: "world \<Rightarrow> (Status + FileIdentity) \<times> world" where
  "Stat w =
    (case snd w of
       [] \<Rightarrow> (Inr (fl_identity (fst w)), w)
     | e # es \<Rightarrow>
         let f' = file_after e (fst w)
         in (case ev_stat e of
               Some error \<Rightarrow> Inl (WithTransportStatus (errno_value error)
                               (Status_Error NetworkError ''filesystem error reading asset metadata''))
             | None \<Rightarrow> Inr (fl_identity f'), (f', es)))"

text \<open>
  Opening: the answers to the successive \<open>open\<close> calls (a success after the last one), and
  whether the handle names a directory.
\<close>

primrec open_retry :: "errno option list \<Rightarrow> errno option" where
  "open_retry [] = None"
| "open_retry (a # as) = (if a = Some EINTR then open_retry as else a)"

definition OpenForRead :: "string \<Rightarrow> errno option list \<Rightarrow> bool \<Rightarrow> Status" where
  "OpenForRead path answers is_dir =
    (case open_retry answers of
       Some error \<Rightarrow> MapErrno error path
     | None \<Rightarrow> if is_dir then Status_Error InvalidArgument (WithPath ''asset identifier names a directory'' path)
               else Status_Ok)"

section \<open>The reader\<close>

record LocalReader =
  lr_metadata :: AssetMetadata
  lr_openIdentity :: FileIdentity
  lr_metrics :: ReaderMetrics

text \<open>
  The transfer loop. \<open>out\<close> are the bytes placed in the buffer so far, so its length is the
  source's \<open>done\<close>; \<open>fault\<close> is the test hook that shortens requests.
\<close>

function local_loop :: "(u64 \<Rightarrow> u64 \<Rightarrow> u64) option \<Rightarrow> u64 \<Rightarrow> u64 \<Rightarrow> bytes \<Rightarrow> ReaderMetrics \<Rightarrow> world \<Rightarrow>
    bytes \<times> Status \<times> ReaderMetrics \<times> world" where
  "local_loop fault len off out m w =
    (if \<not> length out < unat len then (out, Status_Ok, m, w)
     else
       let at = off + of_nat (length out);
           rest = len - of_nat (length out);
           want = (case fault of None \<Rightarrow> rest | Some f \<Rightarrow> min rest (f at rest))
       in if want = 0 then (out, Status_Ok, m, w)
          else
            let ((transport, xs), e, w') = PositionalRead want at w;
                m1 = AddRequest 1 m;
                m2 = m1\<lparr>rm_requestLatency := ScopedLatency_record (ev_startNs e) (ev_endNs e) (rm_requestLatency m1)\<rparr>;
                m3 = AddBytesTransferred (of_nat (length xs)) m2
            in if \<not> IsOk transport then (out @ xs, transport, m3, w')
               else if xs = [] then (out, transport, m3, w')
               else local_loop fault len off (out @ xs) m3 w')"
  by pat_completeness auto
termination
  by (relation "measure (\<lambda>(fault, len, off, out, m, w). unat len - length out)")
    (auto intro!: diff_less_mono2)

declare local_loop.simps [simp del]

definition Local_Read :: "(u64 \<Rightarrow> u64 \<Rightarrow> u64) option \<Rightarrow> u64 \<Rightarrow> u64 \<Rightarrow> bool \<Rightarrow> u64 \<Rightarrow> u64 \<Rightarrow> LocalReader \<times> world \<Rightarrow>
    (ReadResult \<times> bytes) \<times> LocalReader \<times> world" where
  "Local_Read fault startNs endNs dst_null offset sz rw =
    (let (r, w) = rw;
         m0 = AddBytesRequested sz (lr_metrics r);
         rng = ResolveReadRange offset sz (am_size (lr_metadata r));
         finish = (\<lambda>res m w'.
           (res, r\<lparr>lr_metrics := m\<lparr>rm_readLatency := ScopedLatency_record startNs endNs (rm_readLatency m)\<rparr>\<rparr>, w'))
     in if outcome rng = Overflow then finish (fails (OverflowStatus offset sz)) m0 w
        else if sz > 0 \<and> dst_null
        then finish (fails (WithRange offset sz (Status_Error InvalidArgument ''read destination buffer is null''))) m0 w
        else if outcome rng = Empty then finish (ReadResult_of 0 Status_Ok, []) m0 w
        else
          let (out, transport, m1, w1) = local_loop fault (range_length rng) offset [] m0 w;
              (current, w2) = Stat w1;
              m2 = AddMetadataRequest 1 m1;
              done = of_nat (length out)
          in if (case current of Inl e \<Rightarrow> False | Inr identity \<Rightarrow> \<not> FileIdentity_eq identity (lr_openIdentity r))
             then finish (fails (WithRange offset sz (Status_Error AssetChanged
                    (''asset was republished while it was open ('' @
                     ElideSecrets (resolvedIdentifier (lr_metadata r)) @ '')'')))) m2 w2
             else if \<not> IsOk transport then finish (ReadResult_of done transport, out) m2 w2
             else if done < range_length rng
             then finish (ReadResult_of done (ShortReadStatus offset (range_length rng) done
                    (resolvedIdentifier (lr_metadata r))), out) m2 w2
             else finish (ReadResult_of done Status_Ok, out) m2 w2)"

definition local_metadata :: "string \<Rightarrow> FileIdentity \<Rightarrow> AssetMetadata" where
  "local_metadata path identity =
    (let validator = \<lparr>v_value = FormatIdentity identity, v_kind = Derived, v_strength = Strong\<rparr>
     in \<lparr>resolvedIdentifier = path, am_size = fi_size identity, supportsRandomAccess = True,
         am_validator = validator, am_stability = ClassifyStability validator, contentType = ''''\<rparr>)"

definition LocalImpl_new :: "AssetMetadata \<Rightarrow> FileIdentity \<Rightarrow> LocalReader" where
  "LocalImpl_new metadata identity =
    \<lparr>lr_metadata = metadata, lr_openIdentity = identity,
     lr_metrics = SetAssetSize (am_size metadata) (ReaderMetrics_new (resolvedIdentifier metadata))\<rparr>"

definition Local_Open :: "string \<Rightarrow> errno option list \<Rightarrow> bool \<Rightarrow> u64 \<Rightarrow> world \<Rightarrow> (LocalReader option \<times> Status) \<times> world" where
  "Local_Open path answers is_dir elapsedUs w =
    (let status = OpenForRead path answers is_dir
     in if \<not> IsOk status then ((None, status), w)
        else case Stat w of
               (Inl status, w') \<Rightarrow> ((None, status), w')
             | (Inr identity, w') \<Rightarrow>
                 let r = LocalImpl_new (local_metadata path identity) identity;
                     m = AddMetadataRequest 1 (lr_metrics r)
                 in ((Some (r\<lparr>lr_metrics := m\<lparr>rm_openLatency := Record elapsedUs (rm_openLatency m)\<rparr>\<rparr>), Status_Ok), w'))"

section \<open>The revision a reader is bound to\<close>

text \<open>
  What a strong validator claims: whenever the file has the identity captured at open it
  has the bytes of that revision, and a revision that was replaced does not come back;
  and the \<open>fstat\<close> of the open handle does not fail.
\<close>

primrec revisions_ok :: "FileIdentity \<Rightarrow> bytes \<Rightarrow> file_state \<Rightarrow> sys_event list \<Rightarrow> bool" where
  "revisions_ok ident content f [] \<longleftrightarrow> (fl_identity f = ident \<longrightarrow> fl_bytes f = content)"
| "revisions_ok ident content f (e # es) \<longleftrightarrow>
    (fl_identity f = ident \<longrightarrow> fl_bytes f = content) \<and> ev_stat e = None \<and>
    (fl_identity (file_after e f) = ident \<longrightarrow> fl_identity f = ident) \<and>
    revisions_ok ident content (file_after e f) es"

lemma FileIdentity_eq_iff [simp]: "FileIdentity_eq x y \<longleftrightarrow> x = y"
  by (auto simp: FileIdentity_eq_def)

lemma revisions_ok_now: "revisions_ok ident content f es \<Longrightarrow> fl_identity f = ident \<Longrightarrow> fl_bytes f = content"
  by (cases es) auto

lemma pread_prefix: "\<exists>k \<le> unat n. pread limit f n off = segment (fl_bytes f) (unat off) k"
  by (intro exI [of _ "min (max 1 limit) (unat n)"]) (simp add: pread_def take_segment)

lemma pread_retry_ok:
  assumes "pread_retry n off f es = (r, e, (f', es'))" "revisions_ok ident content f es"
  shows "revisions_ok ident content f' es' \<and> (fl_identity f' = ident \<longrightarrow> fl_identity f = ident) \<and>
    (case r of Inl error \<Rightarrow> True | Inr xs \<Rightarrow> \<exists>k \<le> unat n. xs = segment (fl_bytes f') (unat off) k)"
  using assms
proof (induction n off f es rule: pread_retry.induct)
  case (1 n off f)
  then show ?case using pread_prefix [of n "unat n" f off] by clarsimp blast
next
  case (2 n off f e es)
  show ?case
  proof (cases "ev_pread e")
    case (Inl error)
    show ?thesis
    proof (cases "error = EINTR")
      case True
      then show ?thesis using 2(1) [OF refl Inl True] 2(2,3) Inl by (simp add: Let_def)
    next
      case False
      then show ?thesis using 2(2,3) Inl by (clarsimp simp: Let_def)
    qed
  next
    case (Inr limit)
    then show ?thesis using 2(2,3) pread_prefix [of n limit "file_after e f" off] by (clarsimp simp: Let_def) blast
  qed
qed

lemma PositionalRead_ok:
  assumes "PositionalRead n off (f, es) = ((st, xs), e, (f', es'))" "revisions_ok ident content f es"
  shows "revisions_ok ident content f' es' \<and> (fl_identity f' = ident \<longrightarrow> fl_identity f = ident) \<and>
    (\<exists>k \<le> unat n. xs = segment (fl_bytes f') (unat off) k) \<and> (IsOk st \<or> code st = NetworkError)"
  using assms pread_retry_ok [of n off f es _ e f' es' ident content]
  by (fastforce simp: PositionalRead_def IsOk_def split: prod.splits sum.splits)

definition loop_want :: "(u64 \<Rightarrow> u64 \<Rightarrow> u64) option \<Rightarrow> u64 \<Rightarrow> u64 \<Rightarrow> bytes \<Rightarrow> u64" where
  "loop_want fault len off out =
    (let rest = len - of_nat (length out)
     in case fault of None \<Rightarrow> rest | Some f \<Rightarrow> min rest (f (off + of_nat (length out)) rest))"

lemma below_u64:
  assumes "n \<le> unat (x :: u64)"
  shows "n < 2 ^ 64"
  using le_less_trans [OF assms unat_u64_less] by simp

lemma loop_want_le:
  assumes "length out \<le> unat len"
  shows "unat (loop_want fault len off out) \<le> unat len - length out"
proof -
  have l: "unat (of_nat (length out) :: u64) = length out" using below_u64 [OF assms] by simp
  have "unat (len - of_nat (length out)) = unat len - length out"
    using assms l by (subst unat_u64_sub) (simp_all add: word_le_nat_alt)
  then show ?thesis by (auto simp: loop_want_def Let_def min_def word_le_nat_alt split: option.split)
qed

lemma local_loop_stop:
  "\<not> length out < unat len \<or> loop_want fault len off out = 0 \<Longrightarrow> local_loop fault len off out m w = (out, Status_Ok, m, w)"
  by (subst local_loop.simps) (auto simp: loop_want_def Let_def)

lemma local_loop_go:
  assumes "length out < unat len" "loop_want fault len off out \<noteq> 0"
    and "PositionalRead (loop_want fault len off out) (off + of_nat (length out)) w = ((st, xs), e, w')"
  obtains m3 where "local_loop fault len off out m w =
    (if \<not> IsOk st then (out @ xs, st, m3, w') else if xs = [] then (out, st, m3, w')
     else local_loop fault len off (out @ xs) m3 w')"
proof
  show "local_loop fault len off out m w =
    (if \<not> IsOk st then (out @ xs, st, AddBytesTransferred (of_nat (length xs)) ((AddRequest 1 m)
         \<lparr>rm_requestLatency := ScopedLatency_record (ev_startNs e) (ev_endNs e) (rm_requestLatency (AddRequest 1 m))\<rparr>), w')
     else if xs = [] then (out, st, AddBytesTransferred (of_nat (length xs)) ((AddRequest 1 m)
         \<lparr>rm_requestLatency := ScopedLatency_record (ev_startNs e) (ev_endNs e) (rm_requestLatency (AddRequest 1 m))\<rparr>), w')
     else local_loop fault len off (out @ xs) (AddBytesTransferred (of_nat (length xs)) ((AddRequest 1 m)
         \<lparr>rm_requestLatency := ScopedLatency_record (ev_startNs e) (ev_endNs e) (rm_requestLatency (AddRequest 1 m))\<rparr>)) w')"
    using assms by (subst local_loop.simps) (simp add: loop_want_def Let_def)
qed

lemma segment_extend:
  assumes "out = segment content off (length out)" "xs = segment content (off + length out) k"
  shows "out @ xs = segment content off (length out + k)"
  using assms segment_append by metis

lemma local_loop_ok:
  assumes "unat off + unat len < 2 ^ 64"
  shows "local_loop fault len off out m (f, es) = (out', st, m', (f', es')) \<Longrightarrow>
    revisions_ok ident content f es \<Longrightarrow> length out \<le> unat len \<Longrightarrow>
    fl_identity f = ident \<longrightarrow> out = segment content (unat off) (length out) \<Longrightarrow>
    revisions_ok ident content f' es' \<and> (fl_identity f' = ident \<longrightarrow> fl_identity f = ident) \<and>
    length out' \<le> unat len \<and> (IsOk st \<or> code st = NetworkError) \<and>
    (fl_identity f' = ident \<longrightarrow> out' = segment content (unat off) (length out'))"
proof (induction "unat len - length out" arbitrary: out m f es rule: less_induct)
  case less
  let ?want = "loop_want fault len off out"
  show ?case
  proof (cases "length out < unat len \<and> ?want \<noteq> 0")
    case False
    then show ?thesis using less.prems local_loop_stop [of out len fault off m "(f, es)"] by (auto simp: IsOk_def)
  next
    case True
    obtain st1 xs e f1 es1 where p: "PositionalRead ?want (off + of_nat (length out)) (f, es) = ((st1, xs), e, (f1, es1))"
      by (metis prod.exhaust)
    note ok = PositionalRead_ok [OF p less.prems(2)]
    obtain m3 where step: "local_loop fault len off out m (f, es) =
      (if \<not> IsOk st1 then (out @ xs, st1, m3, (f1, es1)) else if xs = [] then (out, st1, m3, (f1, es1))
       else local_loop fault len off (out @ xs) m3 (f1, es1))"
      using local_loop_go [OF conjunct1 [OF True] conjunct2 [OF True] p] by blast
    have "length xs \<le> unat ?want" using ok by auto
    then have len: "length (out @ xs) \<le> unat len" using loop_want_le [OF less.prems(3), of fault off] less.prems(3) by simp
    have at: "unat (off + of_nat (length out)) = unat off + length out"
      using assms less.prems(3) below_u64 [OF less.prems(3)] by (subst unat_u64_add) simp_all
    have grow: "out @ xs = segment content (unat off) (length (out @ xs))" if f1: "fl_identity f1 = ident"
    proof -
      obtain k where "xs = segment content (unat off + length out) k"
        using ok revisions_ok_now [OF conjunct1 [OF ok] f1] at by auto
      then have "out @ xs = segment content (unat off) (length out + k)"
        using segment_extend less.prems(4) ok f1 by blast
      then show ?thesis by (metis length_segment segment_clip min.commute)
    qed
    show ?thesis
    proof (cases "IsOk st1 \<and> xs \<noteq> []")
      case False
      then have "local_loop fault len off out m (f, es) = (out @ xs, st1, m3, (f1, es1))" using step by auto
      then have "out' = out @ xs" "st = st1" "f' = f1" "es' = es1" using less.prems(1) by simp_all
      then show ?thesis using ok len grow by blast
    next
      case go: True
      then have "unat len - length (out @ xs) < unat len - length out" using True len by (intro diff_less_mono2) auto
      moreover have "local_loop fault len off (out @ xs) m3 (f1, es1) = (out', st, m', f', es')"
        using step go less.prems(1) by simp
      ultimately show ?thesis using less.hyps [OF _ _ conjunct1 [OF ok] len] grow ok by blast
    qed
  qed
qed

section \<open>The read contract\<close>

definition local_inv :: "FileIdentity \<Rightarrow> bytes \<Rightarrow> LocalReader \<times> world \<Rightarrow> bool" where
  "local_inv ident content rw \<longleftrightarrow> lr_openIdentity (fst rw) = ident \<and>
     unat (am_size (lr_metadata (fst rw))) = length content \<and> revisions_ok ident content (fst (snd rw)) (snd (snd rw))"

lemma Stat_ok:
  assumes "Stat (f, es) = (r, (f', es'))" "revisions_ok ident content f es"
  shows "revisions_ok ident content f' es' \<and> (fl_identity f' = ident \<longrightarrow> fl_identity f = ident) \<and> r = Inr (fl_identity f')"
  using assms by (cases es) (auto simp: Stat_def Let_def)

text \<open>The answers of a read, one case per return statement.\<close>

lemma Local_Read_cases:
  assumes "local_inv ident content (r, w)" "Local_Read fault t0 t1 null off sz (r, w) = ((res, xs), (r', w'))"
  obtains (refused) "2 ^ 64 \<le> unat off + unat sz \<or> null \<and> 0 < sz" "xs = []" "bytesRead res = 0"
      "code (rr_status res) = InvalidArgument" "local_inv ident content (r', w')"
    | (empty) "unat off + unat sz < 2 ^ 64" "\<not> (null \<and> 0 < sz)" "xs = []" "bytesRead res = 0" "rr_status res = Status_Ok"
      "segment content (unat off) (unat sz) = []" "local_inv ident content (r', w')"
    | (changed) "unat off + unat sz < 2 ^ 64" "\<not> (null \<and> 0 < sz)" "xs = []" "bytesRead res = 0" "code (rr_status res) = AssetChanged"
      "local_inv ident content (r', w')"
    | (failed) "unat off + unat sz < 2 ^ 64" "\<not> (null \<and> 0 < sz)" "length xs \<le> unat sz" "unat (bytesRead res) = length xs" "\<not> IsOk (rr_status res)"
      "code (rr_status res) \<in> {NetworkError, InvalidResponse}" "local_inv ident content (r', w')"
    | (complete) "unat off + unat sz < 2 ^ 64" "\<not> (null \<and> 0 < sz)" "unat (bytesRead res) = length xs"
      "rr_status res = Status_Ok" "xs = segment content (unat off) (unat sz)" "local_inv ident content (r', w')"
proof -
  define rng where "rng = ResolveReadRange off sz (am_size (lr_metadata r))"
  obtain f es where w: "w = (f, es)" by fastforce
  have inv: "lr_openIdentity r = ident" "unat (am_size (lr_metadata r)) = length content"
    "revisions_ok ident content f es" using assms(1) w by (simp_all add: local_inv_def)
  note read = assms(2) [unfolded Local_Read_def Let_def split w, folded rng_def]
  consider "outcome rng = Overflow" | "outcome rng \<noteq> Overflow" "null \<and> 0 < sz"
    | "outcome rng = Empty" "\<not> (null \<and> 0 < sz)" | "outcome rng = Transfer" "\<not> (null \<and> 0 < sz)"
    by (cases "outcome rng") auto
  then show thesis
  proof cases
    case 1
    then have "2 ^ 64 \<le> unat off + unat sz" by (simp add: rng_def ResolveReadRange_overflow)
    then show thesis using refused read 1 inv by (auto simp: fails_def local_inv_def)
  next
    case 2
    then show thesis using refused read inv by (auto simp: fails_def local_inv_def)
  next
    case 3
    then have "unat off + unat sz < 2 ^ 64" "segment content (unat off) (unat sz) = []"
      using inv(2) by (auto simp: rng_def ResolveReadRange_empty)
    then show thesis using empty read 3 inv by (auto simp: local_inv_def)
  next
    case 4
    then have no: "unat off + unat sz < 2 ^ 64" by (simp add: rng_def ResolveReadRange_transfer)
    note no = no 4(2)
    have len: "unat (range_length rng) = min (unat sz) (length content - unat off)"
      using 4(1) inv(2) by (simp add: rng_def ResolveReadRange_length)
    obtain out st m1 f1 es1 where l: "local_loop fault (range_length rng) off [] (AddBytesRequested sz (lr_metrics r)) (f, es)
        = (out, st, m1, (f1, es1))" by (metis prod.exhaust)
    have ok: "revisions_ok ident content f1 es1" "length out \<le> unat (range_length rng)" "IsOk st \<or> code st = NetworkError"
      "fl_identity f1 = ident \<longrightarrow> out = segment content (unat off) (length out)"
      using local_loop_ok [OF _ l inv(3)] no len by simp_all
    obtain cur f2 es2 where s: "Stat (f1, es1) = (cur, (f2, es2))" by (metis prod.exhaust)
    note stat = Stat_ok [OF s ok(1)]
    have small: "unat (of_nat (length out) :: u64) = length out" using below_u64 [OF ok(2)] by simp
    have bound: "length out \<le> unat sz" using ok(2) len by simp
    have whole: "out = segment content (unat off) (unat sz)" if "fl_identity f2 = ident" "\<not> (of_nat (length out) :: u64) < range_length rng"
    proof -
      have "length out = min (unat sz) (length content - unat off)"
        using that(2) ok(2) small len unfolding word_less_nat_alt by linarith
      then show ?thesis using ok(4) stat that(1) segment_clip by metis
    qed
    have cur: "cur = Inr (fl_identity f2)" using stat by blast
    have "w' = (f2, es2)" "lr_openIdentity r' = ident" "lr_metadata r' = lr_metadata r"
      using read 4 inv(1) by (simp_all add: l s cur split: if_splits) auto
    then have inv': "local_inv ident content (r', w')" using stat inv(2) by (simp add: local_inv_def)
    consider "fl_identity f2 \<noteq> ident" | "fl_identity f2 = ident" "\<not> IsOk st"
      | "fl_identity f2 = ident" "IsOk st" "(of_nat (length out) :: u64) < range_length rng"
      | "fl_identity f2 = ident" "IsOk st" "\<not> (of_nat (length out) :: u64) < range_length rng" by blast
    then show thesis
    proof cases
      case 1
      then have "xs = []" "bytesRead res = 0" "code (rr_status res) = AssetChanged"
        using read 4 inv(1) by (auto simp: l s cur fails_def)
      then show thesis using changed no inv' by simp
    next
      case 2
      then have "res = ReadResult_of (of_nat (length out)) st" "xs = out" using read 4 inv(1) by (auto simp: l s cur)
      then show thesis using failed no inv' bound small 2 ok(3) by simp
    next
      case 3
      then have "unat (bytesRead res) = length out" "code (rr_status res) = InvalidResponse" "xs = out"
        using read 4 inv(1) small by (auto simp: l s cur)
      then show thesis using failed no inv' bound by (simp add: IsOk_def)
    next
      case 4
      then have "res = ReadResult_of (of_nat (length out)) Status_Ok" "xs = out"
        using read \<open>outcome rng = Transfer\<close> \<open>\<not> (null \<and> 0 < sz)\<close> inv(1) by (auto simp: l s cur)
      then show thesis using complete no inv' small whole 4 by simp
    qed
  qed
qed

interpretation local: asset_reader "local_inv ident content" "Local_Read fault t0 t1 False" content
proof
  fix rw off n
  assume inv: "local_inv ident content rw"
  obtain r w where rw: "rw = (r, w)" by (rule prod.exhaust)
  obtain res xs r' w' where read: "Local_Read fault t0 t1 False off n (r, w) = ((res, xs), (r', w'))" by (metis prod.exhaust)
  note cases = Local_Read_cases [OF inv [unfolded rw] read]
  show "local_inv ident content (snd (Local_Read fault t0 t1 False off n rw))"
    by (rule cases) (simp_all add: rw read)
  show "length (snd (fst (Local_Read fault t0 t1 False off n rw))) =
        unat (bytesRead (fst (fst (Local_Read fault t0 t1 False off n rw)))) \<and>
      length (snd (fst (Local_Read fault t0 t1 False off n rw))) \<le> unat n"
    by (rule cases) (simp_all add: rw read)
  show "snd (fst (Local_Read fault t0 t1 False off n rw)) = segment content (unat off) (unat n)"
    if "IsOk (rr_status (fst (fst (Local_Read fault t0 t1 False off n rw))))"
    by (rule cases) (use that in \<open>auto simp: rw read IsOk_def\<close>)
  show "code (rr_status (fst (fst (Local_Read fault t0 t1 False off n rw)))) = InvalidArgument" if "2 ^ 64 \<le> unat off + unat n"
    by (rule cases) (use that in \<open>auto simp: rw read\<close>)
qed


definition sample_file :: file_state where
  "sample_file = \<lparr>fl_bytes = [10, 20, 30, 40], fl_identity = \<lparr>fi_size = 4, fi_deviceId = 1, fi_fileId = 2, fi_modifiedTicks = 3\<rparr>\<rparr>"

definition sample_reader :: LocalReader where
  "sample_reader = LocalImpl_new (local_metadata ''a.usd'' (fl_identity sample_file)) (fl_identity sample_file)"

lemma sample_local_inv: "local_inv (fl_identity sample_file) (fl_bytes sample_file) (sample_reader, (sample_file, []))"
  by (simp add: local_inv_def sample_reader_def LocalImpl_new_def local_metadata_def Let_def sample_file_def)

section \<open>Completion\<close>

text \<open>Nobody touches the file and calls fail at most by being interrupted.\<close>

definition steady :: "sys_event list \<Rightarrow> bool" where
  "steady es \<longleftrightarrow> (\<forall>e\<in>set es. ev_rewrite e = None \<and> ev_stat e = None \<and>
     (case ev_pread e of Inl error \<Rightarrow> error = EINTR | Inr limit \<Rightarrow> True))"

lemma pread_progress:
  assumes "0 < n" "unat off + unat n \<le> length (fl_bytes f)"
  shows "pread limit f n off \<noteq> []" "length (pread limit f n off) \<le> unat n"
proof -
  have "0 < unat n" using assms(1) by (simp add: u64_pos_iff word_gt_0)
  then have "0 < length (pread limit f n off)" "length (pread limit f n off) \<le> unat n"
    using assms(2) by (auto simp: pread_def)
  then show "pread limit f n off \<noteq> []" "length (pread limit f n off) \<le> unat n" by simp_all
qed

lemma pread_retry_steady:
  assumes "pread_retry n off f es = (r, e, (f', es'))" "steady es" "0 < n" "unat off + unat n \<le> length (fl_bytes f)"
  shows "f' = f \<and> steady es' \<and> (\<exists>xs. r = Inr xs \<and> xs \<noteq> [] \<and> length xs \<le> unat n)"
  using assms
proof (induction n off f es rule: pread_retry.induct)
  case (1 n off f)
  then show ?case using pread_progress [of n off f "unat n"] by (clarsimp simp: steady_def)
next
  case (2 n off f e es)
  have f: "file_after e f = f" "steady es" using 2(3) by (auto simp: steady_def file_after_def)
  show ?case
  proof (cases "ev_pread e")
    case (Inl error)
    then have "error = EINTR" using 2(3) by (simp add: steady_def)
    then show ?thesis using 2(1) [OF refl Inl] 2(2,4,5) Inl f by (simp add: Let_def)
  next
    case (Inr limit)
    then show ?thesis using 2(2) pread_progress [OF 2(4,5), of limit] f by (clarsimp simp: Let_def)
  qed
qed

lemma local_loop_steady:
  assumes "unat off + unat len \<le> length (fl_bytes f)" "length (fl_bytes f) < 2 ^ 64"
  shows "length out \<le> unat len \<Longrightarrow> steady es \<Longrightarrow>
    \<exists>out' m' es'. local_loop None len off out m (f, es) = (out', Status_Ok, m', (f, es')) \<and>
      length out' = unat len \<and> steady es'"
proof (induction "unat len - length out" arbitrary: out m es rule: less_induct)
  case less
  let ?want = "loop_want None len off out" and ?at = "off + of_nat (length out)"
  have small: "unat (of_nat (length out) :: u64) = length out" using below_u64 [OF less.prems(1)] by simp
  show ?case
  proof (cases "length out < unat len")
    case False
    then show ?thesis using less.prems local_loop_stop [of out len None off m "(f, es)"] by simp
  next
    case True
    have want: "unat ?want = unat len - length out"
      using less.prems(1) small by (simp add: loop_want_def) (subst unat_u64_sub, simp_all add: word_le_nat_alt)
    have at: "unat ?at = unat off + length out" using assms less.prems(1) small by (subst unat_u64_add) simp_all
    have pos: "0 < ?want" using want True by (simp add: word_less_nat_alt)
    obtain r e f1 es1 where r: "pread_retry ?want ?at f es = (r, e, (f1, es1))" by (metis prod.exhaust)
    from pread_retry_steady [OF r less.prems(2) pos] obtain xs where xs: "f1 = f" "steady es1" "r = Inr xs" "xs \<noteq> []"
        "length xs \<le> unat ?want"
      using assms(1) want at True by auto
    then have p: "PositionalRead ?want ?at (f, es) = ((Status_Ok, xs), e, (f, es1))"
      using r by (simp add: PositionalRead_def)
    obtain m3 where step: "local_loop None len off out m (f, es) = local_loop None len off (out @ xs) m3 (f, es1)"
      using local_loop_go [OF True _ p] pos xs(4) by (auto simp: IsOk_def word_gt_0)
    have "length (out @ xs) \<le> unat len" "unat len - length (out @ xs) < unat len - length out"
      using xs(4,5) want True by (auto intro!: diff_less_mono2)
    then show ?thesis using less.hyps [OF _ _ xs(2), of "out @ xs" m3] step by simp
  qed
qed

text \<open>
  C18: while nobody rewrites the file, a valid read always completes with the bytes asked
  for, however small the pieces in which the system delivers them and however often its
  calls are interrupted.
\<close>

theorem Local_Read_completes:
  assumes "local_inv ident content (r, (f, es))" "fl_identity f = ident" "steady es"
    and "unat off + unat sz < 2 ^ 64" "\<not> (null \<and> 0 < sz)"
  shows "\<exists>res r' w'. Local_Read None t0 t1 null off sz (r, (f, es)) =
    ((res, segment content (unat off) (unat sz)), (r', w')) \<and> rr_status res = Status_Ok"
proof -
  obtain res xs r' w' where read: "Local_Read None t0 t1 null off sz (r, (f, es)) = ((res, xs), (r', w'))"
    by (metis prod.exhaust)
  let ?rng = "ResolveReadRange off sz (am_size (lr_metadata r))"
  have inv: "lr_openIdentity r = ident" "unat (am_size (lr_metadata r)) = length content" "fl_bytes f = content"
    using assms(1,2) revisions_ok_now by (auto simp: local_inv_def)
  have "rr_status res = Status_Ok"
  proof (cases "outcome ?rng = Transfer")
    case True
    then have len: "unat (range_length ?rng) = min (unat sz) (length content - unat off)" "unat off < length content"
      using inv(2) by (simp_all add: ResolveReadRange_length ResolveReadRange_transfer)
    have "unat off + unat (range_length ?rng) \<le> length (fl_bytes f)" "length (fl_bytes f) < 2 ^ 64"
      using len inv(3) below_u64 [of "length content" "am_size (lr_metadata r)"] inv(2) by simp_all
    from local_loop_steady [OF this _ assms(3), of "[]" "AddBytesRequested sz (lr_metrics r)"]
    obtain out m' es' where l: "local_loop None (range_length ?rng) off [] (AddBytesRequested sz (lr_metrics r)) (f, es)
        = (out, Status_Ok, m', (f, es'))" "length out = unat (range_length ?rng)" "steady es'" by auto
    have "fst (Stat (f, es')) = Inr ident"
      using l(3) assms(2) by (cases es') (auto simp: Stat_def steady_def file_after_def Let_def)
    then show ?thesis
      using read True assms(5) inv(1) l(1,2) by (auto simp: Local_Read_def Let_def case_prod_beta IsOk_def)
  next
    case False
    then have "outcome ?rng = Empty" using assms(4) by (cases "outcome ?rng") (simp_all add: ResolveReadRange_overflow)
    then show ?thesis using read assms(5) by (auto simp: Local_Read_def Let_def)
  qed
  note ok = this
  have "xs = segment content (unat off) (unat sz)"
    by (rule Local_Read_cases [OF assms(1) read]) (use ok in \<open>auto simp: IsOk_def\<close>)
  then show ?thesis using read ok by blast
qed

theorem Local_Read_completes_witness:
  "\<exists>res r' w'. Local_Read None 0 0 False 1 10 (sample_reader, (sample_file, [calm_event\<lparr>ev_pread := Inr 2\<rparr>])) =
    ((res, [20, 30, 40]), (r', w')) \<and> rr_status res = Status_Ok"
  using Local_Read_completes [of "fl_identity sample_file" "fl_bytes sample_file" sample_reader sample_file
      "[calm_event\<lparr>ev_pread := Inr 2\<rparr>]" 1 10 False 0 0] sample_local_inv
  by (simp add: local_inv_def steady_def calm_event_def file_after_def) (simp add: sample_file_def segment_def)


definition republished :: file_state where
  "republished = \<lparr>fl_bytes = [1, 1, 1, 1], fl_identity = (fl_identity sample_file)\<lparr>fi_modifiedTicks := 9\<rparr>\<rparr>"


end
