(* ===== verification/StackCorrect.thy ===== *)
theory StackCorrect
  imports CacheStack LocalReader
begin

text \<open>
  The promises of the cached stack, over every decorated reader that keeps the read
  contract: what a cached read returns, that it leaves no block of its own pending, that
  it returns when the other readers settle what they own, and that the stack is again a
  reader that keeps the contract. The last section puts the stack on the local reader.
\<close>

section \<open>Opening\<close>

lemma CachedImpl_new_block:
  assumes "CachedImpl_new meta im opts s d = (impl, im', s')"
  shows "0 < unat (blockSize (ci_options impl))" "unat (blockSize (ci_options impl)) \<le> max_block"
    "id_blockSize (b_identity (ci_binding impl)) = blockSize (ci_options impl)"
proof -
  have impl: "ci_options impl = Normalized opts"
    "ci_binding impl = fst (Bind (resolvedIdentifier meta) (am_validator meta) (blockSize (Normalized opts)) s)"
    using assms by (auto simp: CachedImpl_new_def Let_def case_prod_beta)
  obtain k where k: "12 \<le> k" "k \<le> 26" "unat (blockSize (Normalized opts)) = 2 ^ k" by (rule Normalized_blockSize)
  then show "0 < unat (blockSize (ci_options impl))" "unat (blockSize (ci_options impl)) \<le> max_block"
    using power_increasing [of k 26 "2 :: nat"] by (simp_all add: impl max_block_def)
  show "id_blockSize (b_identity (ci_binding impl)) = blockSize (ci_options impl)"
    by (simp add: impl Bind_def Let_def split: option.split)
qed

text \<open>The state in which an opened reader starts: nothing owned, the schedule of the others ahead.\<close>

definition stack_start :: "BlockCache \<Rightarrow> DiskBlockStore \<Rightarrow> filesystem \<Rightarrow> turn list \<Rightarrow> 'w \<Rightarrow> 'w stack" where
  "stack_start s d fs ts v = \<lparr>k_store = s, k_disk = d, k_files = fs, k_inner = v, k_turns = ts, k_theirs = {}, k_mine = {}\<rparr>"

lemma stack_of_open:
  assumes "asset_reader I rd content" "length content = unat (am_size meta)"
    and "CachedImpl_new meta im opts s d = (impl, im', s')"
    and "\<forall>i. in_asset content (blockSize (ci_options impl)) i \<longrightarrow>
      C (block_key (ci_binding impl) i) = blk content (blockSize (ci_options impl)) i"
  shows "cached_stack I rd content meta impl C"
  using assms(1,2,4) CachedImpl_new_block [OF assms(3)] by (simp add: cached_stack_def cached_stack_axioms_def)

lemma stack_await_returns:
  assumes "stack_inv True C (ci_binding impl) content I w" "k_mine w = {}"
  shows "env_await (stack_env rd meta impl) i w \<noteq> None"
  using await_turns_returns [of C "ci_binding impl" content I "k_turns w" w i] assms
  by (simp add: stack_env_def stack_await_def)

lemma stack_read_returns:
  assumes "cached_stack I rd content meta impl C"
    and "stack_inv True C (ci_binding impl) content I w" "k_mine w = {}"
  obtains res xs m' w' where "CachedRead (stack_env rd meta impl) t0 t1 null off sz m w = Some (((res, xs), m'), w')"
    "stack_inv True C (ci_binding impl) content I w'" "k_mine w' = {}"
proof -
  obtain res xs m' w' where r: "CachedRead (stack_env rd meta impl) t0 t1 null off sz m w = Some (((res, xs), m'), w')"
    using cached_stack.stacked_read_total [OF assms(1) _ assms(2,3), of t0 t1 null off sz m] stack_await_returns
    by fastforce
  then show thesis using cached_stack.stacked_read_ok [OF assms(1,2) r assms(3)] that by blast
qed

section \<open>The bytes of a reader's keys\<close>

definition pad :: "nat \<Rightarrow> bytes \<Rightarrow> bytes" where
  "pad n xs = take n (xs @ replicate n 0)"

lemma length_pad [simp]: "length (pad n xs) = n"
  by (simp add: pad_def)

definition blocks_of :: "bytes \<Rightarrow> CachedImpl \<Rightarrow> ShardKey \<Rightarrow> bytes" where
  "blocks_of content impl k =
    (if identityId k = b_identityId (ci_binding impl)
     then blk content (blockSize (ci_options impl)) (sk_blockIndex k) else [])"

lemma blocks_of_key: "blocks_of content impl (block_key (ci_binding impl) i) = blk content (blockSize (ci_options impl)) i"
  by (simp add: blocks_of_def block_key_def)

definition opened :: "AssetMetadata \<Rightarrow> CacheOptions \<Rightarrow> BlockCache \<Rightarrow> DiskBlockStore \<Rightarrow> CachedImpl" where
  "opened meta opts s d = fst (CachedImpl_new meta None opts s d)"

definition sample_meta :: AssetMetadata where
  "sample_meta = local_metadata ''a.usd'' (fl_identity sample_file)"

definition no_disk :: DiskBlockStore where
  "no_disk = DiskBlockStore_new True DiskCacheOptions_default"

definition sample_impl :: CachedImpl where
  "sample_impl = opened sample_meta CacheOptions_default sample_store no_disk"

definition sample_world :: "(LocalReader \<times> world) stack" where
  "sample_world = stack_start (snd (snd (CachedImpl_new sample_meta None CacheOptions_default sample_store no_disk))) no_disk [] []
     (sample_reader, (sample_file, []))"

lemma sample_open: "CachedImpl_new sample_meta None CacheOptions_default sample_store no_disk =
    (sample_impl, None, k_store sample_world)"
  by (simp add: sample_impl_def opened_def sample_world_def stack_start_def CachedImpl_new_def Let_def case_prod_beta)

lemma sample_reads:
  "asset_reader (local_inv (fl_identity sample_file) (fl_bytes sample_file)) (Local_Read None 0 0 False) (fl_bytes sample_file)"
  "length (fl_bytes sample_file) = unat (am_size sample_meta)"
  "\<forall>i. in_asset (fl_bytes sample_file) (blockSize (ci_options sample_impl)) i \<longrightarrow>
    blocks_of (fl_bytes sample_file) sample_impl (block_key (ci_binding sample_impl) i) =
    blk (fl_bytes sample_file) (blockSize (ci_options sample_impl)) i"
  by (rule local.asset_reader_axioms) (simp_all add: blocks_of_key sample_meta_def local_metadata_def sample_file_def Let_def)

lemma sample_stack_inv:
  "stack_inv fair (blocks_of (fl_bytes sample_file) sample_impl) (ci_binding sample_impl) (fl_bytes sample_file)
     (local_inv (fl_identity sample_file) (fl_bytes sample_file)) sample_world" "k_mine sample_world = {}"
proof -
  have "k_store sample_world = snd (Bind (resolvedIdentifier sample_meta) (am_validator sample_meta)
      (blockSize (Normalized CacheOptions_default)) sample_store)"
    by (simp add: sample_world_def stack_start_def CachedImpl_new_def Let_def case_prod_beta)
  then have "store_inv (k_store sample_world)" "\<And>k. slots (k_store sample_world) k = None"
    using sample_store_facts by (simp_all add: Bind_facts)
  then show "stack_inv fair (blocks_of (fl_bytes sample_file) sample_impl) (ci_binding sample_impl) (fl_bytes sample_file)
     (local_inv (fl_identity sample_file) (fl_bytes sample_file)) sample_world" "k_mine sample_world = {}"
    using sample_local_inv
    by (simp_all add: stack_inv_def shared_ok_def owners_ok_def consistent_def files_ok_def drained_def)
      (simp_all add: sample_world_def stack_start_def)
qed

section \<open>What a cached read returns\<close>

text \<open>
  C1: a cached read never returns a wrong byte. Whatever the other readers of the process
  do to the shared store and whatever happens to the files of the cache directory between
  any two steps of the read, a read that succeeds returns exactly the bytes of the asset
  (from memory, from disk, from another reader's fetch or from the transport); it fails
  only with a status of the decorated reader or on an invalid argument; and in every
  outcome the reader leaves no block pending that it owned.
\<close>

theorem cached_read_exact:
  assumes "asset_reader I rd content" "length content = unat (am_size meta)"
    and "CachedImpl_new meta im opts s d = (impl, im', s')"
    and "\<forall>i. in_asset content (blockSize (ci_options impl)) i \<longrightarrow>
      C (block_key (ci_binding impl) i) = blk content (blockSize (ci_options impl)) i"
    and "stack_inv False C (ci_binding impl) content I w" "k_mine w = {}"
    and "CachedRead (stack_env rd meta impl) t0 t1 null off sz m w = Some (((res, xs), m'), w')"
  shows "stack_inv False C (ci_binding impl) content I w' \<and> k_mine w' = {} \<and>
    unat (bytesRead res) = length xs \<and> length xs \<le> unat sz \<and>
    (if IsOk (rr_status res) then xs = segment content (unat off) (unat sz)
     else (\<exists>v o' n. I v \<and> rr_status res = rr_status (fst (fst (rd o' n v)))) \<or>
       code (rr_status res) = InvalidArgument \<and> (2 ^ 64 \<le> unat off + unat sz \<or> null \<and> 0 < sz))"
proof -
  note stack = stack_of_open [OF assms(1-4)]
  have "\<exists>v o' n. I v \<and> st = rr_status (fst (fst (rd o' n v)))"
    if "inner_failed (stack_inv False C (ci_binding impl) content I) (stack_env rd meta impl) st" for st
    using that cached_stack.read_law(2) [OF stack, where fair = False] unfolding inner_failed_def by metis
  then show ?thesis
    using cached_stack.stacked_read_ok [OF stack assms(5,7,6)] by (auto split: if_splits)
qed

theorem cached_read_exact_witness:
  "\<exists>res xs m' w'. CachedRead (stack_env (Local_Read None 0 0 False) sample_meta sample_impl) 0 0 False 1 10
      (ci_metrics sample_impl) sample_world = Some (((res, xs), m'), w') \<and> k_mine w' = {} \<and>
    (if IsOk (rr_status res) then xs = [20, 30, 40] else length xs \<le> 10)"
proof -
  obtain res xs m' w' where r: "CachedRead (stack_env (Local_Read None 0 0 False) sample_meta sample_impl) 0 0 False 1 10
      (ci_metrics sample_impl) sample_world = Some (((res, xs), m'), w')"
    by (rule stack_read_returns [OF stack_of_open [OF sample_reads(1,2) sample_open sample_reads(3)] sample_stack_inv])
  then show ?thesis
    using cached_read_exact [OF sample_reads(1,2) sample_open sample_reads(3) sample_stack_inv r]
    by (auto simp: sample_file_def segment_def)
qed

text \<open>
  C2: a cached read always returns. If every block another reader acquires is eventually
  published, abandoned or dropped with its binding, then every read returns, in every
  state in which this reader owns nothing, although it waits for blocks other readers
  are fetching; it waits only after settling all it owns, so readers never wait for each
  other in a cycle.
\<close>

theorem cached_read_returns:
  assumes "asset_reader I rd content" "length content = unat (am_size meta)"
    and "CachedImpl_new meta im opts s d = (impl, im', s')"
    and "\<forall>i. in_asset content (blockSize (ci_options impl)) i \<longrightarrow>
      C (block_key (ci_binding impl) i) = blk content (blockSize (ci_options impl)) i"
    and "stack_inv True C (ci_binding impl) content I w" "k_mine w = {}"
  shows "\<exists>res xs m' w'. CachedRead (stack_env rd meta impl) t0 t1 null off sz m w = Some (((res, xs), m'), w') \<and>
    stack_inv True C (ci_binding impl) content I w' \<and> k_mine w' = {}"
  by (rule stack_read_returns [OF stack_of_open [OF assms(1-4)] assms(5,6), of t0 t1 null off sz m]) blast

theorem cached_read_returns_witness:
  "\<exists>res xs m' w'. CachedRead (stack_env (Local_Read None 0 0 False) sample_meta sample_impl) 0 0 False 1 10
      (ci_metrics sample_impl) sample_world = Some (((res, xs), m'), w') \<and> k_mine w' = {}"
  using cached_read_returns [OF sample_reads(1,2) sample_open sample_reads(3) sample_stack_inv,
      of 0 0 False 1 10 "ci_metrics sample_impl"] by blast

section \<open>The stack is a reader\<close>

text \<open>The read function of the whole stack, with its counters in its state.\<close>

definition cached_read_fn :: "'w read_fn \<Rightarrow> AssetMetadata \<Rightarrow> CachedImpl \<Rightarrow> u64 \<Rightarrow> u64 \<Rightarrow> (ReaderMetrics \<times> 'w stack) read_fn" where
  "cached_read_fn rd meta impl t0 t1 off sz mw =
    (case CachedRead (stack_env rd meta impl) t0 t1 False off sz (fst mw) (snd mw) of
       Some ((r, m'), w') \<Rightarrow> (r, (m', w'))
     | None \<Rightarrow> (fails (Status_Error Cancelled []), mw))"

definition stack_reader_inv :: "(ShardKey \<Rightarrow> bytes) \<Rightarrow> Binding \<Rightarrow> bytes \<Rightarrow> ('w \<Rightarrow> bool) \<Rightarrow> ReaderMetrics \<times> 'w stack \<Rightarrow> bool" where
  "stack_reader_inv C b content I mw \<longleftrightarrow> stack_inv True C b content I (snd mw) \<and> k_mine (snd mw) = {}"

lemma stack_is_reader:
  assumes stack: "cached_stack I rd content meta impl C"
  shows "asset_reader (stack_reader_inv C (ci_binding impl) content I) (cached_read_fn rd meta impl t0 t1) content"
proof
  let ?rd = "cached_read_fn rd meta impl t0 t1"
  fix mw off n
  assume inv: "stack_reader_inv C (ci_binding impl) content I mw"
  then have w: "stack_inv True C (ci_binding impl) content I (snd mw)" "k_mine (snd mw) = {}"
    by (simp_all add: stack_reader_inv_def)
  obtain res xs m' w' where r: "CachedRead (stack_env rd meta impl) t0 t1 False off n (fst mw) (snd mw) = Some (((res, xs), m'), w')"
    "stack_inv True C (ci_binding impl) content I w'" "k_mine w' = {}"
    by (rule stack_read_returns [OF stack w])
  have eq: "?rd off n mw = ((res, xs), (m', w'))" by (simp add: cached_read_fn_def r(1))
  note ok = cached_stack.stacked_read_ok [OF stack w(1) r(1) w(2)]
  show "stack_reader_inv C (ci_binding impl) content I (snd (?rd off n mw))"
    using r(2,3) by (simp add: eq stack_reader_inv_def)
  show "length (snd (fst (?rd off n mw))) = unat (bytesRead (fst (fst (?rd off n mw)))) \<and>
      length (snd (fst (?rd off n mw))) \<le> unat n"
    using ok by (simp add: eq)
  show "snd (fst (?rd off n mw)) = segment content (unat off) (unat n)" if "IsOk (rr_status (fst (fst (?rd off n mw))))"
    using ok that by (simp add: eq)
  show "code (rr_status (fst (fst (?rd off n mw)))) = InvalidArgument" if "2 ^ 64 \<le> unat off + unat n"
    using ok that by (simp add: eq)
qed

text \<open>
  C3: the decorator keeps the contract it relies on: over any reader that keeps the read
  contract for an asset, the cached reader keeps the same contract for the same asset, so
  that readers can be stacked and nothing above the cache can tell it is there.
\<close>

theorem cached_reader_refines:
  assumes "asset_reader I rd content" "length content = unat (am_size meta)"
    and "CachedImpl_new meta im opts s d = (impl, im', s')"
    and "\<forall>i. in_asset content (blockSize (ci_options impl)) i \<longrightarrow>
      C (block_key (ci_binding impl) i) = blk content (blockSize (ci_options impl)) i"
  shows "asset_reader (stack_reader_inv C (ci_binding impl) content I) (cached_read_fn rd meta impl t0 t1) content"
  by (rule stack_is_reader [OF stack_of_open [OF assms]])

theorem cached_reader_refines_witness:
  "asset_reader (stack_reader_inv (blocks_of (fl_bytes sample_file) sample_impl) (ci_binding sample_impl) (fl_bytes sample_file)
      (local_inv (fl_identity sample_file) (fl_bytes sample_file)))
    (cached_read_fn (Local_Read None 0 0 False) sample_meta sample_impl 0 0) (fl_bytes sample_file)"
  by (rule cached_reader_refines [OF sample_reads(1,2) sample_open sample_reads(3)])

section \<open>The stack on the local reader\<close>

text \<open>Every file of the size the identity states, opened locally and decorated.\<close>

interpretation local_stack: cached_stack "local_inv ident (pad (unat (fi_size ident)) xs)" "Local_Read fault t0 t1 False"
    "pad (unat (fi_size ident)) xs" "local_metadata path ident" "opened (local_metadata path ident) opts s d"
    "blocks_of (pad (unat (fi_size ident)) xs) (opened (local_metadata path ident) opts s d)" True
proof (rule stack_of_open)
  show "asset_reader (local_inv ident (pad (unat (fi_size ident)) xs)) (Local_Read fault t0 t1 False)
      (pad (unat (fi_size ident)) xs)" by (rule local.asset_reader_axioms)
  show "CachedImpl_new (local_metadata path ident) None opts s d =
      (opened (local_metadata path ident) opts s d, fst (snd (CachedImpl_new (local_metadata path ident) None opts s d)),
       snd (snd (CachedImpl_new (local_metadata path ident) None opts s d)))" by (simp add: opened_def)
qed (simp_all add: local_metadata_def Let_def blocks_of_key)

interpretation local_cached: asset_reader
    "stack_reader_inv (blocks_of (pad (unat (fi_size ident)) xs) (opened (local_metadata path ident) opts s d))
       (ci_binding (opened (local_metadata path ident) opts s d)) (pad (unat (fi_size ident)) xs)
       (local_inv ident (pad (unat (fi_size ident)) xs))"
    "cached_read_fn (Local_Read fault t0 t1 False) (local_metadata path ident) (opened (local_metadata path ident) opts s d) t2 t3"
    "pad (unat (fi_size ident)) xs"
  by (rule stack_is_reader [OF local_stack.cached_stack_axioms])

end
