(* ===== verification/HttpReader.thy ===== *)
theory HttpReader
  imports HttpExchange AssetReader
begin

text \<open>
  \<open>libs/usd-asset-http\<close>: the HTTP reader (\<open>HttpAssetReader.cpp\<close>, lines 672 to 1135): \<open>Read\<close> with its
  resume loop and its judgement of every response, and \<open>Open\<close>. The locale \<open>http_origin\<close> is what
  the reader relies on: the transport's contract, and an origin that sends the bytes of the
  opened revision in every partial response that carries the framing and the validator of
  that revision. From it follows the read contract of \<open>AssetReader\<close>.
\<close>

record 'w HttpReader =
  hr_transport :: "'w transport"
  hr_options :: "'w HttpOptions"
  hr_origin :: Uri
  hr_uri :: Uri
  hr_metadata :: AssetMetadata
  hr_ifRangeValue :: string
  hr_metrics :: ReaderMetrics

definition HttpImpl_new :: "'w transport \<Rightarrow> 'w HttpOptions \<Rightarrow> Uri \<Rightarrow> Uri \<Rightarrow> AssetMetadata \<Rightarrow> string \<Rightarrow> 'w HttpReader" where
  "HttpImpl_new t opts origin uri meta ifRangeValue =
    \<lparr>hr_transport = t, hr_options = opts, hr_origin = origin, hr_uri = uri, hr_metadata = meta, hr_ifRangeValue = ifRangeValue,
     hr_metrics = SetAssetSize (am_size meta) (ReaderMetrics_new (resolvedIdentifier meta))\<rparr>"

section \<open>Judging a response\<close>

definition partial_result :: "bytes \<Rightarrow> Status \<Rightarrow> ReadResult \<times> bytes" where
  "partial_result out st = (ReadResult_of (of_nat (length out)) st, out)"

text \<open>A \<open>200\<close> to a range request.\<close>

definition judge_whole :: "AssetMetadata \<Rightarrow> u64 \<Rightarrow> u64 \<Rightarrow> bytes \<Rightarrow> ExchangeResult \<Rightarrow> ReadResult \<times> bytes" where
  "judge_whole meta offset sz out exchange =
    (let headers = rs_headers (ex_response exchange); uri = ex_finalUri exchange
     in if ContradictsCapturedValidator headers (am_validator meta) then
          fails (WithRange offset sz (AssetChangedStatus uri
            ''a range request was answered with a whole representation carrying a different validator''))
        else if (case HeaderTable_Find ''Content-Length'' headers of
                   None \<Rightarrow> False
                 | Some len \<Rightarrow> (case ParseContentLength len of None \<Rightarrow> False | Some whole \<Rightarrow> whole \<noteq> am_size meta)) then
          fails (WithRange offset sz (AssetChangedStatus uri
            ''a range request was answered with a whole representation of a different length''))
        else partial_result out (WithRange offset sz (WithTransportStatus 200 (Status_Error RangeNotSupported
               (''the server answered a range request with the whole representation'' @ Where uri)))))"

text \<open>A \<open>416\<close>.\<close>

definition judge_refused :: "AssetMetadata \<Rightarrow> u64 \<Rightarrow> u64 \<Rightarrow> bytes \<Rightarrow> ExchangeResult \<Rightarrow> ReadResult \<times> bytes" where
  "judge_refused meta offset sz out exchange =
    (let headers = rs_headers (ex_response exchange); uri = ex_finalUri exchange
     in if ContradictsCapturedValidator headers (am_validator meta) then
          fails (WithRange offset sz (AssetChangedStatus uri
            ''a range this reader had already sized was refused, with a different validator''))
        else if (case HeaderTable_Find ''Content-Range'' headers of
                   None \<Rightarrow> False
                 | Some refused \<Rightarrow>
                     (case ParseContentRange refused of
                        None \<Rightarrow> False
                      | Some unsatisfiable \<Rightarrow> cr_unsatisfied unsatisfiable \<and> cr_completeLength unsatisfiable \<noteq> am_size meta)) then
          fails (WithRange offset sz (AssetChangedStatus uri
            ''the representation is now a different length, and no longer contains the range this reader asked for''))
        else partial_result out (WithRange offset sz (WithTransportStatus 416 (Status_Error InvalidResponse
               (''the server refused a range that lies inside the size it reported at open'' @ Where uri)))))"

text \<open>A \<open>206\<close>: the end of the read, or the bytes there are now.\<close>

definition judge_partial :: "AssetMetadata \<Rightarrow> u64 \<Rightarrow> u64 \<Rightarrow> u64 \<Rightarrow> bytes \<Rightarrow> u64 \<Rightarrow> u64 \<Rightarrow> ExchangeResult \<Rightarrow> ReadResult \<times> bytes + bytes" where
  "judge_partial meta offset sz len out at remaining exchange =
    (let response = ex_response exchange; headers = rs_headers response; uri = ex_finalUri exchange;
         invalid = (\<lambda>msg. partial_result out (WithRange offset sz (WithTransportStatus 206 (Status_Error InvalidResponse (msg @ Where uri)))))
     in if ContradictsCapturedValidator headers (am_validator meta) then
          Inl (fails (WithRange offset sz (AssetChangedStatus uri ''the response carried a different validator'')))
        else if HasConflictingDuplicate ''Content-Range'' headers \<or> HasConflictingDuplicate ''Content-Length'' headers then
          Inl (invalid ''the partial response had no usable Content-Range'')
        else case HeaderTable_Find ''Content-Range'' headers of
          None \<Rightarrow> Inl (invalid ''the partial response had no usable Content-Range'')
        | Some rangeHeader \<Rightarrow>
            (case ParseContentRange rangeHeader of
               None \<Rightarrow> Inl (invalid ''the partial response had no usable Content-Range'')
             | Some contentRange \<Rightarrow>
                 if cr_unsatisfied contentRange then Inl (invalid ''the partial response had no usable Content-Range'')
                 else if cr_hasCompleteLength contentRange \<and> cr_completeLength contentRange \<noteq> am_size meta then
                   Inl (fails (WithRange offset sz (AssetChangedStatus uri
                     ''the representation's length differs from the size captured at open'')))
                 else if cr_first contentRange \<noteq> at \<or> ContentRange_Length contentRange \<noteq> remaining then
                   Inl (invalid (''the partial response did not cover the requested range (requested bytes '' @
                     to_dec (unat at) @ ''-'' @ to_dec (unat (at + remaining - 1)) @ '', server returned '' @
                     to_dec (unat (cr_first contentRange)) @ ''-'' @ to_dec (unat (cr_last contentRange)) @ '')''))
                 else if rs_bodyOverflowed response then
                   Inl (invalid ''the server sent more body than its own framing declared'')
                 else
                   let out' = out @ ex_body exchange
                   in if rs_error response \<noteq> TE_None \<and> \<not> IsResumable (rs_error response) then
                        Inl (partial_result out' (WithRange offset sz (ProjectTransportError (rs_error response) uri)))
                      else if rs_bodyBytes response = 0 \<and> rs_error response = TE_None then
                        Inl (partial_result out' (ShortReadStatus offset len (of_nat (length out')) (resolvedIdentifier meta)))
                      else Inr out'))"

definition judge_response :: "AssetMetadata \<Rightarrow> u64 \<Rightarrow> u64 \<Rightarrow> u64 \<Rightarrow> bytes \<Rightarrow> u64 \<Rightarrow> u64 \<Rightarrow> ExchangeResult \<Rightarrow> ReadResult \<times> bytes + bytes" where
  "judge_response meta offset sz len out at remaining exchange =
    (let status = rs_status (ex_response exchange)
     in if status = 200 then Inl (judge_whole meta offset sz out exchange)
        else if status \<noteq> 206 then
          Inl (if status = 416 then judge_refused meta offset sz out exchange
               else partial_result out (WithRange offset sz (ProjectHttpStatus status (ex_finalUri exchange))))
        else judge_partial meta offset sz len out at remaining exchange)"

section \<open>The read loop\<close>

definition read_args :: "'w HttpReader \<Rightarrow> u64 \<Rightarrow> u64 \<Rightarrow> 'w exchange_args" where
  "read_args r at remaining =
    \<lparr>xa_transport = hr_transport r, xa_options = hr_options r, xa_origin = hr_origin r, xa_method = Get,
     xa_range = FormatByteRange at remaining, xa_ifRange = hr_ifRangeValue r, xa_hasBody = True, xa_capacity = remaining\<rparr>"

definition retry_budget :: "'w HttpOptions \<Rightarrow> nat" where
  "retry_budget opts = (if ho_maxAttempts opts > 0 then nat (ho_maxAttempts opts - 1) else 0)"

lemma PerformExchange_retries:
  assumes "PerformExchange x ops start retries s w = (res, retries', s', w')"
  shows "retries' \<le> retries"
  using hop_loop_rule [where I = "\<lambda>_. True" and A = "\<lambda>_. True" and P = "\<lambda>_ _. True" and start = start,
      OF assms [unfolded PerformExchange_def]] by simp

text \<open>
  The bytes in the buffer so far are \<open>out\<close>, so the source's \<open>done\<close> is its length; \<open>lastError\<close> is
  how the previous attempt ended.
\<close>

function http_read_loop :: "'w HttpReader \<Rightarrow> u64 \<Rightarrow> u64 \<Rightarrow> u64 \<Rightarrow> bool \<Rightarrow> TransportError \<Rightarrow> nat \<Rightarrow> bytes \<Rightarrow> ReaderMetrics \<Rightarrow> 'w \<Rightarrow>
    (ReadResult \<times> bytes) \<times> ReaderMetrics \<times> 'w" where
  "http_read_loop r offset sz len firstAttempt lastError retries out m w =
    (if \<not> length out < unat len then (partial_result out Status_Ok, m, w)
     else if \<not> firstAttempt \<and> retries = 0 then
       (if lastError = ConnectionLost
        then partial_result out (WithRange offset sz (ProjectTransportError lastError (hr_uri r)))
        else partial_result out (ShortReadStatus offset len (of_nat (length out)) (resolvedIdentifier (hr_metadata r))), m, w)
     else
       let at = offset + of_nat (length out);
           remaining = len - of_nat (length out)
       in case PerformExchange (read_args r at remaining) ReaderSink_ops (hr_uri r)
                 (if firstAttempt then retries else retries - 1) (if firstAttempt then m else AddRetry 1 m) w of
            (exchange, retries', m', w') \<Rightarrow>
              if \<not> IsOk (ex_status exchange) then (partial_result out (WithRange offset sz (ex_status exchange)), m', w')
              else case judge_response (hr_metadata r) offset sz len out at remaining exchange of
                     Inl result \<Rightarrow> (result, m', w')
                   | Inr out' \<Rightarrow> http_read_loop r offset sz len False (rs_error (ex_response exchange)) retries' out' m' w')"
  by pat_completeness auto
termination
proof (relation "measure (\<lambda>(r, offset, sz, len, firstAttempt, lastError, retries, out, m, w). 2 * retries + (if firstAttempt then 1 else 0))",
    goal_cases)
  case (2 r offset sz len firstAttempt lastError retries out m w at remaining exchange y retries' z m' w' out')
  then have "PerformExchange (read_args r at remaining) ReaderSink_ops (hr_uri r) (if firstAttempt then retries else retries - 1)
      (if firstAttempt then m else AddRetry 1 m) w = (exchange, retries', m', w')" by simp
  from PerformExchange_retries [OF this] 2(2) show ?case by (auto split: if_splits)
qed simp

declare http_read_loop.simps [simp del]

definition Http_Read :: "u64 \<Rightarrow> u64 \<Rightarrow> bool \<Rightarrow> u64 \<Rightarrow> u64 \<Rightarrow> 'w HttpReader \<times> 'w \<Rightarrow> (ReadResult \<times> bytes) \<times> 'w HttpReader \<times> 'w" where
  "Http_Read startNs endNs dst_null offset sz rw =
    (let (r, w) = rw;
         m0 = AddBytesRequested sz (hr_metrics r);
         rng = ResolveReadRange offset sz (am_size (hr_metadata r));
         finish = (\<lambda>res m w'.
           (res, r\<lparr>hr_metrics := m\<lparr>rm_readLatency := ScopedLatency_record startNs endNs (rm_readLatency m)\<rparr>\<rparr>, w'))
     in if outcome rng = Overflow then finish (fails (OverflowStatus offset sz)) m0 w
        else if sz > 0 \<and> dst_null
        then finish (fails (WithRange offset sz (Status_Error InvalidArgument ''read destination buffer is null''))) m0 w
        else if outcome rng = Empty then finish (ReadResult_of 0 Status_Ok, []) m0 w
        else case http_read_loop r offset sz (range_length rng) True TE_None (retry_budget (hr_options r)) [] m0 w of
               (res, m1, w1) \<Rightarrow> finish res m1 w1)"

section \<open>Open\<close>

definition open_args :: "'w transport \<Rightarrow> 'w HttpOptions \<Rightarrow> Uri \<Rightarrow> 'w exchange_args" where
  "open_args t opts uri = \<lparr>xa_transport = t, xa_options = opts, xa_origin = uri, xa_method = Head, xa_range = [], xa_ifRange = [],
     xa_hasBody = False, xa_capacity = 0\<rparr>"

definition http_metadata :: "Uri \<Rightarrow> u64 \<Rightarrow> HeaderTable \<Rightarrow> AssetMetadata" where
  "http_metadata finalUri sz headers =
    (let captured = CaptureValidator headers
     in \<lparr>resolvedIdentifier = ToIdentity finalUri, am_size = sz, supportsRandomAccess = True, am_validator = cv_validator captured,
         am_stability = ClassifyStability (cv_validator captured), contentType = HeaderTable_Get ''Content-Type'' headers\<rparr>)"

definition Http_Open :: "string \<Rightarrow> 'w HttpOptions \<Rightarrow> 'w transport option \<Rightarrow> u64 \<Rightarrow> 'w \<Rightarrow> ('w HttpReader option \<times> Status) \<times> 'w" where
  "Http_Open url opts factory elapsedUs w =
    (case ParseUri url of
       Inl error \<Rightarrow> ((None, Status_Error InvalidArgument (error @ '' ('' @ ElideSecrets url @ '')'')), w)
     | Inr uri \<Rightarrow>
         (case factory of
            None \<Rightarrow> ((None, ProjectTransportError Internal uri), w)
          | Some t \<Rightarrow>
              (case PerformExchange (open_args t opts uri) PendingSink_ops uri (retry_budget opts) PendingSink_new w of
                 (exchange, retries', sink, w') \<Rightarrow>
                   let headers = rs_headers (ex_response exchange); finalUri = ex_finalUri exchange;
                       failed = (\<lambda>c msg. ((None, WithTransportStatus 200 (Status_Error c (msg @ Where finalUri))), w'))
                   in if \<not> IsOk (ex_status exchange) then ((None, ex_status exchange), w')
                      else if rs_status (ex_response exchange) \<noteq> 200 then
                        ((None, ProjectHttpStatus (rs_status (ex_response exchange)) finalUri), w')
                      else if HasConflictingDuplicate ''Content-Length'' headers then
                        failed InvalidResponse ''the server did not state a usable Content-Length, so the asset's size is unknown''
                      else case Option.bind (HeaderTable_Find ''Content-Length'' headers) ParseContentLength of
                             None \<Rightarrow> failed InvalidResponse ''the server did not state a usable Content-Length, so the asset's size is unknown''
                           | Some sz \<Rightarrow>
                               if \<not> AdvertisesByteRanges headers then
                                 failed RangeNotSupported ''the server does not advertise byte ranges''
                               else
                                 let r = HttpImpl_new t opts uri finalUri (http_metadata finalUri sz headers)
                                           (cv_ifRangeValue (CaptureValidator headers));
                                     m = ReplayInto sink (hr_metrics r)
                                 in ((Some (r\<lparr>hr_metrics := m\<lparr>rm_openLatency := Record elapsedUs (rm_openLatency m)\<rparr>\<rparr>), Status_Ok), w'))))"

section \<open>An origin that serves one revision\<close>

text \<open>
  What a partial response of the opened revision carries: when it is framed as one, does
  not contradict the captured validator, states no other complete length, and was not cut
  off, its body is the part of the content that its range says.
\<close>

definition serves :: "bytes \<Rightarrow> Validator \<Rightarrow> TransportResponse \<Rightarrow> bytes \<Rightarrow> bool" where
  "serves content captured resp body \<longleftrightarrow>
    (\<forall>v cr. rs_status resp = 206 \<and> \<not> ContradictsCapturedValidator (rs_headers resp) captured \<and>
       HeaderTable_Find ''Content-Range'' (rs_headers resp) = Some v \<and> ParseContentRange v = Some cr \<and> \<not> cr_unsatisfied cr \<and>
       (cr_hasCompleteLength cr \<longrightarrow> unat (cr_completeLength cr) = length content) \<and> \<not> rs_bodyOverflowed resp \<longrightarrow>
       body = segment content (unat (cr_first cr)) (length body))"

locale http_origin = transport perform
  for perform :: "'w transport" +
  fixes I :: "'w \<Rightarrow> bool" and content :: bytes and captured :: Validator
  assumes origin_inv: "I w \<Longrightarrow> perform req w = (answer, w') \<Longrightarrow> I w'"
    and origin_serves: "I w \<Longrightarrow> perform req w = ((resp, body, us), w') \<Longrightarrow> serves content captured resp body"

definition intercept_ok :: "('w \<Rightarrow> bool) \<Rightarrow> 'w HttpOptions \<Rightarrow> bool" where
  "intercept_ok I opts \<longleftrightarrow> (\<forall>i view w. ho_interceptor opts = Some i \<longrightarrow> I w \<longrightarrow> I (snd (i view w)))"

definition http_inv :: "'w transport \<Rightarrow> ('w \<Rightarrow> bool) \<Rightarrow> bytes \<Rightarrow> Validator \<Rightarrow> 'w HttpReader \<times> 'w \<Rightarrow> bool" where
  "http_inv perform I content captured rw \<longleftrightarrow> I (snd rw) \<and> hr_transport (fst rw) = perform \<and>
     unat (am_size (hr_metadata (fst rw))) = length content \<and> am_validator (hr_metadata (fst rw)) = captured \<and>
     intercept_ok I (hr_options (fst rw))"

lemma Intercept_world: "\<exists>view. snd (Intercept i mt u n m w) = snd (i view w)"
proof -
  define view where "view = \<lparr>ir_method = (if mt = Head then ''HEAD'' else ''GET''), ir_url = ToIdentity u, ir_scheme = scheme u,
    ir_host = host u, ir_port = effective_port u, ir_redirectHop = n, ir_attempt = m\<rparr>"
  have "snd (Intercept i mt u n m w) = snd (i view w)"
    unfolding Intercept_def Let_def view_def [symmetric] by (cases "i view w") (auto split: option.splits)
  then show ?thesis by blast
qed

lemma request_headers_inv:
  assumes "intercept_ok I (xa_options x)" "I w" "request_headers x u n m w = (h, w')"
  shows "I w'"
proof (cases "\<exists>i. ho_interceptor (xa_options x) = Some i \<and> SameOrigin u (xa_origin x)")
  case True
  then obtain i where i: "ho_interceptor (xa_options x) = Some i" "SameOrigin u (xa_origin x)" by blast
  then have "snd (Intercept i (xa_method x) u n m w) = w'" using assms(3) by (simp add: request_headers_def)
  then show ?thesis using Intercept_world [of i "xa_method x" u n m w] assms(1,2) i(1) by (auto simp: intercept_ok_def)
next
  case False
  then show ?thesis using assms(2,3) by (auto simp: request_headers_def split: option.splits)
qed

lemma bytesRead_partial [simp]:
  "snd (partial_result out st) = out" "rr_status (fst (partial_result out st)) = st"
  "length out < 2 ^ 64 \<Longrightarrow> unat (bytesRead (fst (partial_result out st))) = length out"
  by (simp_all add: partial_result_def)

lemma code_AssetChangedStatus [simp]: "code (AssetChangedStatus u how) = AssetChanged"
  by (simp add: AssetChangedStatus_def)

lemma code_ProjectHttpStatus: "code (ProjectHttpStatus n u) \<noteq> Ok"
  by (simp add: ProjectHttpStatus_def)

text \<open>A judgement that ends the read is a failure, with no bytes, the bytes before or all bytes that arrived.\<close>

definition read_failure :: "bytes \<Rightarrow> bytes \<Rightarrow> ReadResult \<times> bytes \<Rightarrow> bool" where
  "read_failure out out' res \<longleftrightarrow> (\<exists>st. code st \<noteq> Ok \<and> (res = fails st \<or> res = partial_result out st \<or> res = partial_result out' st))"

lemma read_failureI [simp]:
  "code st \<noteq> Ok \<Longrightarrow> read_failure out out' (fails st)" "code st \<noteq> Ok \<Longrightarrow> read_failure out out' (partial_result out st)"
  "code st \<noteq> Ok \<Longrightarrow> read_failure out out' (partial_result out' st)"
  by (auto simp: read_failure_def)

lemma judge_whole_fails: "read_failure out out' (judge_whole meta offset sz out ex)"
  by (simp add: judge_whole_def Let_def)

lemma judge_refused_fails: "read_failure out out' (judge_refused meta offset sz out ex)"
  by (simp add: judge_refused_def Let_def)

text \<open>What the framing checks of a partial response establish.\<close>

definition framed :: "AssetMetadata \<Rightarrow> u64 \<Rightarrow> u64 \<Rightarrow> TransportResponse \<Rightarrow> bool" where
  "framed meta at remaining resp \<longleftrightarrow> \<not> ContradictsCapturedValidator (rs_headers resp) (am_validator meta) \<and> \<not> rs_bodyOverflowed resp \<and>
     (\<exists>v cr. HeaderTable_Find ''Content-Range'' (rs_headers resp) = Some v \<and> ParseContentRange v = Some cr \<and> \<not> cr_unsatisfied cr \<and>
        (cr_hasCompleteLength cr \<longrightarrow> cr_completeLength cr = am_size meta) \<and> cr_first cr = at \<and> ContentRange_Length cr = remaining)"

lemma judge_partial_cases:
  "case judge_partial meta offset sz len out at remaining ex of
     Inl res \<Rightarrow> read_failure out out res \<or> framed meta at remaining (ex_response ex) \<and> read_failure out (out @ ex_body ex) res
   | Inr out' \<Rightarrow> framed meta at remaining (ex_response ex) \<and> out' = out @ ex_body ex"
proof -
  let ?h = "rs_headers (ex_response ex)"
  note d = judge_partial_def [of meta offset sz len out at remaining ex, unfolded Let_def]
  show ?thesis
  proof (cases "ContradictsCapturedValidator ?h (am_validator meta) \<or> HasConflictingDuplicate ''Content-Range'' ?h \<or>
      HasConflictingDuplicate ''Content-Length'' ?h \<or> HeaderTable_Find ''Content-Range'' ?h = None")
    case True
    then show ?thesis by (auto simp: d)
  next
    case False
    then obtain v where v: "HeaderTable_Find ''Content-Range'' ?h = Some v" by auto
    show ?thesis
    proof (cases "\<exists>cr. ParseContentRange v = Some cr \<and> \<not> cr_unsatisfied cr \<and> (cr_hasCompleteLength cr \<longrightarrow> cr_completeLength cr = am_size meta) \<and>
        cr_first cr = at \<and> ContentRange_Length cr = remaining \<and> \<not> rs_bodyOverflowed (ex_response ex)")
      case True
      then have f: "framed meta at remaining (ex_response ex)" using False v by (auto simp: framed_def)
      show ?thesis using True False v f by (auto simp: d)
    next
      case bad: False
      then show ?thesis using False v by (cases "ParseContentRange v") (auto simp: d)
    qed
  qed
qed

lemma judge_response_cases:
  "case judge_response meta offset sz len out at remaining ex of
     Inl res \<Rightarrow> read_failure out out res \<or>
       rs_status (ex_response ex) = 206 \<and> framed meta at remaining (ex_response ex) \<and> read_failure out (out @ ex_body ex) res
   | Inr out' \<Rightarrow> rs_status (ex_response ex) = 206 \<and> framed meta at remaining (ex_response ex) \<and> out' = out @ ex_body ex"
proof (cases "rs_status (ex_response ex) = 206")
  case True
  then show ?thesis using judge_partial_cases [where meta = meta and offset = offset and sz = sz and len = len and out = out and at = at and
        remaining = remaining and ex = ex]
    by (auto simp: judge_response_def Let_def split: sum.splits)
next
  case False
  then show ?thesis
    using judge_whole_fails judge_refused_fails code_ProjectHttpStatus by (auto simp: judge_response_def Let_def)
qed

lemma http_read_loop_cases:
  assumes "http_read_loop r offset sz len first lastError retries out m w = (result, m', w')"
  defines "at \<equiv> offset + of_nat (length out)" and "remaining \<equiv> len - of_nat (length out)"
  obtains (complete) "\<not> length out < unat len" "result = partial_result out Status_Ok" "w' = w"
  | (spent) st where "length out < unat len" "code st \<noteq> Ok" "result = partial_result out st" "w' = w"
  | (failed) ex retries1 retries' s where "length out < unat len"
      "PerformExchange (read_args r at remaining) ReaderSink_ops (hr_uri r) retries1 s w = (ex, retries', m', w')"
      "\<not> IsOk (ex_status ex)" "result = partial_result out (WithRange offset sz (ex_status ex))"
      "retries1 + 1 = retries + (if first then 1 else 0)"
  | (judged) ex retries1 retries' s where "length out < unat len"
      "PerformExchange (read_args r at remaining) ReaderSink_ops (hr_uri r) retries1 s w = (ex, retries', m', w')"
      "IsOk (ex_status ex)" "judge_response (hr_metadata r) offset sz len out at remaining ex = Inl result"
      "retries1 + 1 = retries + (if first then 1 else 0)"
  | (more) ex retries1 retries' s m1 w1 out' where "length out < unat len"
      "PerformExchange (read_args r at remaining) ReaderSink_ops (hr_uri r) retries1 s w = (ex, retries', m1, w1)"
      "IsOk (ex_status ex)" "judge_response (hr_metadata r) offset sz len out at remaining ex = Inr out'"
      "http_read_loop r offset sz len False (rs_error (ex_response ex)) retries' out' m1 w1 = (result, m', w')"
      "2 * retries' < 2 * retries + (if first then 1 else 0)" "retries1 + 1 = retries + (if first then 1 else 0)"
proof (cases "length out < unat len \<and> (first \<or> retries \<noteq> 0)")
  case False
  show thesis
  proof (cases "length out < unat len")
    case True
    define st where "st = (if lastError = ConnectionLost then WithRange offset sz (ProjectTransportError lastError (hr_uri r))
      else ShortReadStatus offset len (of_nat (length out)) (resolvedIdentifier (hr_metadata r)))"
    have "(result, m', w') = (partial_result out st, m, w)"
      using assms(1) True False by (subst (asm) http_read_loop.simps) (auto simp: st_def simp del: ProjectTransportError.simps)
    moreover have "code st \<noteq> Ok" by (simp add: st_def del: ProjectTransportError.simps)
    ultimately show thesis using spent True by auto
  qed (use assms(1) in \<open>auto simp: http_read_loop.simps [of r offset sz len first] intro: complete\<close>)
next
  case go: True
  let ?retries1 = "if first then retries else retries - 1" and ?s = "if first then m else AddRetry 1 m"
  obtain ex retries' m1 w1 where e: "PerformExchange (read_args r at remaining) ReaderSink_ops (hr_uri r) ?retries1 ?s w = (ex, retries', m1, w1)"
    by (metis surj_pair)
  have le: "2 * retries' < 2 * retries + (if first then 1 else 0)" using PerformExchange_retries [OF e] go by (auto split: if_splits)
  have budget: "?retries1 + 1 = retries + (if first then 1 else 0)" using go by auto
  have step: "(result, m', w') = (if \<not> IsOk (ex_status ex) then (partial_result out (WithRange offset sz (ex_status ex)), m1, w1)
      else case judge_response (hr_metadata r) offset sz len out at remaining ex of
             Inl result \<Rightarrow> (result, m1, w1)
           | Inr out' \<Rightarrow> http_read_loop r offset sz len False (rs_error (ex_response ex)) retries' out' m1 w1)"
    using assms(1) go e unfolding http_read_loop.simps [of r offset sz len first] at_def remaining_def by (auto simp: Let_def)
  show thesis
  proof (cases "IsOk (ex_status ex)")
    case False
    then show thesis using go e step failed [of ?retries1 ?s ex retries', OF _ _ _ _ budget] by auto
  next
    case True
    then show thesis
      using go e step le judged [of ?retries1 ?s ex retries', OF _ _ _ _ budget] more [OF _ e _ _ _ _ budget]
      by (cases "judge_response (hr_metadata r) offset sz len out at remaining ex") auto
  qed
qed

context http_origin
begin

lemma read_exchange:
  assumes "PerformExchange (read_args r at remaining) ops u retries m w = (ex, retries', m', w')" "http_inv perform I content captured (r, w)"
  shows "I w'" "IsOk (ex_status ex) \<Longrightarrow> length (ex_body ex) \<le> unat remaining \<and> length (ex_body ex) = unat (rs_bodyBytes (ex_response ex)) \<and>
    serves content captured (ex_response ex) (ex_body ex)"
proof -
  let ?x = "read_args r at remaining"
  have inv: "I w" "xa_transport ?x = perform" "intercept_ok I (xa_options ?x)"
    using assms(2) by (simp_all add: http_inv_def read_args_def)
  have "I w' \<and> retries' \<le> retries \<and> (IsOk (ex_status ex) \<longrightarrow>
    (length (ex_body ex) \<le> unat remaining \<and> length (ex_body ex) = unat (rs_bodyBytes (ex_response ex)) \<and>
     serves content captured (ex_response ex) (ex_body ex)) \<and>
    rs_error (ex_response ex) \<noteq> HeadersTooLarge \<and> \<not> IsRedirect (rs_status (ex_response ex)))"
  proof (rule hop_loop_rule [where I = I and A = "\<lambda>req. rq_bodyCapacity req = remaining" and start = u and
        P = "\<lambda>resp body. length body \<le> unat remaining \<and> length body = unat (rs_bodyBytes resp) \<and> serves content captured resp body",
        OF assms(1) [unfolded PerformExchange_def] inv(1)])
    fix v n k w h w'
    assume "I w" "request_headers ?x v n k w = (h, w')"
    then show "I w' \<and> (\<forall>hs. h = Inr hs \<longrightarrow> rq_bodyCapacity (build_request ?x v hs) = remaining)"
      using request_headers_inv [OF inv(3)] by (simp add: build_request_def Let_def read_args_def)
  next
    fix req w resp body us w'
    assume "I w" "rq_bodyCapacity req = remaining" "xa_transport ?x req w = ((resp, body, us), w')"
    then show "I w' \<and> length body \<le> unat remaining \<and> length body = unat (rs_bodyBytes resp) \<and> serves content captured resp body"
      using origin_inv origin_serves body_counted body_bounded inv(2) by metis
  qed simp
  then show "I w'" "IsOk (ex_status ex) \<Longrightarrow> length (ex_body ex) \<le> unat remaining \<and>
      length (ex_body ex) = unat (rs_bodyBytes (ex_response ex)) \<and> serves content captured (ex_response ex) (ex_body ex)"
    by blast+
qed

lemma framed_body:
  assumes "framed meta at remaining resp" "rs_status resp = 206" "serves content captured resp body"
    and "am_validator meta = captured" "unat (am_size meta) = length content"
  shows "body = segment content (unat at) (length body)"
proof -
  obtain v cr where "HeaderTable_Find ''Content-Range'' (rs_headers resp) = Some v" "ParseContentRange v = Some cr" "\<not> cr_unsatisfied cr"
    "cr_hasCompleteLength cr \<longrightarrow> cr_completeLength cr = am_size meta" "cr_first cr = at"
    "\<not> ContradictsCapturedValidator (rs_headers resp) (am_validator meta)" "\<not> rs_bodyOverflowed resp"
    using assms(1) by (auto simp: framed_def)
  then show ?thesis using assms(2-5) by (auto simp: serves_def)
qed

lemma read_failure_facts:
  assumes "read_failure out out' (res, xs)" "out = segment content off (length out)" "out' = segment content off (length out')"
    and "length out \<le> n" "length out' \<le> n" "n < 2 ^ 64"
  shows "length xs = unat (bytesRead res) \<and> length xs \<le> n \<and> xs = segment content off (length xs) \<and> \<not> IsOk (rr_status res)"
  using assms by (auto simp: read_failure_def fails_def partial_result_def IsOk_def)

lemma http_loop:
  assumes "unat off + unat len \<le> length content" "unat off + unat len < 2 ^ 64"
  shows "http_read_loop r off sz len first lastError retries out m w = ((res, xs), m', w') \<Longrightarrow> http_inv perform I content captured (r, w) \<Longrightarrow>
    length out \<le> unat len \<Longrightarrow> out = segment content (unat off) (length out) \<Longrightarrow>
    I w' \<and> length xs = unat (bytesRead res) \<and> length xs \<le> unat len \<and> xs = segment content (unat off) (length xs) \<and>
    (IsOk (rr_status res) \<longrightarrow> length xs = unat len)"
proof (induction "2 * retries + (if first then 1 else 0)" arbitrary: first lastError retries out m w rule: less_induct)
  case less
  have small: "unat len < 2 ^ 64" using assms(2) by linarith
  let ?at = "off + of_nat (length out)" and ?rest = "len - of_nat (length out)"
  have lo: "unat (of_nat (length out) :: u64) = length out" using le_less_trans [OF less.prems(3) small] by simp
  have at: "unat ?at = unat off + length out" using less.prems(3) assms(2) lo by (simp add: unat_u64_add)
  have rest: "unat ?rest = unat len - length out" using less.prems(3) lo by (simp add: unat_u64_sub word_le_nat_alt)
  have inv: "I w" "am_validator (hr_metadata r) = captured" "unat (am_size (hr_metadata r)) = length content"
    using less.prems(2) by (simp_all add: http_inv_def)
  have grown: "out @ ex_body ex = segment content (unat off) (length (out @ ex_body ex)) \<and> length (out @ ex_body ex) \<le> unat len"
    if "IsOk (ex_status ex)" "PerformExchange (read_args r ?at ?rest) ReaderSink_ops (hr_uri r) n s w = (ex, k, m1, w1)"
      "rs_status (ex_response ex) = 206" "framed (hr_metadata r) ?at ?rest (ex_response ex)" for ex n s k m1 w1
  proof -
    note x = read_exchange(2) [OF that(2) less.prems(2) that(1)]
    then have serves: "serves content captured (ex_response ex) (ex_body ex)" by blast
    have "ex_body ex = segment content (unat off + length out) (length (ex_body ex))"
      using framed_body [OF that(4,3) serves inv(2,3)] unfolding at .
    then have "out @ ex_body ex = segment content (unat off) (length out + length (ex_body ex))"
      using segment_append less.prems(4) by metis
    moreover have "length (ex_body ex) \<le> unat len - length out" using x unfolding rest by blast
    ultimately show ?thesis using less.prems(3) unfolding length_append by simp
  qed
  from less.prems(1) show ?case
  proof (cases rule: http_read_loop_cases)
    case complete
    then show ?thesis using inv(1) less.prems(3,4) lo by (auto simp: partial_result_def)
  next
    case (spent st)
    then show ?thesis using inv(1) less.prems(3,4) lo by (auto simp: partial_result_def IsOk_def)
  next
    case (failed ex n k s)
    then show ?thesis using read_exchange(1) [OF failed(2) less.prems(2)] less.prems(3,4) lo by (auto simp: partial_result_def IsOk_def)
  next
    case (judged ex n k s)
    have "read_failure out out (res, xs) \<or> rs_status (ex_response ex) = 206 \<and> framed (hr_metadata r) ?at ?rest (ex_response ex) \<and>
        read_failure out (out @ ex_body ex) (res, xs)"
      using judge_response_cases [where meta = "hr_metadata r" and offset = off and sz = sz and len = len and out = out and
          at = ?at and remaining = ?rest and ex = ex] judged(4) by simp
    then show ?thesis
      using read_exchange(1) [OF judged(2) less.prems(2)] grown [OF judged(3,2)] less.prems(3,4) small read_failure_facts by blast
  next
    case (more ex n k s m1 w1 out')
    have o: "rs_status (ex_response ex) = 206" "framed (hr_metadata r) ?at ?rest (ex_response ex)" "out' = out @ ex_body ex"
      using judge_response_cases [where meta = "hr_metadata r" and offset = off and sz = sz and len = len and out = out and
          at = ?at and remaining = ?rest and ex = ex] more(4) by simp_all
    have inv1: "http_inv perform I content captured (r, w1)"
      using read_exchange(1) [OF more(2) less.prems(2)] less.prems(2) by (simp add: http_inv_def)
    have out': "length out' \<le> unat len" "out' = segment content (unat off) (length out')"
      using grown [OF more(3,2) o(1,2)] unfolding o(3) by blast+
    show ?thesis by (rule less.hyps [OF _ more(5) inv1 out']) (use more(6) in simp)
  qed
qed

lemma Http_Read_cases:
  assumes "http_inv perform I content captured (r, w)" "Http_Read t0 t1 False off n (r, w) = ((res, xs), (r', w'))"
  shows "http_inv perform I content captured (r', w') \<and> length xs = unat (bytesRead res) \<and> length xs \<le> unat n \<and>
    xs = segment content (unat off) (length xs) \<and> (IsOk (rr_status res) \<longrightarrow> xs = segment content (unat off) (unat n)) \<and>
    (2 ^ 64 \<le> unat off + unat n \<longrightarrow> code (rr_status res) = InvalidArgument)"
proof -
  define rng where "rng = ResolveReadRange off n (am_size (hr_metadata r))"
  have sz: "unat (am_size (hr_metadata r)) = length content" using assms(1) by (simp add: http_inv_def)
  have keep: "http_inv perform I content captured (r\<lparr>hr_metrics := m\<rparr>, v)" if "I v" for m v
    using assms(1) that by (simp add: http_inv_def)
  note read = assms(2) [unfolded Http_Read_def Let_def prod.case, folded rng_def]
  consider "outcome rng = Overflow" | "outcome rng = Empty" | "outcome rng = Transfer" by (cases "outcome rng") auto
  then show ?thesis
  proof cases
    case 1
    then show ?thesis
      using read assms(1) ResolveReadRange_overflow [of off n "am_size (hr_metadata r)"] by (auto simp: fails_def IsOk_def http_inv_def)
  next
    case 2
    then have "unat off + unat n < 2 ^ 64" "n = 0 \<or> length content \<le> unat off"
      using ResolveReadRange_empty [of off n "am_size (hr_metadata r)"] sz by (simp_all add: rng_def)
    then show ?thesis using read 2 assms(1) by (auto simp: http_inv_def)
  next
    case 3
    let ?len = "range_length rng"
    have b: "unat off + unat n < 2 ^ 64" "unat off < length content"
      using 3 ResolveReadRange_transfer [of off n "am_size (hr_metadata r)"] sz by (simp_all add: rng_def)
    have len: "unat ?len = min (unat n) (length content - unat off)"
      using 3 ResolveReadRange_length [of off n "am_size (hr_metadata r)"] sz by (simp add: rng_def)
    obtain m1 w1 where l: "http_read_loop r off n ?len True TE_None (retry_budget (hr_options r)) [] (AddBytesRequested n (hr_metrics r)) w =
        ((res, xs), m1, w1)" and r': "w' = w1" "\<exists>m. r' = r\<lparr>hr_metrics := m\<rparr>"
      using read 3 by (auto split: prod.splits)
    have "unat off + unat ?len \<le> length content" "unat off + unat ?len < 2 ^ 64" using len b by simp_all
    note b' = this
    have nil: "length ([] :: bytes) \<le> unat ?len" "([] :: bytes) = segment content (unat off) (length ([] :: bytes))" by simp_all
    have loop: "I w1" "length xs = unat (bytesRead res)" "length xs \<le> unat ?len"
      "xs = segment content (unat off) (length xs)" "IsOk (rr_status res) \<longrightarrow> length xs = unat ?len"
      using http_loop [OF b' l assms(1) nil] by blast+
    have "segment content (unat off) (unat ?len) = segment content (unat off) (unat n)" unfolding len by (rule segment_clip)
    then show ?thesis using loop keep r' b(1) len by auto
  qed
qed

sublocale reader: asset_reader "http_inv perform I content captured" "Http_Read t0 t1 False" content
proof
  fix rw off n
  assume inv: "http_inv perform I content captured rw"
  obtain r w where rw: "rw = (r, w)" by (rule prod.exhaust)
  obtain res xs r' w' where read: "Http_Read t0 t1 False off n (r, w) = ((res, xs), (r', w'))" by (metis prod.exhaust)
  note facts = Http_Read_cases [OF inv [unfolded rw] read]
  show "http_inv perform I content captured (snd (Http_Read t0 t1 False off n rw))"
    "length (snd (fst (Http_Read t0 t1 False off n rw))) = unat (bytesRead (fst (fst (Http_Read t0 t1 False off n rw)))) \<and>
      length (snd (fst (Http_Read t0 t1 False off n rw))) \<le> unat n"
    using facts by (simp_all add: rw read)
  show "snd (fst (Http_Read t0 t1 False off n rw)) = segment content (unat off) (unat n)"
    if "IsOk (rr_status (fst (fst (Http_Read t0 t1 False off n rw))))" using facts that by (simp add: rw read)
  show "code (rr_status (fst (fst (Http_Read t0 t1 False off n rw)))) = InvalidArgument" if "2 ^ 64 \<le> unat off + unat n"
    using facts that by (simp add: rw read)
qed

lemmas http_is_reader = reader.asset_reader_axioms

end

end
