(* ===== verification/CurlTransport.thy ===== *)
theory CurlTransport
  imports HttpReader
begin

text \<open>
  \<open>libs/usd-asset-http\<close>: the libcurl transport (\<open>CurlTransport.cpp\<close>): the callbacks, the error
  classification, the pool of handles and \<open>Perform\<close>. libcurl itself is a parameter: for the
  options that were set it answers with the sequence of callbacks it makes, the code it ends
  with when no callback stops it, and what its queries return. As documented, a header or
  body callback that accepts fewer bytes than it was given ends the transfer with
  \<open>CURLE_WRITE_ERROR\<close>, a progress callback that returns non-zero with
  \<open>CURLE_ABORTED_BY_CALLBACK\<close>, and a refused socket makes libcurl try the next address.
\<close>

section \<open>Callbacks\<close>

record Exchange =
  xc_headers :: HeaderTable
  xc_headersComplete :: bool
  xc_headerBytes :: nat
  xc_headersTooLarge :: bool
  xc_destinations :: DestinationPolicy
  xc_addressesRefused :: nat
  xc_addressesAdmitted :: nat
  xc_refusedClass :: "AddressClass option"
  xc_body :: bytes
  xc_capacity :: nat
  xc_overflowed :: bool
  xc_responseMs :: int
  xc_transferMs :: int
  xc_deadline :: TransportError

text \<open>What a header line does to the table: nothing, a new table, or a new entry.\<close>

definition strip_eol :: "string \<Rightarrow> string" where
  "strip_eol line = rev (dropWhile (\<lambda>c. c = CHR 0x0D \<or> c = CHR 0x0A) (rev line))"

definition header_line :: "string \<Rightarrow> HeaderTable \<times> bool \<Rightarrow> HeaderTable \<times> bool" where
  "header_line line0 hc =
    (let line = strip_eol line0
     in if line = [] then (fst hc, True)
        else if take 5 line = ''HTTP/'' then ([], False)
        else case find_index (\<lambda>c. c = CHR '':'') line of
               None \<Rightarrow> hc
             | Some colon \<Rightarrow>
                 (HeaderTable_Add (take colon line) (dropWhile (\<lambda>c. c = CHR '' '' \<or> c = CHR 0x09) (drop (colon + 1) line)) (fst hc), snd hc))"

definition OnHeader :: "string \<Rightarrow> Exchange \<Rightarrow> nat \<times> Exchange" where
  "OnHeader line ex =
    (if length line > kMaxResponseHeaderBytes - xc_headerBytes ex then (0, ex\<lparr>xc_headersTooLarge := True\<rparr>)
     else case header_line line (xc_headers ex, xc_headersComplete ex) of
            (headers, complete) \<Rightarrow>
              (length line, ex\<lparr>xc_headerBytes := xc_headerBytes ex + length line, xc_headers := headers, xc_headersComplete := complete\<rparr>))"

definition OnBody :: "bytes \<Rightarrow> Exchange \<Rightarrow> nat \<times> Exchange" where
  "OnBody chunk ex =
    (let room = xc_capacity ex - length (xc_body ex);
         taken = (if length chunk < room then length chunk else room);
         ex1 = ex\<lparr>xc_body := xc_body ex @ take taken chunk\<rparr>
     in if taken < length chunk then (taken, ex1\<lparr>xc_overflowed := True\<rparr>) else (length chunk, ex1))"

datatype address_family = AF_INET | AF_INET6 | AF_other

record curl_sockaddr =
  sa_family :: address_family
  sa_addrlen :: nat
  sa_address :: "u8 list"

definition ClassifySocketAddress :: "curl_sockaddr \<Rightarrow> AddressClass option" where
  "ClassifySocketAddress address =
    (if sa_family address = AF_INET \<and> sa_addrlen address \<ge> 16 then Some (ClassifyIPv4 (sa_address address))
     else if sa_family address = AF_INET6 \<and> sa_addrlen address \<ge> 28 then Some (ClassifyIPv6 (sa_address address))
     else None)"

text \<open>The answer is whether a socket was made; \<open>created\<close> is whether the operating system could.\<close>

definition OnOpenSocket :: "bool \<Rightarrow> curl_sockaddr option \<Rightarrow> bool \<Rightarrow> Exchange \<Rightarrow> bool \<times> Exchange" where
  "OnOpenSocket is_ipcxn address created ex =
    (let classified = (if is_ipcxn then Option.bind address ClassifySocketAddress else None)
     in if (case classified of None \<Rightarrow> True | Some c \<Rightarrow> \<not> Permits (xc_destinations ex) c)
        then (False, ex\<lparr>xc_addressesRefused := xc_addressesRefused ex + 1, xc_refusedClass := classified\<rparr>)
        else (created, ex\<lparr>xc_addressesAdmitted := xc_addressesAdmitted ex + 1\<rparr>))"

definition HasNonAscii :: "string \<Rightarrow> bool" where
  "HasNonAscii str \<longleftrightarrow> list_ex (\<lambda>c. ord c \<ge> 0x80) str"

text \<open>What libcurl's URL parser says: whether it could be made, the host, and the host in ASCII form.\<close>

record curl_parsed =
  cu_made :: bool
  cu_host :: "string option"
  cu_ascii :: "string option"

definition PermittedByClient :: "curl_parsed \<Rightarrow> DestinationPolicy \<Rightarrow> bool \<times> AddressClass option" where
  "PermittedByClient parsed policy =
    (if \<not> cu_made parsed then (True, None)
     else
       let host = (case cu_host parsed of None \<Rightarrow> [] | Some t \<Rightarrow> t);
           host = (if HasNonAscii host then (case cu_ascii parsed of None \<Rightarrow> host | Some t \<Rightarrow> t) else host)
       in if host = [] then (True, None)
          else case ClassifyHostLiteral host of
                 None \<Rightarrow> (True, None)
               | Some c \<Rightarrow> if \<not> Permits policy c then (False, Some c) else (True, None))"

text \<open>\<open>totalUs\<close> and \<open>pretransferUs\<close> are what the handle reports, if it does.\<close>

definition OnProgressWithClock :: "int option \<Rightarrow> int option \<Rightarrow> Exchange \<Rightarrow> int \<times> Exchange" where
  "OnProgressWithClock totalTime pretransfer ex =
    (case totalTime of
       None \<Rightarrow> (0, ex)
     | Some totalUs \<Rightarrow>
         if xc_transferMs ex > 0 \<and> totalUs div 1000 > xc_transferMs ex then
           (1, ex\<lparr>xc_deadline := (if xc_headersComplete ex then TransferTimeout else ResponseTimeout)\<rparr>)
         else if \<not> xc_headersComplete ex \<and> xc_responseMs ex > 0 then
           (case pretransfer of
              None \<Rightarrow> (0, ex)
            | Some pretransferUs \<Rightarrow>
                if pretransferUs > 0 \<and> (totalUs - pretransferUs) div 1000 > xc_responseMs ex
                then (1, ex\<lparr>xc_deadline := ResponseTimeout\<rparr>) else (0, ex))
         else (0, ex))"

datatype CURLcode = CURLE_OK | CURLE_COULDNT_RESOLVE_PROXY | CURLE_COULDNT_RESOLVE_HOST | CURLE_COULDNT_CONNECT
  | CURLE_SSL_CONNECT_ERROR | CURLE_PEER_FAILED_VERIFICATION | CURLE_SSL_CIPHER | CURLE_OPERATION_TIMEDOUT
  | CURLE_ABORTED_BY_CALLBACK | CURLE_PARTIAL_FILE | CURLE_RECV_ERROR | CURLE_SEND_ERROR | CURLE_GOT_NOTHING
  | CURLE_UNSUPPORTED_PROTOCOL | CURLE_URL_MALFORMAT | CURLE_WEIRD_SERVER_REPLY | CURLE_TOO_LARGE | CURLE_OUT_OF_MEMORY
  | CURLE_WRITE_ERROR | CURLE_other int

definition ClassifyCurlError :: "CURLcode \<Rightarrow> Exchange \<Rightarrow> bool \<Rightarrow> TransportError" where
  "ClassifyCurlError c ex connected =
    (case c of
       CURLE_COULDNT_RESOLVE_PROXY \<Rightarrow> ConnectFailed
     | CURLE_COULDNT_RESOLVE_HOST \<Rightarrow> ConnectFailed
     | CURLE_COULDNT_CONNECT \<Rightarrow> ConnectFailed
     | CURLE_SSL_CONNECT_ERROR \<Rightarrow> ConnectFailed
     | CURLE_PEER_FAILED_VERIFICATION \<Rightarrow> ConnectFailed
     | CURLE_SSL_CIPHER \<Rightarrow> ConnectFailed
     | CURLE_OPERATION_TIMEDOUT \<Rightarrow>
         if \<not> connected then ConnectTimeout else if xc_headersComplete ex then TransferTimeout else ResponseTimeout
     | CURLE_ABORTED_BY_CALLBACK \<Rightarrow> if xc_deadline ex \<noteq> TE_None then xc_deadline ex else ConnectionLost
     | CURLE_PARTIAL_FILE \<Rightarrow> IncompleteBody
     | CURLE_RECV_ERROR \<Rightarrow> ConnectionLost
     | CURLE_SEND_ERROR \<Rightarrow> ConnectionLost
     | CURLE_GOT_NOTHING \<Rightarrow> ConnectionLost
     | CURLE_UNSUPPORTED_PROTOCOL \<Rightarrow> Malformed
     | CURLE_URL_MALFORMAT \<Rightarrow> Malformed
     | CURLE_WEIRD_SERVER_REPLY \<Rightarrow> Malformed
     | CURLE_TOO_LARGE \<Rightarrow> HeadersTooLarge
     | CURLE_OUT_OF_MEMORY \<Rightarrow> Internal
     | _ \<Rightarrow> if connected then ConnectionLost else ConnectFailed)"

section \<open>The pool of handles\<close>

definition kMaxIdle :: nat where "kMaxIdle = 16"

text \<open>\<open>fresh\<close> is what \<open>curl_easy_init\<close> returns; the back of the vector is the last element.\<close>

definition Pool_Acquire :: "nat option \<Rightarrow> nat list \<Rightarrow> nat option \<times> nat list" where
  "Pool_Acquire fresh idle = (if idle \<noteq> [] then (Some (last idle), butlast idle) else (fresh, idle))"

definition Pool_Release :: "nat option \<Rightarrow> nat list \<Rightarrow> nat list" where
  "Pool_Release handle idle =
    (case handle of None \<Rightarrow> idle | Some h \<Rightarrow> if length idle \<ge> kMaxIdle then idle else idle @ [h])"

section \<open>One request\<close>

datatype curl_event = EvSocket bool "curl_sockaddr option" bool | EvHeader string | EvBody bytes | EvProgress "int option" "int option"

text \<open>The transfer: libcurl makes its callbacks in turn until one of them stops it.\<close>

fun curl_transfer :: "curl_event list \<Rightarrow> CURLcode \<Rightarrow> Exchange \<Rightarrow> CURLcode \<times> Exchange" where
  "curl_transfer [] c ex = (c, ex)"
| "curl_transfer (EvSocket p a ok # es) c ex = curl_transfer es c (snd (OnOpenSocket p a ok ex))"
| "curl_transfer (EvHeader line # es) c ex =
    (case OnHeader line ex of (n, ex') \<Rightarrow> if n \<noteq> length line then (CURLE_WRITE_ERROR, ex') else curl_transfer es c ex')"
| "curl_transfer (EvBody chunk # es) c ex =
    (case OnBody chunk ex of (n, ex') \<Rightarrow> if n \<noteq> length chunk then (CURLE_WRITE_ERROR, ex') else curl_transfer es c ex')"
| "curl_transfer (EvProgress t p # es) c ex =
    (case OnProgressWithClock t p ex of (n, ex') \<Rightarrow> if n \<noteq> 0 then (CURLE_ABORTED_BY_CALLBACK, ex') else curl_transfer es c ex')"

definition request_lines :: "TransportRequest \<Rightarrow> string list" where
  "request_lines req =
    (if rq_range req \<noteq> [] then [''Range: '' @ rq_range req] else []) @
    (if rq_ifRange req \<noteq> [] then [''If-Range: '' @ rq_ifRange req] else []) @
    [''Accept-Encoding: identity''] @ map (\<lambda>added. rh_name added @ '': '' @ rh_value added) (rq_headers req)"

record curl_options =
  co_url :: string
  co_lines :: "string list"
  co_userAgent :: string
  co_followLocation :: bool
  co_protocols :: "string list"
  co_nobody :: bool
  co_noSignal :: bool
  co_connectMs :: int
  co_timeoutMs :: int

record curl_answer =
  ca_parsed :: curl_parsed
  ca_fresh :: "nat option"
  ca_slist :: bool
  ca_events :: "curl_event list"
  ca_code :: CURLcode
  ca_status :: int
  ca_pretransfer :: int
  ca_elapsedUs :: u64

record curl_world =
  cw_pool :: "nat list"
  cw_runs :: "nat \<Rightarrow> curl_options \<Rightarrow> curl_answer"

definition curl_set :: "TransportRequest \<Rightarrow> curl_options" where
  "curl_set req = \<lparr>co_url = rq_url req, co_lines = request_lines req, co_userAgent = rq_userAgent req, co_followLocation = False,
     co_protocols = [''http'', ''https''], co_nobody = (rq_method req = Head), co_noSignal = True,
     co_connectMs = connectMs (rq_timeouts req), co_timeoutMs = transferMs (rq_timeouts req)\<rparr>"

definition Exchange_new :: "TransportRequest \<Rightarrow> Exchange" where
  "Exchange_new req = \<lparr>xc_headers = [], xc_headersComplete = False, xc_headerBytes = 0, xc_headersTooLarge = False,
     xc_destinations = rq_destinations req, xc_addressesRefused = 0, xc_addressesAdmitted = 0, xc_refusedClass = None,
     xc_body = [], xc_capacity = (if rq_hasBody req then unat (rq_bodyCapacity req) else 0), xc_overflowed = False,
     xc_responseMs = responseMs (rq_timeouts req), xc_transferMs = transferMs (rq_timeouts req), xc_deadline = TE_None\<rparr>"

definition curl_response :: "int \<Rightarrow> int \<Rightarrow> CURLcode \<Rightarrow> Exchange \<Rightarrow> TransportResponse" where
  "curl_response status pretransfer c ex =
    (let response = TransportResponse_empty\<lparr>rs_status := status, rs_headers := xc_headers ex, rs_bodyBytes := of_nat (length (xc_body ex)),
           rs_bodyOverflowed := xc_overflowed ex, rs_connected := (pretransfer > 0)\<rparr>
     in if c \<noteq> CURLE_OK \<and> xc_addressesRefused ex > 0 \<and> xc_addressesAdmitted ex = 0 then
          response\<lparr>rs_error := DestinationRefused, rs_refusedClass := xc_refusedClass ex\<rparr>
        else if c = CURLE_WRITE_ERROR \<and> xc_headersTooLarge ex then response\<lparr>rs_error := HeadersTooLarge, rs_headers := []\<rparr>
        else if c = CURLE_WRITE_ERROR \<and> xc_overflowed ex then response\<lparr>rs_error := TE_None\<rparr>
        else if c \<noteq> CURLE_OK then response\<lparr>rs_error := ClassifyCurlError c ex (rs_connected response)\<rparr>
        else response)"

definition Curl_Perform :: "curl_world transport" where
  "Curl_Perform req w =
    (let a = cw_runs w 0 (curl_set req);
         w1 = w\<lparr>cw_runs := (\<lambda>n. cw_runs w (Suc n))\<rparr>
     in case PermittedByClient (ca_parsed a) (rq_destinations req) of
          (False, refused) \<Rightarrow>
            ((TransportResponse_empty\<lparr>rs_error := DestinationRefused, rs_refusedClass := refused\<rparr>, [], ca_elapsedUs a), w1)
        | (True, _) \<Rightarrow>
            (case Pool_Acquire (ca_fresh a) (cw_pool w) of
               (None, pool) \<Rightarrow> ((TransportResponse_empty\<lparr>rs_error := Internal\<rparr>, [], ca_elapsedUs a), w1\<lparr>cw_pool := pool\<rparr>)
             | (Some handle, pool) \<Rightarrow>
                 let released = w1\<lparr>cw_pool := Pool_Release (Some handle) pool\<rparr>
                 in if \<not> ca_slist a then ((TransportResponse_empty\<lparr>rs_error := Internal\<rparr>, [], ca_elapsedUs a), released)
                    else case curl_transfer (ca_events a) (ca_code a) (Exchange_new req) of
                           (c, ex) \<Rightarrow> ((curl_response (ca_status a) (ca_pretransfer a) c ex, xc_body ex, ca_elapsedUs a), released)))"

section \<open>What a transfer collects\<close>

text \<open>The header block and the body as they arrive, without any bound.\<close>

fun wire_headers :: "curl_event list \<Rightarrow> HeaderTable \<times> bool \<Rightarrow> HeaderTable \<times> bool" where
  "wire_headers [] hc = hc"
| "wire_headers (EvHeader line # es) hc = wire_headers es (header_line line hc)"
| "wire_headers (_ # es) hc = wire_headers es hc"

fun wire_body :: "curl_event list \<Rightarrow> bytes" where
  "wire_body [] = []"
| "wire_body (EvBody chunk # es) = chunk @ wire_body es"
| "wire_body (_ # es) = wire_body es"

lemma prefix_step: "prefix pre es \<Longrightarrow> prefix (e # pre) (e # es)"
  by simp

lemma OnOpenSocket_keeps:
  "xc_headers (snd (OnOpenSocket p a ok ex)) = xc_headers ex" "xc_headersComplete (snd (OnOpenSocket p a ok ex)) = xc_headersComplete ex"
  "xc_body (snd (OnOpenSocket p a ok ex)) = xc_body ex" "xc_overflowed (snd (OnOpenSocket p a ok ex)) = xc_overflowed ex"
  "xc_capacity (snd (OnOpenSocket p a ok ex)) = xc_capacity ex" "xc_headerBytes (snd (OnOpenSocket p a ok ex)) = xc_headerBytes ex"
  by (simp_all add: OnOpenSocket_def Let_def)

lemma OnProgress_keeps:
  assumes "OnProgressWithClock t p ex = (n, ex')"
  shows "xc_headers ex' = xc_headers ex" "xc_headersComplete ex' = xc_headersComplete ex" "xc_body ex' = xc_body ex"
    "xc_overflowed ex' = xc_overflowed ex" "xc_capacity ex' = xc_capacity ex" "xc_headerBytes ex' = xc_headerBytes ex"
  using assms by (auto simp: OnProgressWithClock_def split: option.splits if_splits)

lemma curl_transfer_wire:
  "curl_transfer es c ex = (c', ex') \<Longrightarrow>
    \<exists>pre. prefix pre es \<and> (xc_headers ex', xc_headersComplete ex') = wire_headers pre (xc_headers ex, xc_headersComplete ex) \<and>
      (xc_overflowed ex' \<or> xc_body ex' = xc_body ex @ wire_body pre)"
proof (induction es c ex rule: curl_transfer.induct)
  case (1 c ex)
  then show ?case by (intro exI [of _ "[]"]) simp
next
  case (2 p a ok es c ex)
  then obtain pre where "prefix pre es"
    "(xc_headers ex', xc_headersComplete ex') = wire_headers pre (xc_headers ex, xc_headersComplete ex)"
    "xc_overflowed ex' \<or> xc_body ex' = xc_body ex @ wire_body pre" by (auto simp: OnOpenSocket_keeps)
  then show ?case by (intro exI [of _ "EvSocket p a ok # pre"]) simp
next
  case (3 line es c ex)
  show ?case
  proof (cases "length line > kMaxResponseHeaderBytes - xc_headerBytes ex")
    case True
    then show ?thesis using 3 by (intro exI [of _ "[]"]) (auto simp: OnHeader_def kMaxResponseHeaderBytes_def split: if_splits)
  next
    case False
    obtain h b where hb: "header_line line (xc_headers ex, xc_headersComplete ex) = (h, b)" by fastforce
    obtain ex1 where e: "OnHeader line ex = (length line, ex1)" "xc_headers ex1 = h" "xc_headersComplete ex1 = b" "xc_body ex1 = xc_body ex"
      using False hb by (simp add: OnHeader_def)
    then obtain pre where "prefix pre es" "(xc_headers ex', xc_headersComplete ex') = wire_headers pre (h, b)"
      "xc_overflowed ex' \<or> xc_body ex' = xc_body ex @ wire_body pre" using 3 by auto
    then show ?thesis using hb by (intro exI [of _ "EvHeader line # pre"]) simp
  qed
next
  case (4 chunk es c ex)
  show ?case
  proof (cases "length chunk > xc_capacity ex - length (xc_body ex)")
    case True
    then show ?thesis using 4 by (intro exI [of _ "[]"]) (auto simp: OnBody_def Let_def split: if_splits)
  next
    case False
    then have "OnBody chunk ex = (length chunk, ex\<lparr>xc_body := xc_body ex @ chunk\<rparr>)"
      by (auto simp: OnBody_def Let_def)
    then obtain pre where "prefix pre es" "(xc_headers ex', xc_headersComplete ex') = wire_headers pre (xc_headers ex, xc_headersComplete ex)"
      "xc_overflowed ex' \<or> xc_body ex' = (xc_body ex @ chunk) @ wire_body pre" using 4 by auto
    then show ?thesis by (intro exI [of _ "EvBody chunk # pre"]) simp
  qed
next
  case (5 t p es c ex)
  obtain n ex1 where e: "OnProgressWithClock t p ex = (n, ex1)" by fastforce
  show ?case
  proof (cases "n = 0")
    case True
    then obtain pre where "prefix pre es" "(xc_headers ex', xc_headersComplete ex') = wire_headers pre (xc_headers ex, xc_headersComplete ex)"
      "xc_overflowed ex' \<or> xc_body ex' = xc_body ex @ wire_body pre" using 5 e OnProgress_keeps [OF e] by auto
    then show ?thesis by (intro exI [of _ "EvProgress t p # pre"]) simp
  next
    case False
    then show ?thesis using 5 e OnProgress_keeps [OF e] by (intro exI [of _ "[]"]) auto
  qed
qed

lemma curl_transfer_body: "curl_transfer es c ex = (c', ex') \<Longrightarrow> length (xc_body ex) \<le> xc_capacity ex \<Longrightarrow>
    length (xc_body ex') \<le> xc_capacity ex' \<and> xc_capacity ex' = xc_capacity ex"
proof (induction es c ex rule: curl_transfer.induct)
  case (3 line es c ex)
  then show ?case by (auto simp: OnHeader_def split: if_splits prod.splits)
next
  case (4 chunk es c ex)
  show ?case
  proof (cases "length chunk \<le> xc_capacity ex - length (xc_body ex)")
    case True
    then have "OnBody chunk ex = (length chunk, ex\<lparr>xc_body := xc_body ex @ chunk\<rparr>)" by (auto simp: OnBody_def Let_def)
    moreover have "length (xc_body ex @ chunk) \<le> xc_capacity ex" using True 4(3) by simp
    ultimately show ?thesis using 4(1) [of "length chunk" "ex\<lparr>xc_body := xc_body ex @ chunk\<rparr>"] 4(2) by simp
  qed (use 4 in \<open>auto simp: OnBody_def Let_def split: if_splits\<close>)
next
  case (5 t p es c ex)
  obtain n ex1 where e: "OnProgressWithClock t p ex = (n, ex1)" by fastforce
  then show ?case using 5 OnProgress_keeps [OF e] by (auto split: if_splits)
qed (simp_all add: OnOpenSocket_keeps)

section \<open>The transport's contract\<close>

lemma curl_response_simps [simp]:
  "rs_bodyBytes (curl_response st pt c ex) = of_nat (length (xc_body ex))" "rs_status (curl_response st pt c ex) = st"
  "rs_bodyOverflowed (curl_response st pt c ex) = xc_overflowed ex"
  by (simp_all add: curl_response_def Let_def)

lemma curl_response_headers: "rs_headers (curl_response st pt c ex) \<in> {[], xc_headers ex}"
  by (simp add: curl_response_def Let_def)

lemma Curl_Perform_cases:
  assumes "Curl_Perform req w = ((resp, body, us), w')"
  obtains (nothing) "body = []" "rs_bodyBytes resp = 0" "rs_status resp = 0"
  | (ran) c ex where "curl_transfer (ca_events (cw_runs w 0 (curl_set req))) (ca_code (cw_runs w 0 (curl_set req))) (Exchange_new req) = (c, ex)"
      "resp = curl_response (ca_status (cw_runs w 0 (curl_set req))) (ca_pretransfer (cw_runs w 0 (curl_set req))) c ex" "body = xc_body ex"
  using assms by (auto simp: Curl_Perform_def Let_def TransportResponse_empty_def split: prod.splits option.splits if_splits bool.splits)

interpretation curl: transport Curl_Perform
proof
  fix req w resp body us w'
  assume p: "Curl_Perform req w = ((resp, body, us), w')"
  have "length body \<le> unat (rq_bodyCapacity req) \<and> length body = unat (rs_bodyBytes resp)"
    using p
  proof (cases rule: Curl_Perform_cases)
    case (ran c ex)
    have "length (xc_body ex) \<le> unat (rq_bodyCapacity req)"
      using curl_transfer_body [OF ran(1)] by (simp add: Exchange_new_def split: if_splits)
    then show ?thesis using ran(2,3) le_less_trans [OF _ unat_u64_less] by fastforce
  qed simp
  then show "length body = unat (rs_bodyBytes resp)" "length body \<le> unat (rq_bodyCapacity req)" by simp_all
qed

text \<open>
  An origin that serves one revision, stated on what arrives over the wire: at every
  point of every transfer, a partial response framed and validated as that revision has
  sent bytes of it.
\<close>

definition curl_honest :: "bytes \<Rightarrow> Validator \<Rightarrow> curl_world \<Rightarrow> bool" where
  "curl_honest content captured w \<longleftrightarrow>
    (\<forall>n opts pre. prefix pre (ca_events (cw_runs w n opts)) \<longrightarrow>
       serves content captured
         (TransportResponse_empty\<lparr>rs_status := ca_status (cw_runs w n opts), rs_headers := fst (wire_headers pre ([], False))\<rparr>)
         (wire_body pre))"

lemma serves_cong:
  assumes "serves content captured resp body" "rs_status resp' = rs_status resp" "rs_headers resp' \<in> {[], rs_headers resp}"
    and "rs_bodyOverflowed resp' \<or> \<not> rs_bodyOverflowed resp \<and> body' = body"
  shows "serves content captured resp' body'"
  using assms by (auto simp: serves_def)

interpretation curl_origin: http_origin Curl_Perform "curl_honest content captured" content captured
proof
  fix w req answer w'
  assume "curl_honest content captured w" "Curl_Perform req w = (answer, w')"
  moreover from this(2) have "cw_runs w' = (\<lambda>n. cw_runs w (Suc n))"
    by (auto simp: Curl_Perform_def Let_def split: prod.splits option.splits if_splits bool.splits)
  ultimately show "curl_honest content captured w'" by (simp add: curl_honest_def)
next
  fix w req resp body us w'
  assume h: "curl_honest content captured w" and p: "Curl_Perform req w = ((resp, body, us), w')"
  from p show "serves content captured resp body"
  proof (cases rule: Curl_Perform_cases)
    case (ran c ex)
    let ?a = "cw_runs w 0 (curl_set req)"
    obtain pre where pre: "prefix pre (ca_events ?a)" "(xc_headers ex, xc_headersComplete ex) = wire_headers pre ([], False)"
      "xc_overflowed ex \<or> xc_body ex = wire_body pre"
      using curl_transfer_wire [OF ran(1)] by (auto simp: Exchange_new_def)
    have "serves content captured (TransportResponse_empty\<lparr>rs_status := ca_status ?a, rs_headers := xc_headers ex\<rparr>) (wire_body pre)"
      using h [unfolded curl_honest_def, rule_format, OF pre(1)] by (simp add: pre(2) [symmetric])
    then show ?thesis
      unfolding ran(2,3)
      by (rule serves_cong) (use curl_response_headers pre(3) in \<open>auto simp: TransportResponse_empty_def\<close>)
  qed (simp add: serves_def)
qed

section \<open>Which sockets a transfer opens\<close>

text \<open>The addresses a transfer makes a socket for, in order.\<close>

fun opened_sockets :: "curl_event list \<Rightarrow> Exchange \<Rightarrow> curl_sockaddr option list" where
  "opened_sockets [] ex = []"
| "opened_sockets (EvSocket p a ok # es) ex =
    (case OnOpenSocket p a ok ex of (made, ex') \<Rightarrow> (if made then [a] else []) @ opened_sockets es ex')"
| "opened_sockets (EvHeader line # es) ex =
    (case OnHeader line ex of (n, ex') \<Rightarrow> if n \<noteq> length line then [] else opened_sockets es ex')"
| "opened_sockets (EvBody chunk # es) ex =
    (case OnBody chunk ex of (n, ex') \<Rightarrow> if n \<noteq> length chunk then [] else opened_sockets es ex')"
| "opened_sockets (EvProgress t p # es) ex =
    (case OnProgressWithClock t p ex of (n, ex') \<Rightarrow> if n \<noteq> 0 then [] else opened_sockets es ex')"

definition permitted_address :: "DestinationPolicy \<Rightarrow> curl_sockaddr option \<Rightarrow> bool" where
  "permitted_address policy a \<longleftrightarrow> (\<exists>addr c. a = Some addr \<and> ClassifySocketAddress addr = Some c \<and> Permits policy c)"

definition own_deadline :: "Exchange \<Rightarrow> bool" where
  "own_deadline ex \<longleftrightarrow> xc_deadline ex \<in> {TE_None, ResponseTimeout, TransferTimeout}"

lemma OnOpenSocket_made: "fst (OnOpenSocket p a ok ex) \<Longrightarrow> permitted_address (xc_destinations ex) a \<and> 0 < xc_addressesAdmitted (snd (OnOpenSocket p a ok ex))"
  by (auto simp: OnOpenSocket_def Let_def permitted_address_def bind_eq_Some_conv split: option.splits if_splits)

lemma OnOpenSocket_policy:
  "xc_destinations (snd (OnOpenSocket p a ok ex)) = xc_destinations ex" "own_deadline (snd (OnOpenSocket p a ok ex)) = own_deadline ex"
  "xc_addressesAdmitted ex \<le> xc_addressesAdmitted (snd (OnOpenSocket p a ok ex))"
  by (simp_all add: OnOpenSocket_def Let_def own_deadline_def)

definition same_policy :: "Exchange \<Rightarrow> Exchange \<Rightarrow> bool" where
  "same_policy ex ex' \<longleftrightarrow> xc_destinations ex' = xc_destinations ex \<and> xc_addressesAdmitted ex' = xc_addressesAdmitted ex \<and>
     (own_deadline ex \<longrightarrow> own_deadline ex')"

lemma OnHeader_policy: "same_policy ex (snd (OnHeader line ex))"
  by (simp add: OnHeader_def same_policy_def own_deadline_def split_beta)

lemma OnBody_policy: "same_policy ex (snd (OnBody chunk ex))"
  by (simp add: OnBody_def same_policy_def own_deadline_def Let_def)

lemma OnProgress_policy: "same_policy ex (snd (OnProgressWithClock t p ex))"
  by (simp add: OnProgressWithClock_def same_policy_def own_deadline_def split: option.split)

lemma opened_sockets_permitted:
  "curl_transfer es c ex = (c', ex') \<Longrightarrow> own_deadline ex \<Longrightarrow>
    list_all (permitted_address (xc_destinations ex)) (opened_sockets es ex) \<and> own_deadline ex' \<and>
    xc_addressesAdmitted ex \<le> xc_addressesAdmitted ex' \<and> (xc_addressesAdmitted ex' = 0 \<longrightarrow> opened_sockets es ex = [])"
proof (induction es c ex rule: curl_transfer.induct)
  case (2 p a ok es c ex)
  obtain made ex1 where o: "OnOpenSocket p a ok ex = (made, ex1)" by fastforce
  then show ?case using 2 OnOpenSocket_made [of p a ok ex] OnOpenSocket_policy [where p = p and a = a and ok = ok and ex = ex] by auto
next
  case (3 line es c ex)
  obtain n ex1 where o: "OnHeader line ex = (n, ex1)" by fastforce
  then show ?case using 3 OnHeader_policy [of ex line] by (auto simp: same_policy_def split: if_splits)
next
  case (4 chunk es c ex)
  obtain n ex1 where o: "OnBody chunk ex = (n, ex1)" by fastforce
  then show ?case using 4 OnBody_policy [of ex chunk] by (auto simp: same_policy_def split: if_splits)
next
  case (5 t p es c ex)
  obtain n ex1 where o: "OnProgressWithClock t p ex = (n, ex1)" by fastforce
  then show ?case using 5 OnProgress_policy [of ex t p] by (auto simp: same_policy_def split: if_splits)
qed simp

lemma refusal_code:
  assumes "own_deadline ex" "rs_error (curl_response st pt c ex) = DestinationRefused"
  shows "xc_addressesAdmitted ex = 0"
  using assms by (auto simp: curl_response_def Let_def TransportResponse_empty_def ClassifyCurlError_def own_deadline_def
      split: if_splits CURLcode.splits)

text \<open>
  C15: a transfer never opens a socket to an address whose class the request's policy does
  not permit, however the name was resolved and whatever addresses libcurl tries, and not
  to an address that cannot be classified; and a request that is reported as refused by the
  policy opened no socket at all.
\<close>

theorem curl_sockets_permitted:
  "case curl_transfer es c (Exchange_new req) of (c', ex) \<Rightarrow>
     list_all (permitted_address (rq_destinations req)) (opened_sockets es (Exchange_new req)) \<and>
     (if rs_error (curl_response st pt c' ex) = DestinationRefused then opened_sockets es (Exchange_new req) = [] else True)"
proof -
  obtain c' ex where t: "curl_transfer es c (Exchange_new req) = (c', ex)" by fastforce
  have "own_deadline (Exchange_new req)" "xc_destinations (Exchange_new req) = rq_destinations req"
    by (simp_all add: own_deadline_def Exchange_new_def)
  then show ?thesis using opened_sockets_permitted [OF t] refusal_code [of ex st pt c'] t by auto
qed

section \<open>Handles of the pool\<close>

text \<open>
  The pool with the handles that are checked out. \<open>curl_easy_init\<close> returns no handle that is
  in use; every step is one locked section.
\<close>

inductive pool_step :: "nat list \<times> nat list \<Rightarrow> nat list \<times> nat list \<Rightarrow> bool" where
  acquire: "Pool_Acquire fresh idle = (Some h, idle') \<Longrightarrow> (\<And>f. fresh = Some f \<Longrightarrow> f \<notin> set idle \<union> set used) \<Longrightarrow>
    pool_step (idle, used) (idle', h # used)"
| acquire_failed: "Pool_Acquire fresh idle = (None, idle') \<Longrightarrow> pool_step (idle, used) (idle', used)"
| release: "h \<in> set used \<Longrightarrow> pool_step (idle, used) (Pool_Release (Some h) idle, remove1 h used)"

definition pool_inv :: "nat list \<times> nat list \<Rightarrow> bool" where
  "pool_inv s \<longleftrightarrow> distinct (fst s @ snd s) \<and> length (fst s) \<le> kMaxIdle"

lemma pool_step_inv: "pool_step s s' \<Longrightarrow> pool_inv s \<Longrightarrow> pool_inv s'"
proof (induction rule: pool_step.induct)
  case (acquire fresh idle h idle' used)
  show ?case
  proof (cases "idle = []")
    case False
    then have "idle = idle' @ [h]" using acquire(1) append_butlast_last_id by (fastforce simp: Pool_Acquire_def)
    then show ?thesis using acquire(3) by (auto simp: pool_inv_def)
  qed (use acquire in \<open>auto simp: Pool_Acquire_def pool_inv_def\<close>)
next
  case (acquire_failed fresh idle idle' used)
  then show ?case by (auto simp: Pool_Acquire_def split: if_splits)
next
  case (release h used idle)
  then show ?case by (auto simp: Pool_Release_def pool_inv_def set_remove1_eq distinct_remove1 intro: notin_set_remove1)
qed

text \<open>
  C16: after every sequence of checkouts and returns, from any number of threads, no handle
  is checked out twice or both idle and in use, and at most sixteen are kept idle.
\<close>

theorem pool_exclusive:
  assumes "pool_step\<^sup>*\<^sup>* ([], []) (idle, used)"
  shows "distinct (idle @ used) \<and> length idle \<le> 16"
proof -
  have "pool_inv s" if "pool_step\<^sup>*\<^sup>* ([], []) s" for s
    using that
  proof (induction rule: rtranclp_induct)
    case (step s s')
    then show ?case using pool_step_inv by blast
  qed (simp add: pool_inv_def)
  from this [OF assms] show ?thesis by (simp add: pool_inv_def kMaxIdle_def)
qed

theorem pool_exclusive_witness: "pool_step\<^sup>*\<^sup>* ([], []) ([7], [8]) \<and> distinct ([7, 8] :: nat list) \<and> length [7 :: nat] \<le> 16"
proof -
  have a: "pool_step ([], []) ([], [7])" by (rule acquire [of "Some 7"]) (simp_all add: Pool_Acquire_def)
  have b: "pool_step ([], [7]) ([], [8, 7])" by (rule acquire [of "Some 8"]) (simp_all add: Pool_Acquire_def)
  have "pool_step ([], [8, 7]) (Pool_Release (Some 7) [], remove1 7 [8, 7])" by (rule release) simp
  then have c: "pool_step ([], [8, 7]) ([7], [8])" by (simp add: Pool_Release_def kMaxIdle_def)
  have r: "pool_step\<^sup>*\<^sup>* ([], []) ([7], [8])"
    using rtranclp.rtrancl_into_rtrancl [of pool_step, OF rtranclp.rtrancl_into_rtrancl [of pool_step, OF r_into_rtranclp [of pool_step, OF a] b] c] .
  show ?thesis using pool_exclusive [OF r] r by simp
qed

end
