(* ===== verification/HttpStack.thy ===== *)
theory HttpStack
  imports StackCorrect CurlTransport
begin

text \<open>
  The HTTP reader as it is deployed: the bound on the requests one read makes, what \<open>Open\<close>
  hands out, the reader over the libcurl transport, and the cache on top of it.
\<close>

section \<open>How many requests a read makes\<close>

text \<open>The reader with a transport that writes down each request.\<close>

definition recorded_reader :: "'w HttpReader \<Rightarrow> 'w recording HttpReader" where
  "recorded_reader r = \<lparr>hr_transport = recorded (hr_transport r), hr_options = recorded_options (hr_options r), hr_origin = hr_origin r,
     hr_uri = hr_uri r, hr_metadata = hr_metadata r, hr_ifRangeValue = hr_ifRangeValue r, hr_metrics = hr_metrics r\<rparr>"

definition read_requests :: "u64 \<Rightarrow> u64 \<Rightarrow> 'w HttpReader \<Rightarrow> 'w \<Rightarrow> TransportRequest list" where
  "read_requests off sz r w = snd (snd (snd (Http_Read 0 0 False off sz (recorded_reader r, (w, [])))))"

lemma recorded_read_args: "read_args (recorded_reader r) at n = recorded_args (read_args r at n)"
  by (simp add: recorded_reader_def read_args_def recorded_args_def)

lemma recorded_exchange:
  assumes "PerformExchange (read_args (recorded_reader r) at n) ops u retries s wl = (ex, retries', s', wl')"
  shows "length (snd wl') + retries' \<le> length (snd wl) + retries + 1 + nat (ho_maxRedirects (hr_options r))"
    "retries' \<le> retries"
  using recorded_hops [OF assms [unfolded PerformExchange_def recorded_read_args]] PerformExchange_retries [OF assms]
  by (simp_all add: read_args_def)

lemma read_loop_requests:
  assumes "http_read_loop (recorded_reader r) off sz len first lastError retries out m wl = (res, m', wl')"
  shows "length (snd wl') \<le> length (snd wl) + (retries + (if first then 1 else 0)) * (nat (ho_maxRedirects (hr_options r)) + 1)"
  using assms
proof (induction "2 * retries + (if first then 1 else 0)" arbitrary: first lastError retries out m wl rule: less_induct)
  case less
  define R where "R = nat (ho_maxRedirects (hr_options r)) + 1"
  have step: "length (snd w1) + k * R \<le> length (snd wl) + (retries + (if first then 1 else 0)) * R"
    if "PerformExchange (read_args (recorded_reader r) at rest) ops u n s wl = (ex, k, s', w1)"
      "n + 1 = retries + (if first then 1 else 0)" for at rest ops u n s ex k s' w1
  proof -
    have "k \<le> n" by (rule recorded_exchange(2) [OF that(1)])
    then obtain d where d: "n = k + d" using le_iff_add by blast
    have "length (snd w1) \<le> length (snd wl) + d + R" using recorded_exchange(1) [OF that(1)] d by (simp add: R_def)
    moreover have "d \<le> d * R" by (simp add: R_def)
    moreover have "(n + 1) * R = k * R + d * R + R" using d by (simp add: algebra_simps)
    ultimately show ?thesis unfolding that(2) [symmetric] by linarith
  qed
  from less.prems have "length (snd wl') \<le> length (snd wl) + (retries + (if first then 1 else 0)) * R"
  proof (cases rule: http_read_loop_cases)
    case (failed ex n k s)
    then show ?thesis using step [OF failed(2,5)] by linarith
  next
    case (judged ex n k s)
    then show ?thesis using step [OF judged(2,5)] by linarith
  next
    case (more ex n k s m1 w1 out')
    then have "length (snd wl') \<le> length (snd w1) + k * R" using less.hyps [OF _ more(5)] by (simp add: R_def)
    then show ?thesis using step [OF more(2,7)] by linarith
  qed simp_all
  then show ?case by (simp only: R_def)
qed

text \<open>
  C14: a read ends, after at most \<open>maxAttempts * (maxRedirects + 1)\<close> requests, whatever the
  transport, the servers and the interceptor answer. Retries and resumes share one budget,
  while every resumed exchange follows the redirects again.
\<close>

theorem read_request_bound:
  "length (read_requests off sz r w) \<le> (retry_budget (hr_options r) + 1) * (nat (ho_maxRedirects (hr_options r)) + 1)"
proof -
  let ?r = "recorded_reader r"
  have b: "retry_budget (hr_options ?r) = retry_budget (hr_options r)"
    by (simp add: recorded_reader_def retry_budget_def recorded_options_def)
  obtain res m' w' log where l: "http_read_loop ?r off sz (range_length (ResolveReadRange off sz (am_size (hr_metadata ?r)))) True TE_None
      (retry_budget (hr_options ?r)) [] (AddBytesRequested sz (hr_metrics ?r)) (w, []) = (res, m', (w', log))" by (metis surj_pair)
  show ?thesis using read_loop_requests [OF l] l by (simp add: read_requests_def Http_Read_def Let_def b)
qed

section \<open>What Open hands out\<close>

definition open_of :: "'w transport \<Rightarrow> 'w HttpOptions \<Rightarrow> Uri \<Rightarrow> ExchangeResult \<Rightarrow> u64 \<Rightarrow> 'w HttpReader" where
  "open_of t opts uri exchange sz = HttpImpl_new t opts uri (ex_finalUri exchange)
     (http_metadata (ex_finalUri exchange) sz (rs_headers (ex_response exchange)))
     (cv_ifRangeValue (CaptureValidator (rs_headers (ex_response exchange))))"

lemma Http_Open_cases:
  assumes "Http_Open url opts factory us w = ((ro, st), w')"
  obtains (failed) "ro = None" "\<not> IsOk st"
  | (opened) t uri exchange k sink sz m where "factory = Some t" "ParseUri url = Inr uri"
      "PerformExchange (open_args t opts uri) PendingSink_ops uri (retry_budget opts) PendingSink_new w = (exchange, k, sink, w')"
      "IsOk (ex_status exchange)" "rs_status (ex_response exchange) = 200" "AdvertisesByteRanges (rs_headers (ex_response exchange))"
      "Option.bind (HeaderTable_Find ''Content-Length'' (rs_headers (ex_response exchange))) ParseContentLength = Some sz"
      "ro = Some ((open_of t opts uri exchange sz)\<lparr>hr_metrics := m\<rparr>)" "st = Status_Ok"
proof (cases "\<exists>t uri. factory = Some t \<and> ParseUri url = Inr uri")
  case False
  then show thesis
    using assms by (intro failed) (auto simp: Http_Open_def IsOk_def split: sum.splits option.splits)
next
  case True
  then obtain t uri where t: "factory = Some t" "ParseUri url = Inr uri" by blast
  obtain exchange k sink w1 where e: "PerformExchange (open_args t opts uri) PendingSink_ops uri (retry_budget opts) PendingSink_new w =
      (exchange, k, sink, w1)" by (metis surj_pair)
  let ?h = "rs_headers (ex_response exchange)"
  let ?len = "Option.bind (HeaderTable_Find ''Content-Length'' ?h) ParseContentLength"
  note o = assms [unfolded Http_Open_def t sum.case option.case e prod.case Let_def]
  show thesis
  proof (cases "IsOk (ex_status exchange) \<and> rs_status (ex_response exchange) = 200 \<and> \<not> HasConflictingDuplicate ''Content-Length'' ?h \<and>
      ?len \<noteq> None \<and> AdvertisesByteRanges ?h")
    case False
    then show thesis
      using o code_ProjectHttpStatus [of _ "ex_finalUri exchange"] by (intro failed) (auto simp: IsOk_def split: option.splits if_splits)
  next
    case good: True
    then obtain sz where "?len = Some sz" by blast
    then show thesis using o good t e by (intro opened [OF t _ _ _ _ \<open>?len = Some sz\<close>]) (auto simp: open_of_def)
  qed
qed

definition reader_wf :: "string \<Rightarrow> 'w HttpOptions \<Rightarrow> 'w transport \<Rightarrow> 'w HttpReader \<Rightarrow> bool" where
  "reader_wf url opts t r \<longleftrightarrow> hr_transport r = t \<and> hr_options r = opts \<and> ParseUri url = Inr (hr_origin r) \<and>
     resolvedIdentifier (hr_metadata r) = ToIdentity (hr_uri r) \<and> supportsRandomAccess (hr_metadata r) \<and>
     am_stability (hr_metadata r) = ClassifyStability (am_validator (hr_metadata r)) \<and>
     hr_ifRangeValue r \<in> {[], v_value (am_validator (hr_metadata r))} \<and> (IsSecure (hr_origin r) \<longrightarrow> IsSecure (hr_uri r)) \<and>
     (\<forall>c. ClassifyHostLiteral (host (hr_uri r)) = Some c \<longrightarrow> Permits (ho_destinations opts) c)"

lemma open_of_wf:
  assumes "ParseUri url = Inr uri" "PerformExchange (open_args t opts uri) ops uri n s w = (exchange, k, s', w')" "IsOk (ex_status exchange)"
  shows "reader_wf url opts t ((open_of t opts uri exchange sz)\<lparr>hr_metrics := m\<rparr>)"
proof -
  have "hop_ok (open_args t opts uri) uri (ex_finalUri exchange)"
    by (rule hop_loop_final [OF assms(2) [unfolded PerformExchange_def] assms(3)]) simp
  then have "IsSecure uri \<longrightarrow> IsSecure (ex_finalUri exchange)"
    "\<forall>c. ClassifyHostLiteral (host (ex_finalUri exchange)) = Some c \<longrightarrow> Permits (ho_destinations opts) c"
    by (auto simp: hop_ok_def refused_literal_def open_args_def split: if_splits)
  moreover have "cv_ifRangeValue (CaptureValidator h) \<in> {[], v_value (cv_validator (CaptureValidator h))}" for h
    by (simp add: CaptureValidator_def Let_def)
  ultimately show ?thesis using assms(1) by (simp add: reader_wf_def open_of_def HttpImpl_new_def http_metadata_def Let_def)
qed

text \<open>
  C13: \<open>Open\<close> hands out a reader exactly when it reports success, and every reader it hands
  out is well formed: it is bound to the parsed URL, its identity is the text of the final
  URL without credentials, random access was advertised, its stability is that of its
  validator, its conditional guard is empty or that validator's text, it never went from
  \<open>https\<close> to \<open>http\<close>, and a literal host it reads from is one the policy permits.
\<close>

theorem Http_Open_wf:
  "case fst (Http_Open url opts factory us w) of (ro, st) \<Rightarrow>
     (ro \<noteq> None \<longleftrightarrow> IsOk st) \<and> list_all (\<lambda>r. \<exists>t. factory = Some t \<and> reader_wf url opts t r) (case ro of None \<Rightarrow> [] | Some r \<Rightarrow> [r])"
proof -
  obtain ro st w' where o: "Http_Open url opts factory us w = ((ro, st), w')" by (metis surj_pair)
  from o show ?thesis
  proof (cases rule: Http_Open_cases)
    case (opened t uri exchange k sink sz m)
    have "reader_wf url opts t ((open_of t opts uri exchange sz)\<lparr>hr_metrics := m\<rparr>)" by (rule open_of_wf [OF opened(2-4)])
    then show ?thesis using o opened by (simp add: IsOk_def)
  qed (use o in auto)
qed

section \<open>The reader over libcurl\<close>

definition sample_head :: curl_answer where
  "sample_head = \<lparr>ca_parsed = \<lparr>cu_made = True, cu_host = Some ''h'', cu_ascii = None\<rparr>, ca_fresh = Some 1, ca_slist = True,
     ca_events = [EvHeader ''HTTP/1.1 200'', EvHeader ''Content-Length: 2'', EvHeader ''Accept-Ranges: bytes'', EvHeader ''ETag: x''],
     ca_code = CURLE_OK, ca_status = 200, ca_pretransfer = 1, ca_elapsedUs = 5\<rparr>"

definition sample_range :: curl_answer where
  "sample_range = \<lparr>ca_parsed = \<lparr>cu_made = True, cu_host = Some ''h'', cu_ascii = None\<rparr>, ca_fresh = Some 1, ca_slist = True,
     ca_events = [EvHeader ''HTTP/1.1 206'', EvHeader ''Content-Range: bytes 0-1/2'', EvBody [7], EvBody [8]],
     ca_code = CURLE_OK, ca_status = 206, ca_pretransfer = 1, ca_elapsedUs = 5\<rparr>"

definition sample_curl :: curl_world where
  "sample_curl = \<lparr>cw_pool = [], cw_runs = (\<lambda>n opts. if co_nobody opts then sample_head else sample_range)\<rparr>"

definition sample_uri :: Uri where
  "sample_uri = \<lparr>scheme = ''http'', userinfo = [], host = ''h'', port = 0, uri_path = ''/a'', uri_query = [], hasQuery = False\<rparr>"

lemma sample_parse: "ParseUri ''http://h/a'' = Inr sample_uri"
  by (simp add: uri_eval sample_uri_def)

lemma sample_literal: "ClassifyHostLiteral ''h'' = None"
  by (simp add: ClassifyHostLiteral_def ParseIPv4_def ipv4_parts.simps ipv4_part_def is_digit_def Let_def)

lemma sample_content_range:
  "ParseContentRange ''bytes 0-1/2'' = Some \<lparr>cr_unsatisfied = False, cr_first = 0, cr_last = 1, cr_hasCompleteLength = True, cr_completeLength = 2\<rparr>"
  using ParseContentRange_text [of 0 1 "Some 2"] by (simp add: range_text_def to_dec.simps digit_chars)

lemmas header_eval = header_line_def strip_eol_def HeaderTable_Add_def Let_def

lemmas perform_eval = Curl_Perform_def curl_set_def PermittedByClient_def Pool_Acquire_def Pool_Release_def kMaxIdle_def Exchange_new_def
  OnHeader_def OnBody_def kMaxResponseHeaderBytes_def curl_response_def HasNonAscii_def sample_literal TransportResponse_empty_def

lemma sample_HEAD:
  assumes "rq_method req = Head" "cw_runs w = cw_runs sample_curl"
  shows "\<exists>w'. cw_runs w' = cw_runs sample_curl \<and> Curl_Perform req w =
    ((\<lparr>rs_status = 200, rs_headers = [(''Content-Length'', ''2''), (''Accept-Ranges'', ''bytes''), (''ETag'', ''x'')], rs_bodyBytes = 0,
       rs_bodyOverflowed = False, rs_error = TE_None, rs_connected = True, rs_refusedClass = None\<rparr>, [], 5), w')"
  using assms by (simp add: perform_eval header_eval sample_curl_def sample_head_def)

lemma sample_GET:
  assumes "rq_method req = Get" "rq_hasBody req" "rq_bodyCapacity req = 2" "cw_runs w = cw_runs sample_curl"
  shows "\<exists>w'. cw_runs w' = cw_runs sample_curl \<and> Curl_Perform req w =
    ((\<lparr>rs_status = 206, rs_headers = [(''Content-Range'', ''bytes 0-1/2'')], rs_bodyBytes = 2,
       rs_bodyOverflowed = False, rs_error = TE_None, rs_connected = True, rs_refusedClass = None\<rparr>, [7, 8], 5), w')"
  using assms by (simp add: perform_eval header_eval sample_curl_def sample_range_def)

text \<open>An exchange that needs one request.\<close>

lemma exchange_one:
  assumes "ho_interceptor (xa_options x) = None" "refused_literal x start = None"
    and "xa_transport x (build_request x start []) w = ((response, body, us), w')" "\<not> retryable response"
    and "rs_status response \<noteq> 0" "\<not> IsRedirect (rs_status response)" "rs_error response = TE_None"
  shows "PerformExchange x ops start retries s w =
    (\<lparr>ex_response = response, ex_body = body, ex_status = Status_Ok, ex_finalUri = start\<rparr>, retries,
     sink_Request ops (xa_method x = Head) (rs_bodyBytes response) us s, w')"
  using assms by (simp add: PerformExchange_def hop_loop.simps [of x ops start] attempt_loop.simps [of x ops start] request_headers_def next_hop_def Let_def)

lemma sample_refused [simp]: "refused_literal x sample_uri = None"
  by (simp add: refused_literal_def sample_uri_def sample_literal)

definition sample_opened :: TransportResponse where
  "sample_opened = \<lparr>rs_status = 200, rs_headers = [(''Content-Length'', ''2''), (''Accept-Ranges'', ''bytes''), (''ETag'', ''x'')],
     rs_bodyBytes = 0, rs_bodyOverflowed = False, rs_error = TE_None, rs_connected = True, rs_refusedClass = None\<rparr>"

definition sample_tag :: Validator where
  "sample_tag = \<lparr>v_value = ''x'', v_kind = EntityTag, v_strength = Strong\<rparr>"

lemmas field_eval = HeaderTable_Find_def EqualsIgnoringCase_def ParseContentLength_def ParseUnsigned_def AdvertisesByteRanges_def
  ListContainsToken.simps HasConflictingDuplicate_def CaptureValidator_def trimmed_field_def kEtag_def kLastModified_def Trim_def IsSpace_def
  trim_by_def is_digit_def digit_val_def to_lower_def is_upper_def sample_tag_def ord_def Let_def

lemma sample_fields:
  "Option.bind (HeaderTable_Find ''Content-Length'' (rs_headers sample_opened)) ParseContentLength = Some 2"
  "AdvertisesByteRanges (rs_headers sample_opened)" "\<not> HasConflictingDuplicate ''Content-Length'' (rs_headers sample_opened)"
  "CaptureValidator (rs_headers sample_opened) = \<lparr>cv_validator = sample_tag, cv_ifRangeValue = ''x''\<rparr>"
  by (simp_all add: sample_opened_def field_eval)

lemma sample_open_exchange:
  obtains w' sink where "cw_runs w' = cw_runs sample_curl"
    "PerformExchange (open_args Curl_Perform HttpOptions_default sample_uri) PendingSink_ops sample_uri n s sample_curl =
      (\<lparr>ex_response = sample_opened, ex_body = [], ex_status = Status_Ok, ex_finalUri = sample_uri\<rparr>, n, sink, w')"
proof -
  let ?x = "open_args Curl_Perform HttpOptions_default sample_uri"
  have m: "rq_method (build_request ?x sample_uri []) = Head" by (simp add: build_request_def open_args_def Let_def)
  obtain w' where w': "cw_runs w' = cw_runs sample_curl"
    "xa_transport ?x (build_request ?x sample_uri []) sample_curl = ((sample_opened, [], 5), w')"
    using sample_HEAD [OF m refl] by (auto simp: sample_opened_def open_args_def)
  have "ho_interceptor (xa_options ?x) = None" "\<not> retryable sample_opened" "rs_status sample_opened \<noteq> 0"
    "\<not> IsRedirect (rs_status sample_opened)" "rs_error sample_opened = TE_None"
    by (simp_all add: open_args_def HttpOptions_default_def sample_opened_def retryable_def IsRetryableStatus_def IsRedirect_def)
  then show thesis using that exchange_one [OF _ sample_refused w'(2)] w'(1) by metis
qed

lemma sample_Open:
  obtains r w where "Http_Open ''http://h/a'' HttpOptions_default (Some Curl_Perform) 9 sample_curl = ((Some r, Status_Ok), w)"
    "cw_runs w = cw_runs sample_curl" "hr_transport r = Curl_Perform" "hr_options r = HttpOptions_default"
    "am_size (hr_metadata r) = 2" "am_validator (hr_metadata r) = sample_tag" "hr_uri r = sample_uri"
proof -
  let ?n = "retry_budget (HttpOptions_default :: curl_world HttpOptions)"
  obtain sink w' where e: "cw_runs w' = cw_runs sample_curl"
    "PerformExchange (open_args Curl_Perform HttpOptions_default sample_uri) PendingSink_ops sample_uri ?n
       PendingSink_new sample_curl =
      (\<lparr>ex_response = sample_opened, ex_body = [], ex_status = Status_Ok, ex_finalUri = sample_uri\<rparr>, ?n, sink, w')"
    by (rule sample_open_exchange [where n = ?n and s = PendingSink_new])
  have s: "rs_status sample_opened = 200" "IsOk Status_Ok" by (simp_all add: sample_opened_def IsOk_def)
  let ?ex = "\<lparr>ex_response = sample_opened, ex_body = [], ex_status = Status_Ok, ex_finalUri = sample_uri\<rparr>"
  let ?r = "open_of Curl_Perform HttpOptions_default sample_uri ?ex 2"
  let ?m = "ReplayInto sink (hr_metrics ?r)"
  have "Http_Open ''http://h/a'' HttpOptions_default (Some Curl_Perform) 9 sample_curl =
      ((Some (?r\<lparr>hr_metrics := ?m\<lparr>rm_openLatency := Record 9 (rm_openLatency ?m)\<rparr>\<rparr>), Status_Ok), w')"
    by (simp add: Http_Open_def sample_parse e(2) sample_fields s Let_def open_of_def)
  then show thesis
    by (rule that) (simp_all add: e(1) open_of_def HttpImpl_new_def http_metadata_def sample_fields Let_def)
qed

lemma sample_prefixes:
  assumes "prefix pre (ca_events sample_range)"
  shows "(fst (wire_headers pre ([], False)), wire_body pre) \<in>
    {([], []), ([(''Content-Range'', ''bytes 0-1/2'')], []), ([(''Content-Range'', ''bytes 0-1/2'')], [7]),
     ([(''Content-Range'', ''bytes 0-1/2'')], [7, 8])}"
proof -
  have "pre \<in> set (prefixes (ca_events sample_range))" using assms by simp
  then consider "pre = []" | "pre = take 1 (ca_events sample_range)" | "pre = take 2 (ca_events sample_range)"
    | "pre = take 3 (ca_events sample_range)" | "pre = ca_events sample_range" by (auto simp: sample_range_def)
  then show ?thesis by cases (simp_all add: sample_range_def header_eval numeral_eq_Suc)
qed

lemma sample_range_find: "HeaderTable_Find ''Content-Range'' [(''Content-Range'', v)] = Some v"
  by (simp add: HeaderTable_Find_def EqualsIgnoringCase_def)

lemma curl_honest_sample:
  assumes "cw_runs w = cw_runs sample_curl"
  shows "curl_honest [7, 8] sample_tag w"
  unfolding curl_honest_def
proof (intro allI impI)
  fix n opts pre
  assume p: "prefix pre (ca_events (cw_runs w n opts))"
  show "serves [7, 8] sample_tag
     (TransportResponse_empty\<lparr>rs_status := ca_status (cw_runs w n opts), rs_headers := fst (wire_headers pre ([], False))\<rparr>) (wire_body pre)"
  proof (cases "co_nobody opts")
    case True
    then show ?thesis using assms by (simp add: serves_def sample_curl_def sample_head_def)
  next
    case False
    then show ?thesis
      using sample_prefixes [of pre] p assms
      by (auto simp: serves_def sample_curl_def sample_range_find sample_content_range segment_def)
  qed
qed

lemma sample_http_inv:
  assumes "cw_runs w = cw_runs sample_curl" "hr_transport r = Curl_Perform" "hr_options r = HttpOptions_default"
    "am_size (hr_metadata r) = 2" "am_validator (hr_metadata r) = sample_tag"
  shows "http_inv Curl_Perform (curl_honest [7, 8] sample_tag) [7, 8] sample_tag (r, w)"
  using assms curl_honest_sample [OF assms(1)] by (simp add: http_inv_def intercept_ok_def HttpOptions_default_def)

text \<open>
  C12: whatever libcurl does within its interface (partial deliveries, resets, timeouts,
  redirects, refusals) a read over it that succeeds returns exactly the bytes of the opened
  revision, and a read that fails reports only bytes that are that revision's, provided
  that partial responses which carry the revision's framing and validator carry its bytes.
\<close>

theorem http_read_exact:
  assumes "http_inv Curl_Perform (curl_honest content captured) content captured (r, w)"
    and "Http_Read t0 t1 False off n (r, w) = ((res, xs), (r', w'))"
  shows "http_inv Curl_Perform (curl_honest content captured) content captured (r', w') \<and> length xs = unat (bytesRead res) \<and>
    length xs \<le> unat n \<and> xs = segment content (unat off) (length xs) \<and>
    (if IsOk (rr_status res) then xs = segment content (unat off) (unat n) else True)"
  using curl_origin.Http_Read_cases [OF assms] by (metis (full_types))

definition sample_served :: TransportResponse where
  "sample_served = \<lparr>rs_status = 206, rs_headers = [(''Content-Range'', ''bytes 0-1/2'')], rs_bodyBytes = 2, rs_bodyOverflowed = False,
     rs_error = TE_None, rs_connected = True, rs_refusedClass = None\<rparr>"

lemma sample_read_exchange:
  assumes "cw_runs w = cw_runs sample_curl" "hr_transport r = Curl_Perform" "hr_options r = HttpOptions_default"
  obtains s' w' where "PerformExchange (read_args r 0 2) ops sample_uri n s w =
    (\<lparr>ex_response = sample_served, ex_body = [7, 8], ex_status = Status_Ok, ex_finalUri = sample_uri\<rparr>, n, s', w')"
proof -
  let ?x = "read_args r 0 2"
  have m: "rq_method (build_request ?x sample_uri []) = Get" "rq_hasBody (build_request ?x sample_uri [])"
    "rq_bodyCapacity (build_request ?x sample_uri []) = 2" by (simp_all add: build_request_def read_args_def Let_def)
  obtain w' where w': "xa_transport ?x (build_request ?x sample_uri []) w = ((sample_served, [7, 8], 5), w')"
    using sample_GET [OF m assms(1)] by (auto simp: sample_served_def read_args_def assms(2))
  have "ho_interceptor (xa_options ?x) = None" "\<not> retryable sample_served" "rs_status sample_served \<noteq> 0"
    "\<not> IsRedirect (rs_status sample_served)" "rs_error sample_served = TE_None"
    by (simp_all add: read_args_def assms(3) HttpOptions_default_def sample_served_def retryable_def IsRetryableStatus_def IsRedirect_def)
  then show thesis using that exchange_one [OF _ sample_refused w'] by metis
qed

lemma sample_judged:
  assumes "am_size meta = 2" "am_validator meta = sample_tag"
  shows "judge_response meta 0 9 2 [] 0 2
    \<lparr>ex_response = sample_served, ex_body = [7, 8], ex_status = Status_Ok, ex_finalUri = sample_uri\<rparr> = Inr [7, 8]"
proof -
  have "\<not> ContradictsCapturedValidator (rs_headers sample_served) sample_tag"
    "\<not> HasConflictingDuplicate ''Content-Range'' (rs_headers sample_served)"
    "\<not> HasConflictingDuplicate ''Content-Length'' (rs_headers sample_served)"
    by (simp_all add: sample_served_def ContradictsCapturedValidator_def field_eval)
  then show ?thesis
    using assms
    by (simp add: judge_response_def judge_partial_def Let_def)
      (simp add: sample_served_def sample_range_find sample_content_range ContentRange_Length_def)
qed

lemma sample_Read:
  assumes "cw_runs w = cw_runs sample_curl" "hr_transport r = Curl_Perform" "hr_options r = HttpOptions_default"
    "am_size (hr_metadata r) = 2" "am_validator (hr_metadata r) = sample_tag" "hr_uri r = sample_uri"
  shows "IsOk (rr_status (fst (fst (Http_Read 0 0 False 0 9 (r, w)))))"
proof -
  let ?n = "retry_budget (hr_options r)" and ?m = "AddBytesRequested 9 (hr_metrics r)"
  obtain m' w' where e: "PerformExchange (read_args r 0 2) ReaderSink_ops sample_uri ?n ?m w =
      (\<lparr>ex_response = sample_served, ex_body = [7, 8], ex_status = Status_Ok, ex_finalUri = sample_uri\<rparr>, ?n, m', w')"
    by (rule sample_read_exchange [OF assms(1-3)])
  have rng: "outcome (ResolveReadRange 0 9 2) = Transfer" "range_length (ResolveReadRange 0 9 2) = 2"
    by (simp_all add: ResolveReadRange_def)
  have "http_read_loop r 0 9 2 True TE_None ?n [] ?m w = (partial_result [7, 8] Status_Ok, m', w')"
    using e sample_judged [OF assms(4,5)] assms(6)
    by (simp add: http_read_loop.simps [of r 0 9 2 True] http_read_loop.simps [of r 0 9 2 False] IsOk_def)
  then show ?thesis using rng assms(4) by (simp add: Http_Read_def Let_def IsOk_def)
qed

theorem http_read_exact_witness:
  "\<exists>r w. fst (Http_Open ''http://h/a'' HttpOptions_default (Some Curl_Perform) 9 sample_curl) = (Some r, Status_Ok) \<and>
     snd (fst (Http_Read 0 0 False 0 9 (r, w))) = [7, 8]"
proof -
  obtain r w where o: "Http_Open ''http://h/a'' HttpOptions_default (Some Curl_Perform) 9 sample_curl = ((Some r, Status_Ok), w)"
    and f: "cw_runs w = cw_runs sample_curl" "hr_transport r = Curl_Perform" "hr_options r = HttpOptions_default"
    "am_size (hr_metadata r) = 2" "am_validator (hr_metadata r) = sample_tag" "hr_uri r = sample_uri" by (rule sample_Open)
  obtain res xs r' w' where read: "Http_Read 0 0 False 0 9 (r, w) = ((res, xs), (r', w'))" by (metis surj_pair)
  show ?thesis
    using http_read_exact [OF sample_http_inv [OF f(1-5)] read] sample_Read [OF f] o read
    by (intro exI [of _ r] exI [of _ w]) (simp add: segment_def)
qed

section \<open>The cache over HTTP\<close>

text \<open>Every asset of the size and validator that were captured at open.\<close>

interpretation http_stack: cached_stack
    "http_inv Curl_Perform (curl_honest (pad (unat (am_size meta)) xs) (am_validator meta)) (pad (unat (am_size meta)) xs) (am_validator meta)"
    "Http_Read t0 t1 False" "pad (unat (am_size meta)) xs" meta "opened meta opts s d" "blocks_of (pad (unat (am_size meta)) xs) (opened meta opts s d)" True
proof (rule stack_of_open)
  show "CachedImpl_new meta None opts s d =
      (opened meta opts s d, fst (snd (CachedImpl_new meta None opts s d)), snd (snd (CachedImpl_new meta None opts s d)))"
    by (simp add: opened_def)
qed (simp_all add: blocks_of_key curl_origin.http_is_reader)

interpretation http_cached: asset_reader
    "stack_reader_inv (blocks_of (pad (unat (am_size meta)) xs) (opened meta opts s d)) (ci_binding (opened meta opts s d)) (pad (unat (am_size meta)) xs)
       (http_inv Curl_Perform (curl_honest (pad (unat (am_size meta)) xs) (am_validator meta)) (pad (unat (am_size meta)) xs) (am_validator meta))"
    "cached_read_fn (Http_Read t0 t1 False) meta (opened meta opts s d) t2 t3" "pad (unat (am_size meta)) xs"
  by (rule stack_is_reader [OF http_stack.cached_stack_axioms])

lemma pad_id: "length xs = n \<Longrightarrow> pad n xs = xs"
  by (simp add: pad_def)

lemma Http_Open_inv:
  assumes "Http_Open url opts (Some perform) us w = ((Some r, st), w')" "I w'" "length content = unat (am_size (hr_metadata r))"
    and "intercept_ok I opts"
  shows "http_inv perform I content (am_validator (hr_metadata r)) (r, w')"
  using assms(1)
proof (cases rule: Http_Open_cases)
  case (opened t uri exchange k sink sz m)
  then have "hr_transport r = perform" "hr_options r = opts" by (simp_all add: open_of_def HttpImpl_new_def)
  then show ?thesis using assms(2-4) by (simp add: http_inv_def)
qed simp



section \<open>A read that exceeds the documented number of requests\<close>

text \<open>A transport that gives prepared answers in turn.\<close>

fun scripted :: "(TransportResponse \<times> bytes) list transport" where
  "scripted req [] = ((TransportResponse_empty, [], 0), [])"
| "scripted req ((response, body) # rest) = ((response, body, 0), rest)"

definition moved :: "TransportResponse \<times> bytes" where
  "moved = (TransportResponse_empty\<lparr>rs_status := 302, rs_headers := [(''Location'', ''/b'')]\<rparr>, [])"

definition part_of :: "string \<Rightarrow> u8 \<Rightarrow> TransportError \<Rightarrow> TransportResponse \<times> bytes" where
  "part_of cr b e = (TransportResponse_empty\<lparr>rs_status := 206, rs_headers := [(''Content-Range'', cr)], rs_bodyBytes := 1, rs_error := e\<rparr>, [b])"

definition moving_reader :: "(TransportResponse \<times> bytes) list HttpReader" where
  "moving_reader = HttpImpl_new scripted (HttpOptions_default\<lparr>ho_maxRedirects := 1, ho_maxAttempts := 2\<rparr>) sample_uri sample_uri
     \<lparr>resolvedIdentifier = [], am_size = 2, supportsRandomAccess = True, am_validator = Validator_none, am_stability = Unavailable, contentType = []\<rparr> []"

definition sample_target :: Uri where
  "sample_target = sample_uri\<lparr>uri_path := ''/b''\<rparr>"

lemma sample_resolve: "ResolveReference sample_uri ''/b'' = Inr sample_target"
  by (simp add: reference_eval sample_uri_def sample_target_def)

lemma target_refused [simp]: "refused_literal x sample_target = None"
  by (simp add: refused_literal_def sample_target_def sample_uri_def sample_literal)

lemma moving_args:
  "request_headers (read_args (recorded_reader moving_reader) at k) u h m wl = (Inr [], wl)"
  "xa_transport (read_args (recorded_reader moving_reader) at k) = recorded scripted"
  "ho_maxRedirects (xa_options (read_args (recorded_reader moving_reader) at k)) = 1"
  by (simp_all add: request_headers_def read_args_def recorded_reader_def moving_reader_def HttpImpl_new_def
      recorded_options_def HttpOptions_default_def)

lemma moving_attempt:
  assumes "\<not> retryable resp"
  obtains s' q where "attempt_loop (read_args (recorded_reader moving_reader) at k) ops u h 0 n s ((resp, body) # rest, log) =
    (Inr (resp, body), n, s', (rest, log @ [q]))"
proof -
  let ?x = "read_args (recorded_reader moving_reader) at k"
  have "attempt_loop ?x ops u h 0 n s ((resp, body) # rest, log) = (Inr (resp, body), n,
      sink_Request ops (xa_method ?x = Head) (rs_bodyBytes resp) 0 s, (rest, log @ [build_request ?x u []]))"
    using assms by (simp add: attempt_loop.simps [of ?x ops u] moving_args recorded_def Let_def)
  then show thesis by (rule that)
qed

lemma moving_exchange:
  assumes "\<not> retryable resp" "rs_status resp \<noteq> 0" "\<not> IsRedirect (rs_status resp)" "rs_error resp \<noteq> DestinationRefused" "rs_error resp \<noteq> HeadersTooLarge"
  obtains s' q q' where
    "PerformExchange (read_args (recorded_reader moving_reader) at k) ops sample_uri n s (moved # (resp, body) # rest, log) =
    (\<lparr>ex_response = resp, ex_body = body, ex_status = Status_Ok, ex_finalUri = sample_target\<rparr>, n, s', (rest, log @ [q, q']))"
proof -
  let ?x = "read_args (recorded_reader moving_reader) at k"
  have r: "\<not> retryable (fst moved)" by (simp add: moved_def retryable_def IsRetryableStatus_def TransportResponse_empty_def)
  obtain s1 q where a: "attempt_loop ?x ops sample_uri 0 0 n s ((fst moved, snd moved) # (resp, body) # rest, log) =
      (Inr (fst moved, snd moved), n, s1, ((resp, body) # rest, log @ [q]))"
    by (rule moving_attempt [OF r])
  obtain s2 q' where b: "attempt_loop ?x ops sample_target 1 0 n (sink_Redirect ops s1) ((resp, body) # rest, log @ [q]) =
      (Inr (resp, body), n, s2, (rest, (log @ [q]) @ [q']))"
    by (rule moving_attempt [OF assms(1)])
  have "HeaderTable_Find ''Location'' [(''Location'', ''/b'')] = Some ''/b''"
    by (simp add: HeaderTable_Find_def EqualsIgnoringCase_def)
  moreover have "\<not> IsSchemeDowngrade sample_uri sample_target"
    by (simp add: IsSchemeDowngrade_def IsSecure_def sample_target_def)
  ultimately have h: "next_hop ?x sample_uri 0 (fst moved) (snd moved) = Inr sample_target"
    by (simp add: next_hop_def moved_def TransportResponse_empty_def IsRedirect_def sample_resolve moving_args Let_def)
  have "next_hop ?x sample_target 1 resp body =
      Inl \<lparr>ex_response = resp, ex_body = body, ex_status = Status_Ok, ex_finalUri = sample_target\<rparr>"
    using assms by (simp add: next_hop_def)
  then have "PerformExchange ?x ops sample_uri n s (moved # (resp, body) # rest, log) =
    (\<lparr>ex_response = resp, ex_body = body, ex_status = Status_Ok, ex_finalUri = sample_target\<rparr>, n, s2, (rest, log @ [q, q']))"
    using a b h by (simp add: PerformExchange_def hop_loop.simps [of ?x ops sample_uri] hop_loop.simps [of ?x ops sample_target] split_beta)
  then show thesis by (rule that)
qed

lemma part_of_facts:
  "\<not> retryable (fst (part_of cr b e)) \<or> e = HeadersTooLarge" "rs_status (fst (part_of cr b e)) = 206" "rs_error (fst (part_of cr b e)) = e"
  "rs_bodyBytes (fst (part_of cr b e)) = 1" "\<not> rs_bodyOverflowed (fst (part_of cr b e))" "snd (part_of cr b e) = [b]"
  "HeaderTable_Find ''Content-Range'' (rs_headers (fst (part_of cr b e))) = Some cr"
  "\<not> HasConflictingDuplicate n (rs_headers (fst (part_of cr b e)))"
  by (simp_all add: part_of_def TransportResponse_empty_def retryable_def IsRetryableStatus_def sample_range_find HasConflictingDuplicate_def)

lemma moving_part:
  assumes "e = TE_None \<or> e = ConnectionLost"
  obtains s' q q' where
    "PerformExchange (read_args (recorded_reader moving_reader) at k) ops sample_uri n s (moved # part_of cr b e # rest, log) =
    (\<lparr>ex_response = fst (part_of cr b e), ex_body = [b], ex_status = Status_Ok, ex_finalUri = sample_target\<rparr>, n, s', (rest, log @ [q, q']))"
proof -
  have "\<not> retryable (fst (part_of cr b e))" "rs_status (fst (part_of cr b e)) \<noteq> 0" "\<not> IsRedirect (rs_status (fst (part_of cr b e)))"
    "rs_error (fst (part_of cr b e)) \<noteq> DestinationRefused" "rs_error (fst (part_of cr b e)) \<noteq> HeadersTooLarge"
    using part_of_facts(1-3) [of cr b e] assms by (auto simp: IsRedirect_def)
  from moving_exchange [OF this, where body = "[b]"] show thesis using that part_of_facts(6) [of cr b e] by (metis prod.collapse)
qed

lemma moving_rest:
  "ParseContentRange ''bytes 1-1/2'' = Some \<lparr>cr_unsatisfied = False, cr_first = 1, cr_last = 1, cr_hasCompleteLength = True, cr_completeLength = 2\<rparr>"
  using ParseContentRange_text [of 1 1 "Some 2"] by (simp add: range_text_def to_dec.simps digit_chars)

lemma moving_judged:
  assumes "ParseContentRange cr = Some c" "\<not> cr_unsatisfied c" "cr_completeLength c = am_size meta" "cr_first c = at" "ContentRange_Length c = rest"
    and "am_validator meta = Validator_none" "e = TE_None \<or> e = ConnectionLost"
  shows "judge_response meta 0 2 2 out at rest
    \<lparr>ex_response = fst (part_of cr b e), ex_body = [b], ex_status = Status_Ok, ex_finalUri = sample_target\<rparr> = Inr (out @ [b])"
  using assms
  by (auto simp: judge_response_def judge_partial_def part_of_facts Let_def ContradictsCapturedValidator_def IsUsable_def Validator_none_def IsResumable_def)

text \<open>
  The comment on \<open>PerformExchange\<close> bounds the work of one operation by
  \<open>maxRedirects + maxAttempts\<close> requests. A read that is resumed follows the redirects again:
  with one redirect and two attempts, a read whose first answer breaks off sends four.
\<close>

theorem resumed_read_requests:
  "ho_maxRedirects (hr_options moving_reader) = 1 \<and> ho_maxAttempts (hr_options moving_reader) = 2 \<and>
   length (read_requests 0 2 moving_reader
     [moved, part_of ''bytes 0-1/2'' 7 ConnectionLost, moved, part_of ''bytes 1-1/2'' 8 TE_None]) = 4"
proof -
  let ?r = "recorded_reader moving_reader" and ?a = "part_of ''bytes 0-1/2'' 7 ConnectionLost" and ?b = "part_of ''bytes 1-1/2'' 8 TE_None"
  let ?m = "AddBytesRequested 2 (hr_metrics ?r)"
  have r: "hr_uri ?r = sample_uri" "am_size (hr_metadata ?r) = 2" "retry_budget (hr_options ?r) = 1" "am_validator (hr_metadata ?r) = Validator_none"
    by (simp_all add: recorded_reader_def moving_reader_def HttpImpl_new_def retry_budget_def recorded_options_def)
  obtain s1 q1 q2 where e1: "PerformExchange (read_args ?r 0 2) ReaderSink_ops sample_uri 1 ?m ([moved, ?a, moved, ?b], []) =
      (\<lparr>ex_response = fst ?a, ex_body = [7], ex_status = Status_Ok, ex_finalUri = sample_target\<rparr>, 1, s1, ([moved, ?b], [] @ [q1, q2]))"
    by (rule moving_part [of ConnectionLost]) simp
  obtain s2 q3 q4 where e2: "PerformExchange (read_args ?r 1 1) ReaderSink_ops sample_uri 0 (AddRetry 1 s1) ([moved, ?b], [q1, q2]) =
      (\<lparr>ex_response = fst ?b, ex_body = [8], ex_status = Status_Ok, ex_finalUri = sample_target\<rparr>, 0, s2, ([], [q1, q2] @ [q3, q4]))"
    by (rule moving_part [of TE_None]) simp
  have j1: "judge_response (hr_metadata ?r) 0 2 2 [] 0 2
      \<lparr>ex_response = fst ?a, ex_body = [7], ex_status = Status_Ok, ex_finalUri = sample_target\<rparr> = Inr ([] @ [7])"
    by (rule moving_judged [OF sample_content_range]) (simp_all add: r ContentRange_Length_def)
  have j2: "judge_response (hr_metadata ?r) 0 2 2 [7] 1 1
      \<lparr>ex_response = fst ?b, ex_body = [8], ex_status = Status_Ok, ex_finalUri = sample_target\<rparr> = Inr ([7] @ [8])"
    by (rule moving_judged [OF moving_rest]) (simp_all add: r ContentRange_Length_def)
  have "http_read_loop ?r 0 2 2 True TE_None 1 [] ?m ([moved, ?a, moved, ?b], []) = (partial_result [7, 8] Status_Ok, s2, ([], [q1, q2, q3, q4]))"
    using e1 e2 j1 j2 r
    by (simp add: http_read_loop.simps [of ?r 0 2 2 True] http_read_loop.simps [of ?r 0 2 2 False] IsOk_def part_of_facts(3))
  moreover have "outcome (ResolveReadRange 0 2 2) = Transfer" "range_length (ResolveReadRange 0 2 2) = 2"
    by (simp_all add: ResolveReadRange_def)
  ultimately have "length (read_requests 0 2 moving_reader [moved, ?a, moved, ?b]) = 4"
    using r by (simp add: read_requests_def Http_Read_def Let_def)
  then show ?thesis by (simp add: moving_reader_def HttpImpl_new_def)
qed

end
