(* ===== verification/ResolvedAsset.thy ===== *)
theory ResolvedAsset
  imports Configuration HttpStack
begin

text \<open>
  \<open>plugins/http-resolver\<close>: what consumers see of an asset. The codes and lines of
  diagnostics (\<open>Diagnostics.cpp\<close>, \<open>Report.cpp\<close>), the identity that is published for an asset
  (\<open>Identity.cpp\<close>), and the asset handed to OpenUSD (\<open>ResolvedAsset.cpp\<close>) with its
  concurrent count of reported retries. OpenUSD's diagnostic macros are a list of posted
  messages.
\<close>

section \<open>Diagnostics\<close>

fun HttpCode :: "StatusCode \<Rightarrow> string" where
  "HttpCode Ok = []"
| "HttpCode NotFound = ''HTTP001''"
| "HttpCode AccessDenied = ''HTTP002''"
| "HttpCode RangeNotSupported = ''HTTP003''"
| "HttpCode InvalidResponse = ''HTTP004''"
| "HttpCode NetworkError = ''HTTP005''"
| "HttpCode Timeout = ''HTTP006''"
| "HttpCode AssetChanged = ''HTTP007''"
| "HttpCode Cancelled = ''HTTP008''"
| "HttpCode InvalidArgument = ''HTTP009''"
| "HttpCode Unsupported = ''HTTP010''"

definition kRetryOccurred :: string where "kRetryOccurred = ''HTTP101''"

definition Render :: "Status \<Rightarrow> string \<Rightarrow> string" where
  "Render st identifier =
    HttpCode (code st) @ (if message st \<noteq> [] then '': '' @ message st else []) @
    (case byteOffset st of None \<Rightarrow> []
     | Some off \<Rightarrow> '' (offset '' @ to_dec (unat off) @ (case byteLength st of None \<Rightarrow> [] | Some len \<Rightarrow> '', length '' @ to_dec (unat len)) @ '')'') @
    (case transportStatus st of None \<Rightarrow> [] | Some http \<Rightarrow> '' [HTTP '' @ to_string_int http @ '']'') @
    (if identifier \<noteq> [] then '' '' @ ElideSecrets identifier else [])"

definition RenderRetryWarning :: "u64 \<Rightarrow> string \<Rightarrow> string" where
  "RenderRetryWarning retries identifier =
    kRetryOccurred @ '': request succeeded after '' @ to_dec (unat retries) @ (if retries = 1 then '' retry'' else '' retries'') @
    (if identifier \<noteq> [] then '' '' @ ElideSecrets identifier else [])"

datatype Post = TfWarn string | TfCodingError string | TfRuntimeError string

definition Report :: "Status \<Rightarrow> string \<Rightarrow> Post list" where
  "Report st identifier =
    (if IsOk st then []
     else let msg = Render st identifier
          in case severity st of Warning \<Rightarrow> [TfWarn msg] | CodingError \<Rightarrow> [TfCodingError msg] | SevError \<Rightarrow> [TfRuntimeError msg])"

definition ReportRetries :: "u64 \<Rightarrow> string \<Rightarrow> Post list" where
  "ReportRetries retries identifier = (if retries = 0 then [] else [TfWarn (RenderRetryWarning retries identifier)])"

definition quoted :: "string \<Rightarrow> string" where
  "quoted s = [CHR 0x27] @ s @ [CHR 0x27]"

definition ReportConfigurationProblem :: "ConfigurationProblem \<Rightarrow> Post list" where
  "ReportConfigurationProblem p =
    (if cp_fromContext p then
       if cp_variable p = [] then
         [TfWarn (''a resolver context has an entry '' @ quoted (cp_value p) @ '', which is '' @ cp_reason p @ ''; it is ignored'')]
       else if cp_adjusted p then
         [TfWarn (''a resolver context sets '' @ cp_variable p @ '' to '' @ quoted (cp_value p) @ '': '' @ cp_reason p)]
       else [TfWarn (''a resolver context sets '' @ cp_variable p @ '' to '' @ quoted (cp_value p) @ '', which is '' @ cp_reason p @
               ''; stages bound to it use the environment's value or the default'')]
     else if cp_adjusted p then [TfWarn (cp_variable p @ '' is set to '' @ quoted (cp_value p) @ '': '' @ cp_reason p)]
     else [TfWarn (cp_variable p @ '' is set to '' @ quoted (cp_value p) @ '', which is '' @ cp_reason p @ ''; using the default'')])"

section \<open>Published identities\<close>

record PublishedIdentity =
  pi_resolvedIdentifier :: string
  pi_size :: u64
  pi_validationToken :: string
  pi_stability :: string
  pi_reusable :: bool

definition PublishIdentity :: "AssetMetadata \<Rightarrow> bool \<Rightarrow> PublishedIdentity" where
  "PublishIdentity meta contradicted =
    (let identifier = ElideSecrets (resolvedIdentifier meta);
         token = (if IsUsable (am_validator meta) then v_value (am_validator meta) else []);
         stability = (if contradicted \<and> am_stability meta = Stable then Unstable else am_stability meta);
         reusable = (stability = Stable \<and> token \<noteq> [] \<and> identifier \<noteq> [])
     in \<lparr>pi_resolvedIdentifier = identifier, pi_size = am_size meta, pi_validationToken = token,
         pi_stability = (if \<not> reusable \<and> stability = Stable then IdentityStabilityName Unavailable else IdentityStabilityName stability),
         pi_reusable = reusable\<rparr>)"

section \<open>The asset\<close>

record ResolvedAsset =
  ra_identifier :: string
  ra_reportedRetries :: u64

text \<open>The retry count is the snapshot of the reader's counters, absent without counters.\<close>

definition ReportNewRetries :: "u64 option \<Rightarrow> ResolvedAsset \<Rightarrow> Post list \<times> ResolvedAsset" where
  "ReportNewRetries metrics a =
    (case metrics of
       None \<Rightarrow> ([], a)
     | Some retries \<Rightarrow>
         if retries > ra_reportedRetries a
         then (ReportRetries (retries - ra_reportedRetries a) (ra_identifier a), a\<lparr>ra_reportedRetries := retries\<rparr>)
         else ([], a))"

definition HttpResolvedAsset_new :: "AssetMetadata \<Rightarrow> u64 option \<Rightarrow> Post list \<times> ResolvedAsset" where
  "HttpResolvedAsset_new meta metrics = ReportNewRetries metrics \<lparr>ra_identifier = resolvedIdentifier meta, ra_reportedRetries = 0\<rparr>"

definition Asset_Read :: "'w read_fn \<Rightarrow> ('w \<Rightarrow> u64 option) \<Rightarrow> u64 \<Rightarrow> u64 \<Rightarrow> ResolvedAsset \<Rightarrow> 'w \<Rightarrow>
    (u64 \<times> bytes) \<times> Post list \<times> ResolvedAsset \<times> 'w" where
  "Asset_Read read retries n offset a w =
    (let ((result, buffer), w') = read offset n w;
         (posts, a') = ReportNewRetries (retries w') a
     in if \<not> IsOk (rr_status result) then ((0, buffer), posts @ Report (rr_status result) (ra_identifier a'), a', w')
        else ((bytesRead result, buffer), posts, a', w'))"

text \<open>
  \<open>_ReportNewRetries\<close> is called by every reading thread at once: a thread loads the shared
  counter and then tries, until it succeeds or has nothing new, to exchange the value it
  loaded for its own snapshot. An exchange may fail without reason.
\<close>

record retry_state =
  rt_reported :: u64
  rt_local :: "nat \<Rightarrow> (u64 \<times> u64) option"
  rt_posted :: "u64 list"

datatype retry_event = RetryLoad nat u64 | RetryExchange nat bool

definition retry_wait :: "nat \<Rightarrow> u64 \<Rightarrow> retry_state \<Rightarrow> retry_state" where
  "retry_wait t retries s = s\<lparr>rt_local := (rt_local s)(t := if retries > rt_reported s then Some (retries, rt_reported s) else None)\<rparr>"

fun retry_step :: "retry_event \<Rightarrow> retry_state \<Rightarrow> retry_state" where
  "retry_step (RetryLoad t retries) s = retry_wait t retries s"
| "retry_step (RetryExchange t spurious) s =
    (case rt_local s t of
       None \<Rightarrow> s
     | Some (retries, reported) \<Rightarrow>
         if rt_reported s = reported \<and> \<not> spurious
         then s\<lparr>rt_reported := retries, rt_posted := rt_posted s @ [retries - reported], rt_local := (rt_local s)(t := None)\<rparr>
         else retry_wait t retries s)"

definition retry_start :: retry_state where
  "retry_start = \<lparr>rt_reported = 0, rt_local = (\<lambda>_. None), rt_posted = []\<rparr>"

section \<open>Diagnostics carry no secrets\<close>

lemma HttpCode_inject: "HttpCode a = HttpCode b \<longleftrightarrow> a = b"
  by (cases a; cases b) simp_all

text \<open>
  A diagnostic shows of an identifier what \<open>ElideSecrets\<close> leaves: the line a failure or a
  retry is reported with is the line for the elided identifier.
\<close>

lemma ElideSecrets_Nil [simp]: "ElideSecrets s = [] \<longleftrightarrow> s = []"
proof -
  have "elide_query s = [] \<longleftrightarrow> s = []" by (auto simp: elide_query_def split: option.splits)
  moreover have "elide_userinfo out \<noteq> []" if "out \<noteq> []" for out
    using that by (simp add: elide_userinfo_def Let_def split: option.split)
  moreover have "elide_userinfo [] = []" by code_simp
  ultimately show ?thesis by (metis ElideSecrets_def)
qed

lemma Render_elides:
  "Render st (ElideSecrets identifier) = Render st identifier"
  "RenderRetryWarning n (ElideSecrets identifier) = RenderRetryWarning n identifier"
  by (simp_all add: Render_def RenderRetryWarning_def ElideSecrets_idem)

section \<open>Identities\<close>

lemma PublishIdentity_reusable:
  "pi_reusable (PublishIdentity meta contradicted) \<longleftrightarrow>
    \<not> contradicted \<and> am_stability meta = Stable \<and> IsUsable (am_validator meta) \<and> v_value (am_validator meta) \<noteq> [] \<and>
    ElideSecrets (resolvedIdentifier meta) \<noteq> []"
  by (auto simp: PublishIdentity_def Let_def)

lemma PublishIdentity_stable:
  "pi_stability (PublishIdentity meta contradicted) = IdentityStabilityName Stable \<longleftrightarrow> pi_reusable (PublishIdentity meta contradicted)"
  by (cases "am_stability meta") (auto simp: PublishIdentity_def Let_def)

section \<open>Reads\<close>

context asset_reader
begin

lemma Asset_Read_exact:
  assumes "inv w" "Asset_Read read retries n off a w = ((k, buffer), posts, a', w')"
  shows "inv w'"
    "if IsOk (rr_status (fst (fst (read off n w)))) then buffer = segment content (unat off) (unat n) \<and> unat k = length buffer
     else k = 0 \<and> (\<exists>early. posts = early @ Report (rr_status (fst (fst (read off n w)))) (ra_identifier a))"
proof -
  obtain r b v where read: "read off n w = ((r, b), v)" by (metis surj_pair)
  obtain early c where retry: "ReportNewRetries (retries v) a = (early, c)" by fastforce
  have same: "ra_identifier c = ra_identifier a"
    using retry by (auto simp: ReportNewRetries_def split: option.splits if_splits)
  have parts: "buffer = b" "w' = v" "k = (if IsOk (rr_status r) then bytesRead r else 0)"
    "posts = early @ (if IsOk (rr_status r) then [] else Report (rr_status r) (ra_identifier a))"
    using assms(2) same by (auto simp: Asset_Read_def read retry split: if_splits)
  show "inv w'" using read_inv [OF assms(1), of off n] by (simp add: read parts)
  have len: "unat (bytesRead r) = length b" using read_delivers [OF assms(1), of off n] by (simp add: read)
  show "if IsOk (rr_status (fst (fst (read off n w)))) then buffer = segment content (unat off) (unat n) \<and> unat k = length buffer
     else k = 0 \<and> (\<exists>early. posts = early @ Report (rr_status (fst (fst (read off n w)))) (ra_identifier a))"
    using read_ok [OF assms(1), of off n] by (simp add: read parts len)
qed

end

text \<open>
  C24: the asset handed to OpenUSD over any reader that keeps the read contract returns
  exactly the bytes asked for, clipped to the end of the asset, when the read succeeds;
  when it fails the asset returns no bytes, whatever is in the buffer, and posts the
  failure last.
\<close>

theorem resolved_asset_exact:
  assumes "asset_reader I rd content" "I w" "Asset_Read rd retries n off a w = ((k, buffer), posts, a', w')"
  shows "I w' \<and>
    (if IsOk (rr_status (fst (fst (rd off n w)))) then buffer = segment content (unat off) (unat n) \<and> unat k = length buffer
     else k = 0 \<and> (\<exists>early. posts = early @ Report (rr_status (fst (fst (rd off n w)))) (ra_identifier a)))"
  using asset_reader.Asset_Read_exact [OF assms] by blast

theorem resolved_asset_exact_witness:
  "\<exists>r w'. Http_Open ''http://h/a'' HttpOptions_default (Some Curl_Perform) 9 sample_curl = ((Some r, Status_Ok), w') \<and>
    (case Asset_Read (Http_Read 0 0 False) (\<lambda>_. None) 2 0 \<lparr>ra_identifier = ''http://h/a'', ra_reportedRetries = 0\<rparr> (r, w') of
       ((k, buffer), posts, a', w'') \<Rightarrow>
         if IsOk (rr_status (fst (fst (Http_Read 0 0 False 0 2 (r, w'))))) then buffer = [7, 8] \<and> unat k = length buffer
         else k = 0 \<and> (\<exists>early. posts = early @ Report (rr_status (fst (fst (Http_Read 0 0 False 0 2 (r, w'))))) ''http://h/a''))"
proof -
  obtain r w where o: "Http_Open ''http://h/a'' HttpOptions_default (Some Curl_Perform) 9 sample_curl = ((Some r, Status_Ok), w)"
    and f: "cw_runs w = cw_runs sample_curl" "am_size (hr_metadata r) = 2" "am_validator (hr_metadata r) = sample_tag" by (rule sample_Open)
  have "http_inv Curl_Perform (curl_honest [7, 8] sample_tag) [7, 8] sample_tag (r, w)"
    using Http_Open_inv [OF o, of "curl_honest [7, 8] sample_tag" "[7, 8]"] curl_honest_sample [OF f(1)] f
    by (simp add: intercept_ok_def HttpOptions_default_def)
  moreover obtain k buffer posts a' w'' where
    "Asset_Read (Http_Read 0 0 False) (\<lambda>_. None) 2 0 \<lparr>ra_identifier = ''http://h/a'', ra_reportedRetries = 0\<rparr> (r, w) = ((k, buffer), posts, a', w'')"
    by (metis surj_pair)
  ultimately show ?thesis
    using resolved_asset_exact [OF curl_origin.http_is_reader] o by (fastforce simp: segment_def)
qed

section \<open>Retries\<close>

text \<open>A thread that is not disturbed does what \<open>ReportNewRetries\<close> does.\<close>

lemma retry_solo:
  "rt_local s t = None \<Longrightarrow> retry_step (RetryExchange t False) (retry_step (RetryLoad t n) s) =
    (if n > rt_reported s then s\<lparr>rt_reported := n, rt_posted := rt_posted s @ [n - rt_reported s]\<rparr> else s)"
  by (cases s) (auto simp: retry_wait_def fun_upd_idem)

definition retry_inv :: "retry_state \<Rightarrow> bool" where
  "retry_inv s \<longleftrightarrow> sum_list (map unat (rt_posted s)) = unat (rt_reported s) \<and> 0 \<notin> set (rt_posted s) \<and>
    (\<forall>t n l. rt_local s t = Some (n, l) \<longrightarrow> l < n)"

lemma retry_wait_inv: "retry_inv s \<Longrightarrow> retry_inv (retry_wait t n s)"
  by (auto simp: retry_inv_def retry_wait_def split: if_splits)

lemma retry_step_inv: "retry_inv s \<Longrightarrow> retry_inv (retry_step e s)"
proof (cases e)
  case (RetryExchange t spurious)
  assume inv: "retry_inv s"
  show ?thesis
  proof (cases "\<exists>n. rt_local s t = Some (n, rt_reported s) \<and> \<not> spurious")
    case True
    then obtain n where n: "rt_local s t = Some (n, rt_reported s)" "\<not> spurious" by blast
    then have lt: "rt_reported s < n" using inv by (auto simp: retry_inv_def)
    then have "unat (n - rt_reported s) = unat n - unat (rt_reported s)" "unat (rt_reported s) < unat n"
      using unat_sub [OF less_imp_le [OF lt]] by (simp_all add: word_less_nat_alt)
    moreover have "n - rt_reported s \<noteq> 0" using lt by simp
    ultimately show ?thesis using inv n RetryExchange by (auto simp: retry_inv_def split: if_splits)
  next
    case False
    then show ?thesis using inv RetryExchange by (auto simp: retry_wait_inv split: option.splits)
  qed
qed (simp add: retry_wait_inv)

text \<open>
  C25: every retry of an asset is reported exactly once. However the reading threads
  interleave, and however often an exchange fails for no reason, the reported numbers add
  up to the shared counter, and no report names zero retries.
\<close>

theorem retries_reported_once:
  "sum_list (map unat (rt_posted (fold retry_step events retry_start))) = unat (rt_reported (fold retry_step events retry_start)) \<and>
   0 \<notin> set (rt_posted (fold retry_step events retry_start))"
proof -
  have "retry_inv s \<Longrightarrow> retry_inv (fold retry_step events s)" for s
    by (induction events arbitrary: s) (simp_all add: retry_step_inv)
  moreover have "retry_inv retry_start" by (simp add: retry_inv_def retry_start_def)
  ultimately show ?thesis unfolding retry_inv_def by blast
qed

end
