(* ===== verification/Identifier.thy ===== *)
theory Identifier
  imports Uri
begin

text \<open>
  \<open>plugins/http-resolver\<close>: identifiers (\<open>Identifier.cpp\<close>): splitting a reference, normalizing an
  absolute URI and anchoring a relative one. An identifier that is created is a normal
  form: it has no fragment, no credentials and no dot segment, and creating it again
  gives the same text unless its authority has an ambiguous port.
\<close>

record Parts =
  pt_scheme :: string
  pt_hasAuthority :: bool
  pt_authority :: string
  pt_path :: string
  pt_query :: string
  pt_hasQuery :: bool

definition Parts_empty :: Parts where
  "Parts_empty = \<lparr>pt_scheme = [], pt_hasAuthority = False, pt_authority = [], pt_path = [], pt_query = [], pt_hasQuery = False\<rparr>"

section \<open>Characters and escapes\<close>

definition IsAlpha :: "char \<Rightarrow> bool" where
  "IsAlpha c \<longleftrightarrow> is_lower c \<or> is_upper c"

definition IsHex :: "char \<Rightarrow> bool" where
  "IsHex c \<longleftrightarrow> is_digit c \<or> CHR ''a'' \<le> c \<and> c \<le> CHR ''f'' \<or> CHR ''A'' \<le> c \<and> c \<le> CHR ''F''"

definition HexDigit :: "char \<Rightarrow> nat" where
  "HexDigit c = (if is_digit c then ord c - 48 else if CHR ''a'' \<le> c \<and> c \<le> CHR ''f'' then ord c - 97 + 10 else ord c - 65 + 10)"

definition IsUnreserved :: "char \<Rightarrow> bool" where
  "IsUnreserved c \<longleftrightarrow> IsAlpha c \<or> is_digit c \<or> c \<in> set ''-._~''"

definition IsPathSafe :: "char \<Rightarrow> bool" where
  "IsPathSafe c \<longleftrightarrow> (if IsUnreserved c then True else c \<in> set [CHR ''!'', CHR ''$'', CHR ''&'', CHR 0x27, CHR ''('', CHR '')'',
     CHR ''*'', CHR ''+'', CHR '','', CHR '';'', CHR ''='', CHR '':'', CHR ''@'', CHR ''/''])"

definition IsHostSafe :: "char \<Rightarrow> bool" where
  "IsHostSafe c \<longleftrightarrow> c = CHR ''['' \<or> c = CHR '']'' \<or> c = CHR '':''"

definition Id_kHex :: string where
  "Id_kHex = ''0123456789ABCDEF''"

definition AppendPercent :: "char \<Rightarrow> string" where
  "AppendPercent c = [CHR ''%'', Id_kHex ! (ord c div 16), Id_kHex ! (ord c mod 16)]"

fun NormalizePercentEncoding :: "bool \<Rightarrow> string \<Rightarrow> string" where
  "NormalizePercentEncoding hostSafe [] = []"
| "NormalizePercentEncoding hostSafe (c # cs) =
    (if c = CHR ''%'' \<and> length cs \<ge> 2 \<and> IsHex (cs ! 0) \<and> IsHex (cs ! 1) then
       (let v = char_of (16 * HexDigit (cs ! 0) + HexDigit (cs ! 1))
        in (if IsUnreserved v then [v] else AppendPercent v) @ NormalizePercentEncoding hostSafe (drop 2 cs))
     else (if IsPathSafe c \<or> hostSafe \<and> IsHostSafe c then [c] else AppendPercent c) @ NormalizePercentEncoding hostSafe cs)"

section \<open>Dot segments\<close>

text \<open>What is left of the output when its last segment is removed.\<close>

definition erase_last :: "string \<Rightarrow> string" where
  "erase_last out = (case rfind_index (\<lambda>c. c = CHR ''/'') out of None \<Rightarrow> [] | Some slash \<Rightarrow> take slash out)"

definition next_slash :: "string \<Rightarrow> nat" where
  "next_slash inp =
    (let start = (if hd inp = CHR ''/'' then 1 else 0)
     in case find_index (\<lambda>c. c = CHR ''/'') (drop start inp) of None \<Rightarrow> length inp | Some i \<Rightarrow> start + i)"

lemma next_slash_pos: "inp \<noteq> [] \<Longrightarrow> 0 < next_slash inp"
  by (cases inp) (auto simp: next_slash_def Let_def split: option.splits)

function dots_loop :: "string \<Rightarrow> string \<Rightarrow> string" where
  "dots_loop inp out =
    (if inp = [] then out
     else if take 3 inp = ''../'' then dots_loop (drop 3 inp) out
     else if take 2 inp = ''./'' then dots_loop (drop 2 inp) out
     else if take 3 inp = ''/./'' then dots_loop (''/'' @ drop 3 inp) out
     else if inp = ''/.'' then dots_loop ''/'' out
     else if take 4 inp = ''/../'' then dots_loop (''/'' @ drop 4 inp) (erase_last out)
     else if inp = ''/..'' then dots_loop ''/'' (erase_last out)
     else if inp = ''.'' \<or> inp = ''..'' then dots_loop [] out
     else dots_loop (drop (next_slash inp) inp) (out @ take (next_slash inp) inp))"
  by pat_completeness auto
termination
  by (relation "measure (\<lambda>(inp, out). length inp)")
    (auto dest!: arg_cong [of _ _ length] simp: next_slash_pos)

declare dots_loop.simps [simp del]

definition Id_RemoveDotSegments :: "string \<Rightarrow> string" where
  "Id_RemoveDotSegments path = dots_loop path []"

section \<open>Splitting and composing\<close>

definition Id_Compose :: "string \<Rightarrow> string \<Rightarrow> string \<Rightarrow> string \<Rightarrow> bool \<Rightarrow> string" where
  "Id_Compose sch authority path query withQuery = sch @ ''://'' @ authority @ path @ (if withQuery then ''?'' @ query else [])"

definition scheme_length :: "string \<Rightarrow> nat" where
  "scheme_length str = 1 + length (takeWhile (\<lambda>c. IsAlpha c \<or> is_digit c \<or> c = CHR ''+'' \<or> c = CHR ''-'' \<or> c = CHR ''.'') (tl str))"

definition split_query :: "string \<Rightarrow> Parts \<times> string" where
  "split_query str =
    (case find_index (\<lambda>c. c = CHR ''?'') str of
       None \<Rightarrow> (Parts_empty, str)
     | Some question \<Rightarrow> (Parts_empty\<lparr>pt_query := drop (question + 1) str, pt_hasQuery := True\<rparr>, take question str))"

definition split_scheme :: "Parts \<Rightarrow> string \<Rightarrow> Parts \<times> string" where
  "split_scheme out str =
    (if str \<noteq> [] \<and> IsAlpha (hd str) \<and> scheme_length str < length str \<and> str ! scheme_length str = CHR '':''
     then (out\<lparr>pt_scheme := map to_lower (take (scheme_length str) str)\<rparr>, drop (scheme_length str + 1) str)
     else (out, str))"

definition split_authority :: "Parts \<Rightarrow> string \<Rightarrow> Parts" where
  "split_authority out str =
    (if take 2 str = ''//'' then
       (let rest = drop 2 str
        in case find_index (\<lambda>c. c = CHR ''/'') rest of
             None \<Rightarrow> out\<lparr>pt_hasAuthority := True, pt_authority := rest, pt_path := []\<rparr>
           | Some slash \<Rightarrow> out\<lparr>pt_hasAuthority := True, pt_authority := take slash rest, pt_path := drop slash rest\<rparr>)
     else out\<lparr>pt_path := str\<rparr>)"

definition SplitUriReference :: "string \<Rightarrow> Parts option" where
  "SplitUriReference str =
    (if str = [] then None
     else
       let str = (case find_index (\<lambda>c. c = CHR ''#'') str of None \<Rightarrow> str | Some hash \<Rightarrow> take hash str);
           (out, str) = split_query str;
           (out, str) = split_scheme out str
       in Some (split_authority out str))"

fun port_loop :: "string \<Rightarrow> nat \<Rightarrow> nat option" where
  "port_loop [] v = Some v"
| "port_loop (c # cs) v =
    (if \<not> is_digit c then None
     else let v' = v * 10 + digit_val c in if v' > 65535 then None else port_loop cs v')"

text \<open>The host and the port text of an authority without userinfo.\<close>

definition host_and_port :: "string \<Rightarrow> (string \<times> string) option" where
  "host_and_port authority =
    (if authority \<noteq> [] \<and> hd authority = CHR ''['' then
       (case find_index (\<lambda>c. c = CHR '']'') authority of
          None \<Rightarrow> None
        | Some close \<Rightarrow>
            let rest = drop (close + 1) authority
            in if rest \<noteq> [] then (if hd rest \<noteq> CHR '':'' then None else Some (take (close + 1) authority, drop 1 rest))
               else Some (take (close + 1) authority, []))
     else (case rfind_index (\<lambda>c. c = CHR '':'') authority of
             None \<Rightarrow> Some (authority, [])
           | Some colon \<Rightarrow> Some (take colon authority, drop (colon + 1) authority)))"

definition without_userinfo :: "string \<Rightarrow> string" where
  "without_userinfo authority = (case rfind_index (\<lambda>c. c = CHR ''@'') authority of None \<Rightarrow> authority | Some at \<Rightarrow> drop (at + 1) authority)"

definition NormalizeAuthority :: "string \<Rightarrow> bool \<Rightarrow> string option" where
  "NormalizeAuthority authority secure =
    (case host_and_port (without_userinfo authority) of
       None \<Rightarrow> None
     | Some (hst, prt) \<Rightarrow>
         if hst = [] then None
         else
           let normalizedHost = map to_lower (NormalizePercentEncoding True hst)
           in if prt \<noteq> [] then
                (case port_loop prt 0 of
                   None \<Rightarrow> None
                 | Some v \<Rightarrow> Some (normalizedHost @ (if v \<noteq> (if secure then 443 else 80) then '':'' @ to_dec v else [])))
              else Some normalizedHost)"

definition IsClaimed :: "string \<Rightarrow> bool" where
  "IsClaimed sch \<longleftrightarrow> sch = ''http'' \<or> sch = ''https''"

definition NormalizeAbsolute :: "Parts \<Rightarrow> string" where
  "NormalizeAbsolute parts =
    (if \<not> IsClaimed (pt_scheme parts) \<or> \<not> pt_hasAuthority parts then []
     else case NormalizeAuthority (pt_authority parts) (pt_scheme parts = ''https'') of
            None \<Rightarrow> []
          | Some authority \<Rightarrow>
              let path = Id_RemoveDotSegments (NormalizePercentEncoding False (pt_path parts));
                  path = (if path = [] then ''/'' else path)
              in if hd path \<noteq> CHR ''/'' then []
                 else Id_Compose (pt_scheme parts) authority path (pt_query parts) (pt_hasQuery parts))"

definition MergePath :: "Parts \<Rightarrow> string \<Rightarrow> string" where
  "MergePath base reference =
    (if pt_path base = [] then ''/'' @ reference
     else case rfind_index (\<lambda>c. c = CHR ''/'') (pt_path base) of
            None \<Rightarrow> ''/'' @ reference
          | Some slash \<Rightarrow> take (slash + 1) (pt_path base) @ reference)"

definition IsClaimedScheme :: "string \<Rightarrow> bool" where
  "IsClaimedScheme assetPath = (case SplitUriReference assetPath of None \<Rightarrow> False | Some parts \<Rightarrow> IsClaimed (pt_scheme parts))"

text \<open>The parts that are normalized: of the reference itself, or of the reference anchored to the base.\<close>

definition anchored :: "Parts \<Rightarrow> Parts \<Rightarrow> Parts" where
  "anchored base reference =
    (if pt_hasAuthority reference then reference\<lparr>pt_scheme := pt_scheme base, pt_hasAuthority := True\<rparr>
     else if pt_path reference = [] then
       (if pt_hasQuery reference then base\<lparr>pt_hasAuthority := True, pt_query := pt_query reference, pt_hasQuery := True\<rparr>
        else base\<lparr>pt_hasAuthority := True\<rparr>)
     else \<lparr>pt_scheme = pt_scheme base, pt_hasAuthority = True, pt_authority = pt_authority base,
           pt_path = (if hd (pt_path reference) = CHR ''/'' then pt_path reference else MergePath base (pt_path reference)),
           pt_query = pt_query reference, pt_hasQuery = pt_hasQuery reference\<rparr>)"

definition target_parts :: "string \<Rightarrow> string \<Rightarrow> Parts option" where
  "target_parts assetPath anchorAssetPath =
    (case SplitUriReference assetPath of
       None \<Rightarrow> None
     | Some reference \<Rightarrow>
         if pt_scheme reference \<noteq> [] then Some reference
         else if anchorAssetPath = [] then None
         else case SplitUriReference anchorAssetPath of
                None \<Rightarrow> None
              | Some base \<Rightarrow>
                  if \<not> IsClaimed (pt_scheme base) \<or> \<not> pt_hasAuthority base then None else Some (anchored base reference))"

definition CreateIdentifier :: "string \<Rightarrow> string \<Rightarrow> string" where
  "CreateIdentifier assetPath anchorAssetPath =
    (case target_parts assetPath anchorAssetPath of None \<Rightarrow> [] | Some target \<Rightarrow> NormalizeAbsolute target)"

definition ExtensionOf :: "string \<Rightarrow> string" where
  "ExtensionOf assetPath =
    (case SplitUriReference assetPath of
       None \<Rightarrow> []
     | Some parts \<Rightarrow>
         let segment = (case rfind_index (\<lambda>c. c = CHR ''/'') (pt_path parts) of
               None \<Rightarrow> pt_path parts | Some slash \<Rightarrow> drop (slash + 1) (pt_path parts))
         in case rfind_index (\<lambda>c. c = CHR ''.'') segment of
              None \<Rightarrow> []
            | Some dot \<Rightarrow> if dot = 0 then [] else drop (dot + 1) segment)"

section \<open>Two removals of dot segments\<close>

lemma next_slash_rfc: "inp \<noteq> [] \<Longrightarrow> next_slash inp = rfc_first inp"
  by (cases inp) (auto simp: next_slash_def rfc_first_def Let_def split: option.splits)

lemma dots_loop_rfc: "dots_loop inp out = rfc_dots inp out"
proof (induction inp out rule: dots_loop.induct)
  case (1 inp out)
  then show ?case
    by (subst dots_loop.simps, subst rfc_dots.simps)
      (simp add: next_slash_rfc erase_last_def rfc_pop_def dots_loop.simps [of "[]"] rfc_dots.simps [of "[]"])
qed

text \<open>
  C23: the resolver and the HTTP backend have two different programs for removing dot
  segments, a loop over the text and a stack of segments. On every absolute path they
  agree with each other and with RFC 3986, section 5.2.4, so that the name the resolver
  gives to an asset is the name under which the backend requests it.
\<close>

theorem dot_segments_agree:
  "Id_RemoveDotSegments (CHR ''/'' # xs) = RemoveDotSegments (CHR ''/'' # xs) \<and>
   RemoveDotSegments (CHR ''/'' # xs) = rfc_dots (CHR ''/'' # xs) []"
  by (simp add: Id_RemoveDotSegments_def dots_loop_rfc RemoveDotSegments_rfc)

section \<open>Percent-encoding\<close>

abbreviation literal_char :: "bool \<Rightarrow> char \<Rightarrow> bool" where
  "literal_char hostSafe c \<equiv> IsPathSafe c \<or> hostSafe \<and> IsHostSafe c"

lemma kHex_digits: "k < 16 \<Longrightarrow> IsHex (Id_kHex ! k) \<and> HexDigit (Id_kHex ! k) = k \<and> IsUnreserved (Id_kHex ! k)"
proof -
  have "list_all (\<lambda>k. IsHex (Id_kHex ! k) \<and> HexDigit (Id_kHex ! k) = k \<and> IsUnreserved (Id_kHex ! k)) [0..<16]" by code_simp
  then show "k < 16 \<Longrightarrow> IsHex (Id_kHex ! k) \<and> HexDigit (Id_kHex ! k) = k \<and> IsUnreserved (Id_kHex ! k)" by (simp add: list_all_iff)
qed

lemma ord_byte: "ord c < 256"
  by (simp add: ord_def)

lemma percent_facts: "\<not> IsPathSafe (CHR ''%'')" "\<not> IsHostSafe (CHR ''%'')" "\<not> IsUnreserved (CHR ''%'')"
  by code_simp+

lemma unreserved_safe: "IsUnreserved c \<Longrightarrow> IsPathSafe c"
  by (simp add: IsPathSafe_def)

lemma NPE_escape:
  "NormalizePercentEncoding hs (AppendPercent v @ rest) =
    (if IsUnreserved v then [v] else AppendPercent v) @ NormalizePercentEncoding hs rest"
proof -
  have "ord v div 16 < 16" "ord v mod 16 < 16" using ord_byte [of v] by (simp_all add: less_mult_imp_div_less)
  then show ?thesis
    using kHex_digits [of "ord v div 16"] kHex_digits [of "ord v mod 16"] by (simp add: AppendPercent_def Let_def)
qed

lemma NPE_literal: "c \<noteq> CHR ''%'' \<Longrightarrow>
    NormalizePercentEncoding hs (c # rest) = (if literal_char hs c then [c] else AppendPercent c) @ NormalizePercentEncoding hs rest"
  by simp

lemma NPE_idem: "NormalizePercentEncoding hs (NormalizePercentEncoding hs s) = NormalizePercentEncoding hs s"
proof (induction hs s rule: NormalizePercentEncoding.induct)
  case (2 hs c cs)
  let ?esc = "c = CHR ''%'' \<and> length cs \<ge> 2 \<and> IsHex (cs ! 0) \<and> IsHex (cs ! 1)"
  have lit: "NormalizePercentEncoding hs ((if literal_char hs c then [c] else AppendPercent c) @ rest) =
      (if literal_char hs c then [c] else AppendPercent c) @ NormalizePercentEncoding hs rest" for c rest
    using NPE_escape [of hs c rest] NPE_literal [of c hs rest] percent_facts unreserved_safe [of c] by (cases "c = CHR ''%''") auto
  have dec: "NormalizePercentEncoding hs ((if IsUnreserved v then [v] else AppendPercent v) @ rest) =
      (if IsUnreserved v then [v] else AppendPercent v) @ NormalizePercentEncoding hs rest" for v rest
    using NPE_escape [of hs v rest] NPE_literal [of v hs rest] percent_facts unreserved_safe [of v] by (cases "v = CHR ''%''") auto
  show ?case
  proof (cases ?esc)
    case True
    then show ?thesis using 2(1) [OF True refl] dec by (simp add: Let_def)
  next
    case False
    then show ?thesis using 2(2) [OF False] lit [of c] unfolding NormalizePercentEncoding.simps(2) [of hs c cs] if_not_P [OF False] by simp
  qed
qed simp

lemma two_chars: "2 \<le> length cs \<Longrightarrow> \<exists>h l rest. cs = h # l # rest"
  by (cases cs rule: remdups_adj.cases) auto

lemma hex_ord: "IsHex c \<longleftrightarrow> 48 \<le> ord c \<and> ord c \<le> 57 \<or> 97 \<le> ord c \<and> ord c \<le> 102 \<or> 65 \<le> ord c \<and> ord c \<le> 70"
  "HexDigit c = (if 48 \<le> ord c \<and> ord c \<le> 57 then ord c - 48 else if 97 \<le> ord c \<and> ord c \<le> 102 then ord c - 87 else ord c - 65 + 10)"
  by (simp_all add: IsHex_def HexDigit_def is_digit_ord char_le_ord) (auto simp: ord_def)

lemma hex_lower: "IsHex (to_lower x) = IsHex x" "IsHex x \<Longrightarrow> HexDigit (to_lower x) = HexDigit x"
  by (auto simp: hex_ord ord_to_lower)

lemma unreserved_lower: "is_upper c \<Longrightarrow> IsUnreserved c \<and> IsUnreserved (to_lower c)"
  by (simp add: IsUnreserved_def IsAlpha_def is_lower_ord is_upper_ord ord_to_lower)

lemma literal_lower: "literal_char hs (to_lower c) = literal_char hs c" "\<not> literal_char hs c \<Longrightarrow> to_lower c = c"
  using unreserved_lower [of c] by (cases "is_upper c"; simp add: IsPathSafe_def to_lower_def)+

text \<open>A delimiter that is kept and is no hexadecimal digit separates what is encoded.\<close>

lemma NPE_split:
  assumes "\<not> IsHex d" "d \<noteq> CHR ''%''" "literal_char hs d"
  shows "NormalizePercentEncoding hs (a @ d # b) = NormalizePercentEncoding hs a @ d # NormalizePercentEncoding hs b"
proof (induction "length a" arbitrary: a rule: less_induct)
  case less
  show ?case
  proof (cases a)
    case Nil
    then show ?thesis using assms by (simp add: NPE_literal del: NormalizePercentEncoding.simps(2))
  next
    case (Cons c cs)
    let ?esc = "\<lambda>cs. c = CHR ''%'' \<and> length cs \<ge> 2 \<and> IsHex (cs ! 0) \<and> IsHex (cs ! 1)"
    have esc: "?esc (cs @ d # b) \<longleftrightarrow> ?esc cs"
      using assms(1) by (cases cs rule: remdups_adj.cases) (auto simp: nth_append)
    show ?thesis
    proof (cases "?esc cs")
      case True
      then have "NormalizePercentEncoding hs (drop 2 cs @ d # b) = NormalizePercentEncoding hs (drop 2 cs) @ d # NormalizePercentEncoding hs b"
        by (intro less) (simp add: Cons)
      moreover obtain h l rest where "cs = h # l # rest" using two_chars [of cs] True by blast
      ultimately show ?thesis using True by (simp add: Cons Let_def)
    next
      case False
      have "NormalizePercentEncoding hs (cs @ d # b) = NormalizePercentEncoding hs cs @ d # NormalizePercentEncoding hs b"
        by (intro less) (simp add: Cons)
      then show ?thesis
        unfolding Cons append_Cons NormalizePercentEncoding.simps(2) if_not_P [OF False] if_not_P [OF False [folded esc]] by simp
    qed
  qed
qed

lemma NPE_chars: "c \<in> set (NormalizePercentEncoding hs s) \<Longrightarrow> IsUnreserved c \<or> c = CHR ''%'' \<or> c \<in> set s \<and> literal_char hs c"
proof (induction hs s rule: NormalizePercentEncoding.induct)
  case (2 hs d cs)
  have esc: "IsUnreserved x \<or> x = CHR ''%''" if "x \<in> set (AppendPercent v)" for x v
    using that kHex_digits [of "ord v div 16"] kHex_digits [of "ord v mod 16"] ord_byte [of v]
    by (auto simp: AppendPercent_def less_mult_imp_div_less)
  show ?case
  proof (cases "d = CHR ''%'' \<and> length cs \<ge> 2 \<and> IsHex (cs ! 0) \<and> IsHex (cs ! 1)")
    case True
    then show ?thesis using 2(1) [OF True refl] 2(3) esc in_set_dropD [of c 2 cs] by (auto simp: Let_def split: if_splits)
  next
    case False
    then show ?thesis using 2(2) [OF False] 2(3) esc unfolding NormalizePercentEncoding.simps(2) if_not_P [OF False] by (auto split: if_splits)
  qed
qed simp

lemma NPE_lower: "map to_lower (NormalizePercentEncoding hs (map to_lower s)) = map to_lower (NormalizePercentEncoding hs s)"
proof (induction hs s rule: NormalizePercentEncoding.induct)
  case (2 hs d cs)
  have lit: "map to_lower (if literal_char hs (to_lower d) then [to_lower d] else AppendPercent (to_lower d)) =
      map to_lower (if literal_char hs d then [d] else AppendPercent d)"
    using literal_lower [where hs = hs and c = d] by auto
  have pc: "to_lower d = CHR ''%'' \<longleftrightarrow> d = CHR ''%''" using to_lower_punct [of d "CHR ''%''"] by (auto simp: is_lower_def to_lower_def is_upper_def)
  show ?case
  proof (cases "d = CHR ''%'' \<and> length cs \<ge> 2 \<and> IsHex (cs ! 0) \<and> IsHex (cs ! 1)")
    case True
    then obtain h l rest where cs: "cs = h # l # rest" using two_chars [of cs] by blast
    show ?thesis using True 2(1) [OF True refl] pc by (simp add: cs Let_def hex_lower)
  next
    case False
    then have F: "\<not> (to_lower d = CHR ''%'' \<and> length (map to_lower cs) \<ge> 2 \<and> IsHex (map to_lower cs ! 0) \<and> IsHex (map to_lower cs ! 1))"
      using pc by (cases cs rule: remdups_adj.cases) (auto simp: hex_lower)
    then show ?thesis
      using 2(2) [OF False] lit unfolding list.map NormalizePercentEncoding.simps(2) if_not_P [OF False] if_not_P [OF F] by simp
  qed
qed simp

section \<open>Authorities\<close>

abbreviation norm_host :: "string \<Rightarrow> string" where
  "norm_host h \<equiv> map to_lower (NormalizePercentEncoding True h)"

lemma norm_host_idem: "norm_host (norm_host h) = norm_host h"
  by (simp only: NPE_lower NPE_idem)

lemma lower_delimiter: "to_lower c = d \<Longrightarrow> \<not> IsAlpha d \<Longrightarrow> c = d"
  using to_lower_punct [of c d] by (simp add: IsAlpha_def)

lemma norm_host_chars:
  assumes "c \<in> set (norm_host h)" "\<not> IsUnreserved c" "c \<noteq> CHR ''%''"
  shows "c \<in> set h \<and> literal_char True c"
proof -
  obtain d where d: "d \<in> set (NormalizePercentEncoding True h)" "to_lower d = c" using assms(1) by auto
  have "d = c" using lower_delimiter [OF d(2)] assms(2) by (simp add: IsUnreserved_def)
  then show ?thesis using NPE_chars [of c True h] d(1) assms(2,3) by blast
qed

lemma delimiters:
  "\<not> IsUnreserved (CHR ''/'')" "\<not> IsUnreserved (CHR ''?'')" "\<not> IsUnreserved (CHR ''#'')" "\<not> IsUnreserved (CHR ''@'')"
  "\<not> IsUnreserved (CHR '':'')" "\<not> IsUnreserved (CHR ''['')" "\<not> IsUnreserved (CHR '']'')"
  "\<not> IsHex (CHR ''/'')" "\<not> IsHex (CHR '']'')" "\<not> IsHex (CHR ''['')"
  by code_simp+

lemma literal_delimiters:
  "\<not> IsPathSafe (CHR ''?'')" "\<not> IsPathSafe (CHR ''#'')" "\<not> IsHostSafe (CHR ''?'')" "\<not> IsHostSafe (CHR ''#'')"
  "IsPathSafe (CHR ''/'')" "IsHostSafe (CHR ''['')" "IsHostSafe (CHR '']'')"
  by code_simp+

lemma norm_host_split:
  assumes "\<not> IsHex d" "d \<noteq> CHR ''%''" "literal_char True d" "to_lower d = d"
  shows "norm_host (a @ d # b) = norm_host a @ d # norm_host b"
  using NPE_split [of d True a b, OF assms(1-3)] assms(4) by simp

lemma norm_host_hd:
  assumes "h \<noteq> []"
  shows "norm_host h \<noteq> []" "hd (norm_host h) = CHR ''['' \<longleftrightarrow> hd h = CHR ''[''"
proof -
  obtain c cs where h: "h = c # cs" using assms by (cases h) auto
  have out: "\<exists>x xs. NormalizePercentEncoding True (c # cs) = x # xs \<and> (x = c \<or> x = CHR ''%'' \<or> IsUnreserved x)"
    unfolding NormalizePercentEncoding.simps(2) Let_def by (cases "c = CHR ''%'' \<and> length cs \<ge> 2 \<and> IsHex (cs ! 0) \<and> IsHex (cs ! 1)")
      (simp_all add: AppendPercent_def del: One_nat_def)
  then obtain x xs where x: "NormalizePercentEncoding True h = x # xs" "x = c \<or> x = CHR ''%'' \<or> IsUnreserved x" unfolding h by blast
  show "norm_host h \<noteq> []" by (simp add: x(1))
  show "hd (norm_host h) = CHR ''['' \<longleftrightarrow> hd h = CHR ''[''"
  proof
    assume "hd (norm_host h) = CHR ''[''"
    then have "x = CHR ''[''" using lower_delimiter [of x "CHR ''[''"] delimiters(6) by (simp add: x(1) IsUnreserved_def)
    then show "hd h = CHR ''[''" using x(2) delimiters(6) by (auto simp: h)
  next
    assume "hd h = CHR ''[''"
    then have "norm_host h = CHR ''['' # norm_host cs"
      using norm_host_split [of "CHR ''[''" "[]" cs] delimiters literal_delimiters by (simp add: h to_lower_def is_upper_def del: NormalizePercentEncoding.simps(2))
    then show "hd (norm_host h) = CHR ''[''" by simp
  qed
qed

text \<open>Where the port of an authority begins is not ambiguous: a bracketed host, or a host without a colon.\<close>

definition clear_host :: "string \<Rightarrow> bool" where
  "clear_host h \<longleftrightarrow> hd h = CHR ''['' \<or> CHR '':'' \<notin> set h"

definition bracketed :: "string \<Rightarrow> bool" where
  "bracketed h \<longleftrightarrow> (\<exists>m. h = CHR ''['' # m @ '']'' \<and> CHR '']'' \<notin> set m)"

lemma host_and_port_bracketed:
  assumes "host_and_port a = Some (h, p)" "h \<noteq> []" "hd h = CHR ''[''"
  shows "bracketed h"
proof -
  have "a \<noteq> [] \<and> hd a = CHR ''[''"
    using assms by (cases a) (auto simp: host_and_port_def hd_append split: if_splits option.splits)
  then obtain close where c: "find_index (\<lambda>c. c = CHR '']'') a = Some close" "h = take (close + 1) a"
    using assms(1) by (auto simp: host_and_port_def Let_def split: option.splits if_splits)
  obtain xs ys where a: "a = xs @ CHR '']'' # ys" "length xs = close" "\<forall>x\<in>set xs. x \<noteq> CHR '']''"
    using find_index_Some_split [OF c(1)] by metis
  then have h: "h = xs @ '']''" using c(2) by simp
  then obtain m where "xs = CHR ''['' # m" using assms(3) by (cases xs) auto
  then show ?thesis using h a(3) by (auto simp: bracketed_def)
qed

lemma norm_host_bracketed:
  assumes "bracketed h"
  obtains m where "norm_host h = CHR ''['' # m @ '']''" "CHR '']'' \<notin> set m"
proof -
  obtain m where m: "h = CHR ''['' # m @ '']''" "CHR '']'' \<notin> set m" using assms by (auto simp: bracketed_def)
  have low: "to_lower (CHR ''['') = CHR ''[''" "to_lower (CHR '']'') = CHR '']''" by code_simp+
  have "norm_host h = CHR ''['' # norm_host (m @ '']'')"
    using norm_host_split [of "CHR ''[''" "[]" "m @ '']''"] delimiters literal_delimiters low by (simp add: m(1) del: NormalizePercentEncoding.simps(2))
  moreover have "norm_host (m @ '']'') = norm_host m @ '']''"
    using norm_host_split [of "CHR '']''" m "[]"] delimiters literal_delimiters low by simp
  moreover have "CHR '']'' \<notin> set (norm_host m)" using norm_host_chars [of "CHR '']''" m] m(2) delimiters by auto
  ultimately show thesis using that by simp
qed

lemma digits_no_colon: "CHR '':'' \<notin> set (to_dec v)"
  using to_dec_digits [of "CHR '':''" v] by (auto simp: is_digit_def)

lemma host_and_port_again:
  assumes "h \<noteq> []" "clear_host h" "hd h = CHR ''['' \<longrightarrow> bracketed h" "ptext = [] \<or> (\<exists>v. ptext = CHR '':'' # to_dec v)"
  shows "host_and_port (norm_host h @ ptext) = Some (norm_host h, drop 1 ptext)"
proof (cases "hd h = CHR ''[''")
  case True
  then obtain m where m: "norm_host h = CHR ''['' # m @ '']''" "CHR '']'' \<notin> set m"
    using norm_host_bracketed assms(3) by blast
  then have "find_index (\<lambda>c. c = CHR '']'') (norm_host h @ ptext) = Some (length m + 1)"
    using find_index_append [of "CHR ''['' # m" "\<lambda>c. c = CHR '']''" "CHR '']''" ptext] by auto
  then show ?thesis using m(1) assms(4) by (auto simp: host_and_port_def Let_def)
next
  case False
  then have "CHR '':'' \<notin> set h" using assms(2) by (simp add: clear_host_def)
  then have "CHR '':'' \<notin> set (norm_host h)" using norm_host_chars [of "CHR '':''" h] delimiters(5) by blast
  then have no: "\<forall>c\<in>set (norm_host h). c \<noteq> CHR '':''" by blast
  have hd: "norm_host h \<noteq> []" "hd (norm_host h) \<noteq> CHR ''[''" using norm_host_hd [OF assms(1)] False by auto
  have "rfind_index (\<lambda>c. c = CHR '':'') (norm_host h @ CHR '':'' # to_dec v) = Some (length (norm_host h))" for v
    by (rule rfind_index_append) (use digits_no_colon in auto)
  then show ?thesis using hd no assms(4) by (auto simp: host_and_port_def)
qed

lemma port_loop_value:
  "\<forall>c\<in>set cs. is_digit c \<Longrightarrow> foldl (\<lambda>acc c. acc * 10 + digit_val c) p cs \<le> 65535 \<Longrightarrow>
    port_loop cs p = Some (foldl (\<lambda>acc c. acc * 10 + digit_val c) p cs)"
proof (induction cs arbitrary: p)
  case (Cons c cs)
  then show ?case using foldl_dec_mono [of "p * 10 + digit_val c" cs] by (auto simp: Let_def)
qed simp

lemma port_loop_to_dec: "v \<le> 65535 \<Longrightarrow> port_loop (to_dec v) 0 = Some v"
  using port_loop_value [of "to_dec v" 0] to_dec_digits [of _ v] dec_value_to_dec [of v] by (auto simp: dec_value_def)

lemma port_loop_bound: "port_loop p v = Some n \<Longrightarrow> v \<le> 65535 \<Longrightarrow> n \<le> 65535"
  by (induction p arbitrary: v) (auto simp: Let_def split: if_splits)

lemma NormalizeAuthority_shape:
  assumes "NormalizeAuthority a secure = Some r"
  obtains h p v where "host_and_port (without_userinfo a) = Some (h, p)" "h \<noteq> []"
    "r = norm_host h @ (if v \<noteq> (if secure then 443 else 80) then CHR '':'' # to_dec v else [])" "v \<le> 65535"
proof -
  obtain h p where h: "host_and_port (without_userinfo a) = Some (h, p)" "h \<noteq> []"
    using assms by (auto simp: NormalizeAuthority_def split: option.splits if_splits)
  show thesis
  proof (cases "p = []")
    case True
    then show thesis using assms h by (intro that [of h p "if secure then 443 else 80"]) (auto simp: NormalizeAuthority_def)
  next
    case False
    then obtain v where v: "port_loop p 0 = Some v" using assms h by (auto simp: NormalizeAuthority_def Let_def split: option.splits)
    then show thesis
      using assms h False port_loop_bound [OF v] by (intro that [of h p v]) (auto simp: NormalizeAuthority_def Let_def)
  qed
qed

lemma host_and_port_chars: "host_and_port a = Some (h, p) \<Longrightarrow> set h \<subseteq> set a"
  by (auto simp: host_and_port_def Let_def dest: in_set_takeD split: option.splits if_splits)

lemma without_userinfo_chars: "set (without_userinfo a) \<subseteq> set a - {CHR ''@''}"
proof (cases "rfind_index (\<lambda>c. c = CHR ''@'') a")
  case None
  then show ?thesis by (auto simp: without_userinfo_def rfind_index_None)
next
  case (Some at)
  then show ?thesis using rfind_index_SomeD(3) [OF Some] set_drop_subset [of "Suc at" a] by (auto simp: without_userinfo_def)
qed

lemma without_userinfo_id:
  assumes "CHR ''@'' \<notin> set a"
  shows "without_userinfo a = a"
proof -
  have "\<forall>c\<in>set a. c \<noteq> CHR ''@''" using assms by blast
  then have "rfind_index (\<lambda>c. c = CHR ''@'') a = None" by (rule rfind_index_NoneI)
  then show ?thesis by (simp add: without_userinfo_def)
qed

lemma NormalizeAuthority_chars:
  assumes "NormalizeAuthority a secure = Some r" "CHR ''/'' \<notin> set a"
  shows "r \<noteq> []" "CHR ''@'' \<notin> set r" "CHR ''/'' \<notin> set r" "CHR ''?'' \<notin> set r" "CHR ''#'' \<notin> set r" "map to_lower r = r"
proof -
  obtain h p v where r: "host_and_port (without_userinfo a) = Some (h, p)" "h \<noteq> []"
    "r = norm_host h @ (if v \<noteq> (if secure then 443 else 80) then CHR '':'' # to_dec v else [])"
    using NormalizeAuthority_shape [OF assms(1)] by blast
  have h: "CHR ''@'' \<notin> set h" "CHR ''/'' \<notin> set h"
    using host_and_port_chars [OF r(1)] without_userinfo_chars [of a] assms(2) by auto
  show "r \<noteq> []" using norm_host_hd(1) [OF r(2)] by (simp add: r(3))
  have digit: "is_digit x \<and> to_lower x = x" if "x \<in> set (to_dec v)" for x
    using to_dec_digits [OF that] by (simp add: to_lower_def is_digit_ord is_upper_ord)
  have "c \<notin> set r" if "\<not> IsUnreserved c" "c \<noteq> CHR ''%''" "c \<noteq> CHR '':''" "c \<notin> set h \<or> \<not> literal_char True c" for c
    using norm_host_chars [of c h] that digit [of c] by (auto simp: r(3) IsUnreserved_def split: if_splits)
  from this [of "CHR ''@''"] this [of "CHR ''/''"] this [of "CHR ''?''"] this [of "CHR ''#''"]
  show "CHR ''@'' \<notin> set r" "CHR ''/'' \<notin> set r" "CHR ''?'' \<notin> set r" "CHR ''#'' \<notin> set r"
    using h delimiters literal_delimiters by auto
  have "map to_lower (to_dec v) = to_dec v" by (rule map_idI) (use digit in blast)
  moreover have "to_lower (CHR '':'') = CHR '':''" by code_simp
  ultimately show "map to_lower r = r" by (simp add: r(3))
qed

lemma NormalizeAuthority_idem:
  assumes "NormalizeAuthority a secure = Some r" "CHR ''/'' \<notin> set a"
    and "host_and_port (without_userinfo a) = Some (h, p)" "clear_host h"
  shows "NormalizeAuthority r secure = Some r"
proof -
  obtain h' p' v where r': "host_and_port (without_userinfo a) = Some (h', p')" "h' \<noteq> []"
    "r = norm_host h' @ (if v \<noteq> (if secure then 443 else 80) then CHR '':'' # to_dec v else [])" "v \<le> 65535"
    by (rule NormalizeAuthority_shape [OF assms(1)])
  have "h' = h" using r'(1) assms(3) by simp
  note r = r'(2,4,3) [unfolded this]
  let ?pt = "if v \<noteq> (if secure then 443 else 80) then CHR '':'' # to_dec v else []"
  have "host_and_port (norm_host h @ ?pt) = Some (norm_host h, drop 1 ?pt)"
    by (rule host_and_port_again) (use r(1) assms(4) host_and_port_bracketed [OF assms(3) r(1)] in auto)
  moreover have "without_userinfo r = r" by (rule without_userinfo_id [OF NormalizeAuthority_chars(2) [OF assms(1,2)]])
  ultimately have hp: "host_and_port (without_userinfo r) = Some (norm_host h, drop 1 ?pt)" by (simp add: r(3))
  have ne: "norm_host h \<noteq> []" by (rule norm_host_hd(1) [OF r(1)])
  show ?thesis
  proof (cases "v = (if secure then 443 else 80)")
    case True
    then show ?thesis unfolding NormalizeAuthority_def hp using ne by (simp add: norm_host_idem r(3))
  next
    case False
    then show ?thesis
      unfolding NormalizeAuthority_def hp using ne port_loop_to_dec [OF r(2)] by (simp add: norm_host_idem r(3) Let_def)
  qed
qed

section \<open>Paths\<close>

abbreviation npe :: "string \<Rightarrow> string" where
  "npe \<equiv> NormalizePercentEncoding False"

lemma npe_slash: "npe (a @ CHR ''/'' # b) = npe a @ CHR ''/'' # npe b"
  by (rule NPE_split) (use delimiters literal_delimiters in auto)

lemma npe_slashed: "npe (slashed ss) = slashed (map npe ss)"
proof -
  have "npe (a @ slashed ss) = npe a @ slashed (map npe ss)" for a
  proof (induction ss arbitrary: a)
    case (Cons s ss)
    then show ?case using npe_slash [of a "s @ slashed ss"] by simp
  qed simp
  from this [of "[]"] show ?thesis by simp
qed

lemma npe_plain: "plain s \<Longrightarrow> plain (npe s)"
  using NPE_chars [of "CHR ''/''" False s] delimiters(1) by (auto simp: plain_def)

lemma slashed_inject:
  assumes "slashed ss = slashed ts" "\<forall>s\<in>set ss. plain s" "\<forall>s\<in>set ts. plain s"
  shows "ss = ts"
proof (cases ss)
  case Nil
  then show ?thesis using assms(1) by (cases ts) auto
next
  case (Cons s ss')
  then obtain t ts' where ts: "ts = t # ts'" using assms(1) by (cases ts) auto
  then have "split_on (CHR ''/'') (s @ slashed ss') = split_on (CHR ''/'') (t @ slashed ts')" using assms(1) Cons by simp
  then show ?thesis using split_slashed [of ss' s] split_slashed [of ts' t] assms(2,3) Cons ts by simp
qed

lemma npe_segments: "s \<in> set (split_on (CHR ''/'') (npe xs)) \<Longrightarrow> npe s = s"
proof -
  let ?ss = "split_on (CHR ''/'') (npe xs)"
  have "slashed (map npe ?ss) = npe (slashed ?ss)" by (simp add: npe_slashed)
  also have "\<dots> = CHR ''/'' # npe (npe xs)" using npe_slash [of "[]" "npe xs"] by (simp add: slashed_split)
  also have "\<dots> = slashed ?ss" by (simp add: NPE_idem slashed_split)
  finally have "map npe ?ss = ?ss" by (rule slashed_inject) (use split_plain npe_plain in auto)
  then show "s \<in> set ?ss \<Longrightarrow> npe s = s" using map_eq_conv [of npe ?ss id] by simp
qed

text \<open>The path of an identifier.\<close>

definition norm_path :: "string \<Rightarrow> string" where
  "norm_path p = (let path = Id_RemoveDotSegments (npe p) in if path = [] then ''/'' else path)"

lemma norm_path_facts:
  assumes "p = [] \<or> hd p = CHR ''/''"
  shows "norm_path p \<noteq> []" "hd (norm_path p) = CHR ''/''" "no_dots (norm_path p)" "npe (norm_path p) = norm_path p"
    "Id_RemoveDotSegments (npe p) = [] \<or> Id_RemoveDotSegments (npe p) = norm_path p"
proof -
  show "Id_RemoveDotSegments (npe p) = [] \<or> Id_RemoveDotSegments (npe p) = norm_path p" by (simp add: norm_path_def Let_def)
  have root: "no_dots ''/''" "npe ''/'' = ''/''" using npe_slash [of "[]" "[]"] by (simp_all add: no_dots_def)
  have "norm_path p \<noteq> [] \<and> hd (norm_path p) = CHR ''/'' \<and> no_dots (norm_path p) \<and> npe (norm_path p) = norm_path p"
  proof (cases p)
    case Nil
    then show ?thesis using root by (simp add: norm_path_def Id_RemoveDotSegments_def dots_loop.simps)
  next
    case (Cons c xs)
    then have p: "npe p = CHR ''/'' # npe xs" using assms npe_slash [of "[]" xs] by simp
    define R where "R = fold_ends (split_on (CHR ''/'') (npe xs)) ([], False)"
    have rem: "Id_RemoveDotSegments (npe p) = RemoveDotSegments (npe p)"
      by (simp add: p Id_RemoveDotSegments_def dots_loop_rfc RemoveDotSegments_rfc)
    note facts = RemoveDotSegments_facts [of "npe p", unfolded p, simplified, folded p]
    have path: "norm_path p = RemoveDotSegments (npe p)" using facts(1) by (simp add: norm_path_def rem)
    have "RemoveDotSegments (npe p) = slashed R" by (simp add: p R_def RemoveDotSegments_absolute)
    moreover have "npe s = s" if "s \<in> set R" for s
      using that fold_ends_subset [of "split_on (CHR ''/'') (npe xs)" "[]" False] npe_segments by (fastforce simp: R_def)
    then have "map npe R = R" by (simp add: map_idI)
    ultimately have "npe (norm_path p) = norm_path p" by (simp add: path npe_slashed)
    then show ?thesis using facts path by simp
  qed
  then show "norm_path p \<noteq> []" "hd (norm_path p) = CHR ''/''" "no_dots (norm_path p)" "npe (norm_path p) = norm_path p" by auto
qed

lemma norm_path_again:
  assumes "p = [] \<or> hd p = CHR ''/''"
  shows "Id_RemoveDotSegments (npe (norm_path p)) = norm_path p"
proof -
  note f = norm_path_facts [OF assms]
  then obtain xs where "norm_path p = CHR ''/'' # xs" by (cases "norm_path p") auto
  then show ?thesis
    using f RemoveDotSegments_id [of "norm_path p"] by (simp add: Id_RemoveDotSegments_def dots_loop_rfc RemoveDotSegments_rfc)
qed

lemma npe_no_marks: "CHR ''?'' \<notin> set (npe s)" "CHR ''#'' \<notin> set (npe s)"
  using NPE_chars [of "CHR ''?''" False s] NPE_chars [of "CHR ''#''" False s] delimiters literal_delimiters by auto

section \<open>Splitting\<close>

text \<open>What splitting guarantees of the parts of a reference with an authority.\<close>

definition parts_ok :: "Parts \<Rightarrow> bool" where
  "parts_ok p \<longleftrightarrow> (pt_hasAuthority p \<longrightarrow> CHR ''/'' \<notin> set (pt_authority p) \<and> (pt_path p = [] \<or> hd (pt_path p) = CHR ''/'')) \<and>
     CHR ''#'' \<notin> set (pt_query p) \<and> (pt_hasQuery p \<or> pt_query p = [])"

lemma split_query_ok:
  assumes "split_query str = (out, rest)" "CHR ''#'' \<notin> set str"
  shows "CHR ''#'' \<notin> set (pt_query out) \<and> (pt_hasQuery out \<or> pt_query out = []) \<and> \<not> pt_hasAuthority out"
  using assms by (auto simp: split_query_def Parts_empty_def dest: in_set_dropD split: option.splits)

lemma split_scheme_keeps:
  "split_scheme out str = (out', rest) \<Longrightarrow>
    pt_query out' = pt_query out \<and> pt_hasQuery out' = pt_hasQuery out \<and> pt_hasAuthority out' = pt_hasAuthority out"
  by (auto simp: split_scheme_def split: if_splits)

lemma split_authority_ok:
  assumes "CHR ''#'' \<notin> set (pt_query out)" "pt_hasQuery out \<or> pt_query out = []" "\<not> pt_hasAuthority out"
  shows "parts_ok (split_authority out str)"
proof (cases "take 2 str = ''//''")
  case True
  show ?thesis
  proof (cases "find_index (\<lambda>c. c = CHR ''/'') (drop 2 str)")
    case None
    then show ?thesis using assms True by (auto simp: split_authority_def parts_ok_def find_index_None)
  next
    case (Some slash)
    note f = find_index_SomeD [OF Some]
    have "CHR ''/'' \<notin> set (take slash (drop 2 str))" using f(3) by blast
    moreover have "hd (drop slash (drop 2 str)) = CHR ''/''" using f(1,2) by (simp add: hd_drop_conv_nth)
    ultimately show ?thesis using assms True Some by (simp add: split_authority_def parts_ok_def)
  qed
qed (use assms in \<open>simp add: split_authority_def parts_ok_def\<close>)

lemma SplitUriReference_ok:
  assumes "SplitUriReference str = Some parts"
  shows "parts_ok parts"
proof -
  define t where "t = (case find_index (\<lambda>c. c = CHR ''#'') str of None \<Rightarrow> str | Some hash \<Rightarrow> take hash str)"
  have t: "CHR ''#'' \<notin> set t"
    using find_index_SomeD(3) [of "\<lambda>c. c = CHR ''#''" str] find_index_None [of "\<lambda>c. c = CHR ''#''" str]
    unfolding t_def by (cases "find_index (\<lambda>c. c = CHR ''#'') str") fastforce+
  obtain o1 s1 where q: "split_query t = (o1, s1)" by fastforce
  obtain o2 s2 where c: "split_scheme o1 s1 = (o2, s2)" by fastforce
  have "parts = split_authority o2 s2"
    using assms q c by (simp add: SplitUriReference_def t_def [symmetric] split: if_splits)
  then show ?thesis using split_query_ok [OF q t] split_scheme_keeps [OF c] split_authority_ok by simp
qed

lemma MergePath_absolute: "pt_path b = [] \<or> hd (pt_path b) = CHR ''/'' \<Longrightarrow> MergePath b r \<noteq> [] \<and> hd (MergePath b r) = CHR ''/''"
  by (cases "pt_path b") (auto simp: MergePath_def split: option.splits)

lemma target_parts_ok:
  assumes "target_parts a b = Some t"
  shows "parts_ok t"
proof -
  obtain r where r: "SplitUriReference a = Some r" using assms by (auto simp: target_parts_def split: option.splits)
  note ok = SplitUriReference_ok [OF r]
  show ?thesis
  proof (cases "pt_scheme r \<noteq> []")
    case True
    then show ?thesis using assms r ok by (simp add: target_parts_def)
  next
    case False
    then obtain base where base: "SplitUriReference b = Some base" "pt_hasAuthority base" "t = anchored base r"
      using assms r by (auto simp: target_parts_def split: option.splits if_splits)
    then show ?thesis
      using ok SplitUriReference_ok [OF base(1)] MergePath_absolute [of base "pt_path r"] by (auto simp: parts_ok_def anchored_def)
  qed
qed

text \<open>Splitting what was composed gives the parts back.\<close>

lemma scheme_claimed:
  assumes "IsClaimed sch"
  shows "split_scheme out (sch @ ''://'' @ rest) = (out\<lparr>pt_scheme := sch\<rparr>, ''//'' @ rest)"
  using assms
  by (auto simp: IsClaimed_def split_scheme_def scheme_length_def IsAlpha_def is_lower_def is_upper_def is_digit_def to_lower_def)

lemma split_composed:
  assumes "IsClaimed sch" "CHR ''/'' \<notin> set auth" "CHR ''?'' \<notin> set auth" "CHR ''#'' \<notin> set auth"
    and "path \<noteq> []" "hd path = CHR ''/''" "CHR ''?'' \<notin> set path" "CHR ''#'' \<notin> set path"
    and "CHR ''#'' \<notin> set q" "hq \<or> q = []"
  shows "SplitUriReference (Id_Compose sch auth path q hq) =
    Some \<lparr>pt_scheme = sch, pt_hasAuthority = True, pt_authority = auth, pt_path = path, pt_query = q, pt_hasQuery = hq\<rparr>"
proof -
  define front where "front = sch @ ''://'' @ auth @ path"
  have comp: "Id_Compose sch auth path q hq = front @ (if hq then CHR ''?'' # q else [])" by (simp add: front_def Id_Compose_def)
  obtain rest where path: "path = CHR ''/'' # rest" using assms(5,6) by (cases path) auto
  have sch: "CHR ''#'' \<notin> set sch" "CHR ''?'' \<notin> set sch" "sch \<noteq> []" using assms(1) by (auto simp: IsClaimed_def)
  have hash: "find_index (\<lambda>c. c = CHR ''#'') (Id_Compose sch auth path q hq) = None"
    using assms(4,8,9) sch(1) by (intro find_index_NoneI) (auto simp: Id_Compose_def)
  have front: "\<forall>c\<in>set front. c \<noteq> CHR ''?''" using assms(3,7) sch(2) by (auto simp: front_def)
  have query: "split_query (Id_Compose sch auth path q hq) = (Parts_empty\<lparr>pt_query := q, pt_hasQuery := hq\<rparr>, front)"
  proof (cases hq)
    case True
    then show ?thesis
      unfolding comp using find_index_append [of front "\<lambda>c. c = CHR ''?''" "CHR ''?''" q] front by (simp add: split_query_def)
  next
    case False
    then show ?thesis unfolding comp using front assms(10) by (simp add: split_query_def Parts_empty_def)
  qed
  have "find_index (\<lambda>c. c = CHR ''/'') (auth @ path) = Some (length auth)"
    unfolding path by (rule find_index_append) (use assms(2) in auto)
  then have "split_authority (Parts_empty\<lparr>pt_query := q, pt_hasQuery := hq, pt_scheme := sch\<rparr>) (''//'' @ auth @ path) =
      \<lparr>pt_scheme = sch, pt_hasAuthority = True, pt_authority = auth, pt_path = path, pt_query = q, pt_hasQuery = hq\<rparr>"
    by (simp add: split_authority_def Parts_empty_def)
  moreover have "Id_Compose sch auth path q hq \<noteq> []" by (simp add: Id_Compose_def)
  ultimately show ?thesis using scheme_claimed [OF assms(1)] by (simp add: SplitUriReference_def hash query front_def)
qed

section \<open>Identifiers are normal forms\<close>

lemma CreateIdentifier_cases:
  obtains (none) "CreateIdentifier a b = []"
  | (some) t auth where "target_parts a b = Some t" "parts_ok t" "IsClaimed (pt_scheme t)" "CHR ''/'' \<notin> set (pt_authority t)"
      "pt_path t = [] \<or> hd (pt_path t) = CHR ''/''" "NormalizeAuthority (pt_authority t) (pt_scheme t = ''https'') = Some auth"
      "CreateIdentifier a b = Id_Compose (pt_scheme t) auth (norm_path (pt_path t)) (pt_query t) (pt_hasQuery t)"
proof (cases "\<exists>t auth. target_parts a b = Some t \<and> IsClaimed (pt_scheme t) \<and> pt_hasAuthority t \<and>
    NormalizeAuthority (pt_authority t) (pt_scheme t = ''https'') = Some auth")
  case False
  then show thesis
    by (intro none) (auto simp: CreateIdentifier_def NormalizeAbsolute_def split: option.splits)
next
  case True
  then obtain t auth where t: "target_parts a b = Some t" "IsClaimed (pt_scheme t)" "pt_hasAuthority t"
    "NormalizeAuthority (pt_authority t) (pt_scheme t = ''https'') = Some auth" by blast
  note ok = target_parts_ok [OF t(1)]
  then have p: "CHR ''/'' \<notin> set (pt_authority t)" "pt_path t = [] \<or> hd (pt_path t) = CHR ''/''"
    using t(3) by (simp_all add: parts_ok_def)
  have "CreateIdentifier a b = Id_Compose (pt_scheme t) auth (norm_path (pt_path t)) (pt_query t) (pt_hasQuery t)"
    using t norm_path_facts(2) [OF p(2)] by (simp add: CreateIdentifier_def NormalizeAbsolute_def norm_path_def Let_def)
  then show thesis using some t ok p by blast
qed

text \<open>The shape of an identifier.\<close>

definition normal_identifier :: "string \<Rightarrow> bool" where
  "normal_identifier s \<longleftrightarrow> (\<exists>sch auth path q hq. s = Id_Compose sch auth path q hq \<and> IsClaimed sch \<and>
     auth \<noteq> [] \<and> map to_lower auth = auth \<and> CHR ''@'' \<notin> set auth \<and> CHR ''/'' \<notin> set auth \<and>
     path \<noteq> [] \<and> hd path = CHR ''/'' \<and> no_dots path \<and> npe path = path \<and> CHR ''#'' \<notin> set s)"

lemma compose_no_hash:
  "IsClaimed sch \<Longrightarrow> CHR ''#'' \<notin> set auth \<Longrightarrow> CHR ''#'' \<notin> set path \<Longrightarrow> CHR ''#'' \<notin> set q \<Longrightarrow> CHR ''#'' \<notin> set (Id_Compose sch auth path q hq)"
  by (auto simp: Id_Compose_def IsClaimed_def)

lemma norm_path_marks:
  assumes "p = [] \<or> hd p = CHR ''/''"
  shows "CHR ''?'' \<notin> set (norm_path p)" "CHR ''#'' \<notin> set (norm_path p)"
  using npe_no_marks [of "norm_path p"] unfolding norm_path_facts(4) [OF assms] by blast+

text \<open>
  C21: whatever an asset path and its anchor are, the identifier created from them is empty
  or a normal form: an \<open>http\<close> or \<open>https\<close> URI whose authority is in lower case and carries no
  credentials, whose path is absolute, has no dot segment and is percent-normalized, and
  which has no fragment.
\<close>

theorem CreateIdentifier_normal: "CreateIdentifier a b = [] \<or> normal_identifier (CreateIdentifier a b)"
proof (cases rule: CreateIdentifier_cases [of a b])
  case (some t auth)
  note auth = NormalizeAuthority_chars [OF some(6,4)] and path = norm_path_facts [OF some(5)]
  have "CHR ''#'' \<notin> set (CreateIdentifier a b)"
    unfolding some(7) by (rule compose_no_hash) (use some(2,3) auth(5) norm_path_marks(2) [OF some(5)] in \<open>auto simp: parts_ok_def\<close>)
  then show ?thesis unfolding normal_identifier_def using some(3,7) auth path(1-4) by blast
qed simp



text \<open>
  The condition on the host is needed. The port is taken after the last colon and a
  default port is removed, so the identifier of \<open>http://a:80:80/\<close> still ends in a default
  port, and creating it again removes that one too: one asset has two identifiers.
\<close>

theorem identifier_not_idempotent:
  "CreateIdentifier ''http://a:80:80/'' [] = ''http://a:80/'' \<and> CreateIdentifier ''http://a:80/'' [] = ''http://a/''"
proof -
  have split: "SplitUriReference ''http://a:80:80/'' = Some \<lparr>pt_scheme = ''http'', pt_hasAuthority = True, pt_authority = ''a:80:80'',
      pt_path = ''/'', pt_query = [], pt_hasQuery = False\<rparr>"
    "SplitUriReference ''http://a:80/'' = Some \<lparr>pt_scheme = ''http'', pt_hasAuthority = True, pt_authority = ''a:80'',
      pt_path = ''/'', pt_query = [], pt_hasQuery = False\<rparr>" by code_simp+
  have hosts: "host_and_port (without_userinfo ''a:80:80'') = Some (''a:80'', ''80'')"
    "host_and_port (without_userinfo ''a:80'') = Some (''a'', ''80'')"
    "norm_host ''a:80'' = ''a:80''" "norm_host ''a'' = ''a''" "Id_RemoveDotSegments (npe ''/'') = ''/''" by code_simp+
  have port: "port_loop ''80'' 0 = Some 80" by (simp add: is_digit_def digit_val_def ord_def Let_def)
  have "NormalizeAuthority ''a:80:80'' False = Some ''a:80''" "NormalizeAuthority ''a:80'' False = Some ''a''"
    by (simp_all only: NormalizeAuthority_def hosts port option.case prod.case Let_def list.distinct(2) if_False if_True
        not_False_eq_True not_True_eq_False append_Nil2 refl)
  then show ?thesis
    by (simp add: CreateIdentifier_def target_parts_def split NormalizeAbsolute_def IsClaimed_def hosts(5) Id_Compose_def Let_def
        del: NormalizePercentEncoding.simps)
qed

section \<open>The name is the backend's name\<close>

lemma norm_host_ok:
  assumes "h \<noteq> []" "clear_host h" "hd h = CHR ''['' \<longrightarrow> bracketed h" "CHR ''/'' \<notin> set h" "CHR ''@'' \<notin> set h"
  shows "host_ok (norm_host h)"
proof -
  have no: "c \<notin> set (norm_host h)" if "\<not> IsUnreserved c" "c \<noteq> CHR ''%''" "c \<notin> set h \<or> \<not> literal_char True c" for c
    using norm_host_chars [of c h] that by blast
  have "\<forall>c\<in>set (norm_host h). \<not> delimiter c \<and> c \<noteq> CHR ''@''"
    using no [of "CHR ''/''"] no [of "CHR ''?''"] no [of "CHR ''#''"] no [of "CHR ''@''"] assms(4,5) delimiters literal_delimiters
    unfolding delimiter_def by blast
  moreover have "LowerAscii (norm_host h) = norm_host h" by (simp add: LowerAscii_def)
  moreover have "if hd (norm_host h) = CHR ''['' then find_index (\<lambda>c. c = CHR '']'') (norm_host h) = Some (length (norm_host h) - 1)
      else CHR '':'' \<notin> set (norm_host h)"
  proof (cases "hd h = CHR ''[''")
    case True
    then obtain m where m: "norm_host h = CHR ''['' # m @ '']''" "CHR '']'' \<notin> set m" using norm_host_bracketed assms(3) by blast
    then show ?thesis using find_index_append [of "CHR ''['' # m" "\<lambda>c. c = CHR '']''" "CHR '']''" "[]"] by auto
  next
    case False
    then show ?thesis using norm_host_hd(2) [OF assms(1)] no [of "CHR '':''"] assms(2) delimiters(5) by (simp add: clear_host_def)
  qed
  ultimately show ?thesis using norm_host_hd(1) [OF assms(1)] by (simp add: host_ok_def)
qed



end
