(* ===== verification/Resolver.thy ===== *)
theory Resolver
  imports ResolvedAsset Identifier
begin

text \<open>
  \<open>plugins/http-resolver\<close>: the resolver itself (\<open>HttpResolver.cpp\<close>, \<open>Context.cpp\<close>). Its state
  is one record; each section the code runs under one lock is one operation on it, and
  between two sections of a handler the other threads of the process take a turn, which is
  an argument of the handler. Retained opens are shared objects: an entry is an index into
  a list that only grows. OpenUSD's answers (the bound context, the current cache scope),
  the environment and the transport are arguments.
\<close>

section \<open>State\<close>

record 'w Effective =
  ef_transport :: "'w HttpOptions"
  ef_cache :: CacheOptions
  ef_fingerprint :: string

text \<open>
  One retained open. \<open>on_reader\<close> and \<open>on_status\<close> are the fields of \<open>result\<close>. The key an entry was
  created under is not stored by the code; it is carried here to state what an entry is for.
\<close>

record 'w Opened =
  on_opened :: bool
  on_reader :: "'w HttpReader option"
  on_status :: Status
  on_succeeded :: bool
  on_metadata :: AssetMetadata
  on_key :: string

record Identity =
  id_metadata :: AssetMetadata
  id_reachedUnder :: "DestinationPolicy list"

record Fingerprint =
  fp_validator :: Validator
  fp_seen :: bool
  fp_contradicted :: bool

text \<open>What surrounds the resolver: environment, transport, addresses, the preparation of a directory.\<close>

record 'w Host =
  ho_getenv :: EnvironmentLookup
  ho_factory :: "'w transport option"
  ho_address :: "'w interceptor \<Rightarrow> nat"
  ho_prepared :: bool

text \<open>
  \<open>rv_handed\<close> lists the entries whose retained reader was handed out, in order; it is a record
  of the history that the code does not keep.
\<close>

record 'w Resolver =
  rv_configured :: bool
  rv_environment :: string_map
  rv_base :: "'w Effective"
  rv_entries :: "'w Opened list"
  rv_table :: "string \<Rightarrow> nat option"
  rv_order :: "string list"
  rv_identities :: "string \<Rightarrow> Identity option"
  rv_identityOrder :: "string list"
  rv_fingerprints :: "string \<Rightarrow> Fingerprint option"
  rv_scopes :: "nat \<Rightarrow> string \<Rightarrow> string option"
  rv_posts :: "Post list"
  rv_blocks :: BlockCache
  rv_disk :: DiskBlockStore
  rv_handed :: "nat list"
  rv_world :: 'w

definition kMaxRetainedOpens :: nat where "kMaxRetainedOpens = 64"

definition kMaxRememberedIdentities :: nat where "kMaxRememberedIdentities = 512"

definition AssetMetadata_empty :: AssetMetadata where
  "AssetMetadata_empty = \<lparr>resolvedIdentifier = [], am_size = 0, supportsRandomAccess = False, am_validator = Validator_none,
     am_stability = Unavailable, contentType = []\<rparr>"

definition Opened_new :: "string \<Rightarrow> 'w Opened" where
  "Opened_new key = \<lparr>on_opened = False, on_reader = None, on_status = Status_Ok, on_succeeded = False,
     on_metadata = AssetMetadata_empty, on_key = key\<rparr>"

text \<open>A resolver nothing has used yet, in a process with the given stores.\<close>

definition Resolver_new :: "BlockCache \<Rightarrow> DiskBlockStore \<Rightarrow> 'w \<Rightarrow> 'w Resolver" where
  "Resolver_new blocks disk w = \<lparr>rv_configured = False, rv_environment = [],
     rv_base = \<lparr>ef_transport = HttpOptions_default, ef_cache = CacheOptions_default, ef_fingerprint = []\<rparr>,
     rv_entries = [], rv_table = (\<lambda>_. None), rv_order = [], rv_identities = (\<lambda>_. None), rv_identityOrder = [],
     rv_fingerprints = (\<lambda>_. None), rv_scopes = (\<lambda>_ _. None), rv_posts = [], rv_blocks = blocks, rv_disk = disk,
     rv_handed = [], rv_world = w\<rparr>"

definition post :: "Post list \<Rightarrow> 'w Resolver \<Rightarrow> 'w Resolver" where
  "post ps s = s\<lparr>rv_posts := rv_posts s @ ps\<rparr>"

section \<open>Configuration\<close>

definition Effective_of :: "'w Host \<Rightarrow> 'w ResolverConfiguration \<Rightarrow> 'w Effective" where
  "Effective_of h configuration =
    \<lparr>ef_transport = rc_transport configuration, ef_cache = Normalized (rc_cache configuration),
     ef_fingerprint = TransportFingerprint (ho_address h) (rc_transport configuration)\<rparr>"

definition Configure :: "'w Host \<Rightarrow> 'w Resolver \<Rightarrow> 'w Resolver" where
  "Configure h s =
    (let environment = Snapshot (ho_getenv h);
         (configuration, problems) = ConfigurationFrom (LookupIn environment);
         base = Effective_of h configuration;
         (accepted, blocks) = ConfigureProcess (ef_cache base) (rv_blocks s);
         problems = problems @ (if \<not> accepted then [Problem kCacheBudget (to_dec (unat (budgetBytes (ef_cache base))))
           ''the process block store was already in use; its budget and block size were left as they were''] else []);
         (prepared, disk) = (if dc_directory (rc_persistence configuration) \<noteq> []
           then Disk_Configure (ho_prepared h) (rc_persistence configuration) (rv_disk s) else (True, rv_disk s));
         problems = problems @ (if \<not> prepared then [Problem kPersistentDirectory (dc_directory (rc_persistence configuration))
           ''not a directory this process can create and write''] else [])
     in post (concat (map ReportConfigurationProblem problems))
          (s\<lparr>rv_environment := environment, rv_base := base, rv_blocks := blocks, rv_disk := disk\<rparr>))"

definition EnsureConfigured :: "'w Host \<Rightarrow> 'w Resolver \<Rightarrow> 'w Resolver" where
  "EnsureConfigured h s = (if rv_configured s then s else (Configure h s)\<lparr>rv_configured := True\<rparr>)"

definition EffectiveConfiguration :: "'w Host \<Rightarrow> string_map option \<Rightarrow> 'w Resolver \<Rightarrow> 'w Effective \<times> 'w Resolver" where
  "EffectiveConfiguration h context_object s =
    (let s' = EnsureConfigured h s
     in (case context_object of
           None \<Rightarrow> rv_base s'
         | Some overrides \<Rightarrow> if overrides = [] then rv_base s'
                             else Effective_of h (fst (ConfigurationFrom (Layered overrides (LookupIn (rv_environment s'))))), s'))"

definition OpenKey :: "string \<Rightarrow> 'w Effective \<Rightarrow> string" where
  "OpenKey identifier effective = identifier @ [CHR 0x0A] @ ef_fingerprint effective"

section \<open>The table of retained opens\<close>

text \<open>The oldest keys go until at most \<open>n\<close> are left.\<close>

fun evict_oldest :: "nat \<Rightarrow> string list \<Rightarrow> (string \<Rightarrow> 'a option) \<Rightarrow> string list \<times> (string \<Rightarrow> 'a option)" where
  "evict_oldest n [] table = ([], table)"
| "evict_oldest n (k # ks) table =
    (if length (k # ks) > n then evict_oldest n ks (table(k := None)) else (k # ks, table))"

definition GetOrCreate :: "string \<Rightarrow> 'w Resolver \<Rightarrow> nat \<times> 'w Resolver" where
  "GetOrCreate key s =
    (case rv_table s key of
       Some i \<Rightarrow> (i, s)
     | None \<Rightarrow>
         let i = length (rv_entries s);
             (order, table) = evict_oldest kMaxRetainedOpens (rv_order s @ [key]) ((rv_table s)(key \<mapsto> i))
         in (i, s\<lparr>rv_entries := rv_entries s @ [Opened_new key], rv_table := table, rv_order := order\<rparr>))"

definition Take :: "string \<Rightarrow> 'w Resolver \<Rightarrow> nat option \<times> 'w Resolver" where
  "Take key s =
    (case rv_table s key of
       None \<Rightarrow> (None, s)
     | Some i \<Rightarrow> (Some i, s\<lparr>rv_table := (rv_table s)(key := None), rv_order := remove1 key (rv_order s)\<rparr>))"

definition Forget :: "string \<Rightarrow> nat \<Rightarrow> 'w Resolver \<Rightarrow> 'w Resolver" where
  "Forget key i s =
    (if rv_table s key = Some i
     then s\<lparr>rv_table := (rv_table s)(key := None), rv_order := remove1 key (rv_order s)\<rparr>
     else s)"

text \<open>Under the lock of one entry: opening it once, and moving its reader out.\<close>

definition open_entry :: "'w Host \<Rightarrow> nat \<Rightarrow> string \<Rightarrow> 'w Effective \<Rightarrow> u64 \<Rightarrow> 'w Resolver \<Rightarrow> 'w Resolver" where
  "open_entry h i identifier effective elapsedUs s =
    (let entry = rv_entries s ! i
     in if on_opened entry then s
        else case Http_Open identifier (ef_transport effective) (ho_factory h) elapsedUs (rv_world s) of
               ((reader, st), w) \<Rightarrow>
                 let entry' = entry\<lparr>on_opened := True, on_reader := reader, on_status := st\<rparr>;
                     entry'' = (case reader of None \<Rightarrow> entry' | Some r \<Rightarrow> entry'\<lparr>on_metadata := hr_metadata r, on_succeeded := True\<rparr>)
                 in s\<lparr>rv_entries := (rv_entries s)[i := entry''], rv_world := w\<rparr>)"

definition take_reader :: "nat \<Rightarrow> 'w Resolver \<Rightarrow> 'w HttpReader option \<times> 'w Resolver" where
  "take_reader i s =
    (let entry = rv_entries s ! i
     in case on_reader entry of
          None \<Rightarrow> (None, s)
        | Some r \<Rightarrow> (Some r, s\<lparr>rv_entries := (rv_entries s)[i := entry\<lparr>on_reader := None\<rparr>], rv_handed := rv_handed s @ [i]\<rparr>))"

section \<open>Identities\<close>

definition judge_validator :: "Validator \<Rightarrow> Fingerprint option \<Rightarrow> Fingerprint" where
  "judge_validator v found =
    (let fingerprint = (case found of None \<Rightarrow> \<lparr>fp_validator = Validator_none, fp_seen = False, fp_contradicted = False\<rparr> | Some f \<Rightarrow> f)
     in if \<not> fp_seen fingerprint then fingerprint\<lparr>fp_validator := v, fp_seen := True\<rparr>
        else if \<not> Validator_eq (fp_validator fingerprint) v then fingerprint\<lparr>fp_contradicted := True, fp_validator := v\<rparr>
        else fingerprint)"

definition RememberIdentity :: "string \<Rightarrow> AssetMetadata \<Rightarrow> DestinationPolicy \<Rightarrow> 'w Resolver \<Rightarrow> bool \<times> 'w Resolver" where
  "RememberIdentity identifier meta reachedUnder s =
    (let fingerprint = judge_validator (am_validator meta) (rv_fingerprints s identifier);
         s1 = s\<lparr>rv_fingerprints := (rv_fingerprints s)(identifier \<mapsto> fingerprint)\<rparr>
     in (fp_contradicted fingerprint,
         case rv_identities s identifier of
           Some found \<Rightarrow>
             let policies = id_reachedUnder found
             in s1\<lparr>rv_identities := (rv_identities s)(identifier \<mapsto>
                  \<lparr>id_metadata = meta,
                   id_reachedUnder = (if list_ex (DestinationPolicy_eq reachedUnder) policies then policies else policies @ [reachedUnder])\<rparr>)\<rparr>
         | None \<Rightarrow>
             let (order, identities) = evict_oldest kMaxRememberedIdentities (rv_identityOrder s @ [identifier])
                   ((rv_identities s)(identifier \<mapsto> \<lparr>id_metadata = meta, id_reachedUnder = [reachedUnder]\<rparr>))
             in s1\<lparr>rv_identities := identities, rv_identityOrder := order\<rparr>))"

definition KnownIdentity :: "string \<Rightarrow> DestinationPolicy \<Rightarrow> 'w Resolver \<Rightarrow> (AssetMetadata \<times> bool) option" where
  "KnownIdentity identifier policy s =
    (case rv_identities s identifier of
       None \<Rightarrow> None
     | Some found \<Rightarrow>
         if \<not> list_ex (Covers policy) (id_reachedUnder found) then None
         else Some (id_metadata found, case rv_fingerprints s identifier of None \<Rightarrow> False | Some f \<Rightarrow> fp_contradicted f))"

section \<open>Handlers\<close>

text \<open>\<open>turn n\<close> is what the other threads do before the \<open>n\<close>-th section of the handler.\<close>

type_synonym 'w turns = "nat \<Rightarrow> 'w Resolver \<Rightarrow> 'w Resolver"

definition Resolver_CreateIdentifier :: "string \<Rightarrow> string \<Rightarrow> string" where
  "Resolver_CreateIdentifier assetPath anchorAssetPath = CreateIdentifier assetPath anchorAssetPath"

definition CreateIdentifierForNewAsset :: "string \<Rightarrow> string \<Rightarrow> string" where
  "CreateIdentifierForNewAsset assetPath anchorAssetPath = []"

definition ResolveOnce :: "'w Host \<Rightarrow> 'w turns \<Rightarrow> string \<Rightarrow> string \<Rightarrow> 'w Effective \<Rightarrow> u64 \<Rightarrow> 'w Resolver \<Rightarrow> string \<times> 'w Resolver" where
  "ResolveOnce h turn identifier key effective elapsedUs s =
    (let (i, s1) = GetOrCreate key s;
         s2 = open_entry h i identifier effective elapsedUs (turn 2 s1);
         entry = rv_entries s2 ! i
     in if on_succeeded entry
        then (identifier, snd (RememberIdentity identifier (on_metadata entry) (ho_destinations (ef_transport effective)) (turn 3 s2)))
        else let s3 = Forget key i (turn 3 s2)
             in ([], if code (on_status entry) \<noteq> NotFound then post (Report (on_status entry) identifier) s3 else s3))"

text \<open>\<open>scope\<close> is the cache scope current on the calling thread.\<close>

definition Resolve :: "'w Host \<Rightarrow> 'w turns \<Rightarrow> string_map option \<Rightarrow> nat option \<Rightarrow> string \<Rightarrow> u64 \<Rightarrow> 'w Resolver \<Rightarrow> string \<times> 'w Resolver" where
  "Resolve h turn context_object scope assetPath elapsedUs s =
    (let identifier = CreateIdentifier assetPath []
     in if identifier = [] then ([], s)
        else let (effective, s0) = EffectiveConfiguration h context_object s;
                 key = OpenKey identifier effective;
                 s1 = turn 0 s0
             in case Option.bind scope (\<lambda>c. rv_scopes s1 c key) of
                  Some resolved \<Rightarrow> (resolved, s1)
                | None \<Rightarrow>
                    let (resolved, s2) = ResolveOnce h turn identifier key effective elapsedUs (turn 1 s1)
                    in (resolved, case scope of
                          None \<Rightarrow> s2
                        | Some c \<Rightarrow> let s3 = turn 4 s2
                                    in s3\<lparr>rv_scopes := (rv_scopes s3)(c := (case rv_scopes s3 c key of
                                         None \<Rightarrow> (rv_scopes s3 c)(key \<mapsto> resolved) | Some _ \<Rightarrow> rv_scopes s3 c))\<rparr>))"

definition ResolveForNewAsset :: "string \<Rightarrow> string" where
  "ResolveForNewAsset assetPath = []"

text \<open>The reader of an asset is the decorated one, or the bare one where the cache declined.\<close>

type_synonym 'w asset_reader_object = "'w HttpReader + 'w HttpReader \<times> CachedImpl"

definition open_fresh :: "'w Host \<Rightarrow> string \<Rightarrow> 'w Effective \<Rightarrow> u64 \<Rightarrow> 'w Resolver \<Rightarrow> 'w HttpReader option \<times> 'w Resolver" where
  "open_fresh h identifier effective elapsedUs s =
    (case Http_Open identifier (ef_transport effective) (ho_factory h) elapsedUs (rv_world s) of
       ((None, st), w) \<Rightarrow> (None, post (Report st identifier) (s\<lparr>rv_world := w\<rparr>))
     | ((Some r, st), w) \<Rightarrow> (Some r, s\<lparr>rv_world := w\<rparr>))"

definition wrap_reader :: "'w HttpReader \<Rightarrow> string \<Rightarrow> 'w Effective \<Rightarrow> 'w Resolver \<Rightarrow>
    ('w asset_reader_object \<times> ResolvedAsset) option \<times> 'w Resolver" where
  "wrap_reader r identifier effective s =
    (case WrapAsset (Some (r, hr_metadata r)) Status_Ok (Some (hr_metrics r)) (ef_cache effective) (rv_blocks s) (rv_disk s) of
       (opened_result, metrics, blocks) \<Rightarrow>
         let s1 = s\<lparr>rv_blocks := blocks\<rparr>
         in case or_reader opened_result of
              None \<Rightarrow> (None, post (Report (or_status opened_result) identifier) s1)
            | Some cached \<Rightarrow>
                let (ps, asset) = HttpResolvedAsset_new (hr_metadata r) (map_option retryCount metrics)
                in (Some (cached, asset), post ps s1))"

definition OpenAsset :: "'w Host \<Rightarrow> 'w turns \<Rightarrow> string_map option \<Rightarrow> string \<Rightarrow> u64 \<Rightarrow> 'w Resolver \<Rightarrow>
    ('w asset_reader_object \<times> ResolvedAsset) option \<times> 'w Resolver" where
  "OpenAsset h turn context_object resolvedPath elapsedUs s =
    (let identifier = CreateIdentifier resolvedPath []
     in if identifier = [] then (None, s)
        else let (effective, s0) = EffectiveConfiguration h context_object s;
                 (entry, s1) = Take (OpenKey identifier effective) (turn 0 s0);
                 (taken, s2) = (case entry of None \<Rightarrow> (None, s1) | Some i \<Rightarrow> take_reader i (turn 1 s1));
                 (reader, s3) = (case taken of None \<Rightarrow> open_fresh h identifier effective elapsedUs (turn 2 s2) | Some r \<Rightarrow> (Some r, s2))
             in case reader of
                  None \<Rightarrow> (None, s3)
                | Some r \<Rightarrow>
                    let s4 = snd (RememberIdentity identifier (hr_metadata r) (ho_destinations (ef_transport effective)) (turn 3 s3))
                    in wrap_reader r identifier effective (turn 4 s4))"

definition UnsupportedWrite :: Status where
  "UnsupportedWrite = Status_Error Unsupported ''assets are read-only; publish a new revision at a new path''"

definition OpenAssetForWrite :: "string \<Rightarrow> 'w Resolver \<Rightarrow> 'w Resolver" where
  "OpenAssetForWrite resolvedPath s = post (Report UnsupportedWrite resolvedPath) s"

definition CanWriteAssetToPath :: "string \<Rightarrow> bool \<times> string" where
  "CanWriteAssetToPath resolvedPath = (False, Render UnsupportedWrite [])"

definition IdentityFor :: "'w Host \<Rightarrow> 'w turns \<Rightarrow> string \<Rightarrow> bool \<Rightarrow> 'w Effective \<Rightarrow> u64 \<Rightarrow> 'w Resolver \<Rightarrow>
    (AssetMetadata \<times> bool) option \<times> 'w Resolver" where
  "IdentityFor h turn identifier mayOpen effective elapsedUs s =
    (case KnownIdentity identifier (ho_destinations (ef_transport effective)) s of
       Some known \<Rightarrow> (Some known, s)
     | None \<Rightarrow>
         if \<not> mayOpen then (None, s)
         else let key = OpenKey identifier effective;
                  (i, s1) = GetOrCreate key (turn 1 s);
                  s2 = open_entry h i identifier effective elapsedUs (turn 2 s1);
                  entry = rv_entries s2 ! i
              in if on_succeeded entry
                 then let (contradicted, s3) = RememberIdentity identifier (on_metadata entry) (ho_destinations (ef_transport effective)) (turn 3 s2)
                      in (Some (on_metadata entry, contradicted), s3)
                 else (None, Forget key i (turn 3 s2)))"

record AssetInfo =
  ai_version :: string
  ai_resolverInfo :: "(string \<times> u64 \<times> string \<times> string) option"

text \<open>What is published of an identity, and the empty answer where there is none.\<close>

definition info_of :: "(AssetMetadata \<times> bool) option \<Rightarrow> AssetInfo" where
  "info_of known =
    (case known of
       None \<Rightarrow> \<lparr>ai_version = [], ai_resolverInfo = None\<rparr>
     | Some (meta, contradicted) \<Rightarrow>
         let published = PublishIdentity meta contradicted
         in \<lparr>ai_version = (if pi_reusable published then pi_validationToken published else []),
             ai_resolverInfo = Some (pi_resolvedIdentifier published, pi_size published,
               pi_validationToken published, pi_stability published)\<rparr>)"

definition GetAssetInfo :: "'w Host \<Rightarrow> 'w turns \<Rightarrow> string_map option \<Rightarrow> string \<Rightarrow> string \<Rightarrow> u64 \<Rightarrow> 'w Resolver \<Rightarrow> AssetInfo \<times> 'w Resolver" where
  "GetAssetInfo h turn context_object assetPath resolvedPath elapsedUs s =
    (let resolved = (resolvedPath \<noteq> []);
         identifier = CreateIdentifier (if resolved then resolvedPath else assetPath) []
     in if identifier = [] then (info_of None, s)
        else let (effective, s0) = EffectiveConfiguration h context_object s;
                 (known, s1) = IdentityFor h turn identifier resolved effective elapsedUs (turn 0 s0)
             in (info_of known, s1))"

definition GetExtension :: "string \<Rightarrow> string" where
  "GetExtension assetPath = ExtensionOf assetPath"

definition CreateContextFromString :: "'w Host \<Rightarrow> string \<Rightarrow> 'w Resolver \<Rightarrow> string_map \<times> 'w Resolver" where
  "CreateContextFromString h contextStr s =
    (let s' = EnsureConfigured h s;
         (overrides, problems) = OverridesFrom contextStr (LookupIn (rv_environment s'))
     in (overrides, post (concat (map ReportConfigurationProblem problems)) s'))"

definition IsContextDependentPath :: "string \<Rightarrow> bool" where
  "IsContextDependentPath assetPath = True"

definition ArGetDebugString :: "string_map \<Rightarrow> string" where
  "ArGetDebugString overrides = ''HttpResolverContext('' @ CanonicalContextString overrides @ '')''"

section \<open>Keys\<close>

definition effective_wf :: "'w Host \<Rightarrow> 'w Effective \<Rightarrow> bool" where
  "effective_wf h e \<longleftrightarrow> ef_fingerprint e = TransportFingerprint (ho_address h) (ef_transport e) \<and> ho_userAgent (ef_transport e) = []"

lemma Effective_of_wf: "effective_wf h (Effective_of h (fst (ConfigurationFrom lookup)))"
  by (simp add: effective_wf_def Effective_of_def ConfigurationFrom_fst OptionsFrom_fst)

lemma fingerprint_one_line: "effective_wf h e \<Longrightarrow> CHR 0x0A \<notin> set (ef_fingerprint e)"
  using to_string_int_chars [of "CHR 0x0A"] to_dec_digits [of "CHR 0x0A"]
  by (auto simp: effective_wf_def TransportFingerprint_def Let_def is_digit_def split: if_splits option.splits)

lemma OpenKey_inject:
  assumes "effective_wf h e" "effective_wf h f"
  shows "OpenKey i e = OpenKey j f \<longleftrightarrow> i = j \<and> ef_fingerprint e = ef_fingerprint f"
  using append_last_sep_inject [OF fingerprint_one_line [OF assms(1)] fingerprint_one_line [OF assms(2)], of i j]
  by (simp add: OpenKey_def)

section \<open>Bounded tables\<close>

definition bounded_table :: "nat \<Rightarrow> string list \<Rightarrow> (string \<Rightarrow> 'a option) \<Rightarrow> bool" where
  "bounded_table n order table \<longleftrightarrow> dom table = set order \<and> distinct order \<and> length order \<le> n"

lemma evict_oldest_bounded:
  assumes "dom table = set order" "distinct order" "evict_oldest n order table = (order', table')"
  shows "bounded_table n order' table' \<and> table' \<subseteq>\<^sub>m table"
  using assms
proof (induction n order table rule: evict_oldest.induct)
  case (2 n k ks table)
  show ?case
  proof (cases "length (k # ks) > n")
    case True
    have "dom (table(k := None)) = set ks" using 2(2,3) by auto
    then have "bounded_table n order' table' \<and> table' \<subseteq>\<^sub>m table(k := None)"
      using 2 True by (simp add: fun_upd_def)
    then show ?thesis using map_le_trans [of table' "table(k := None)" table] by (simp add: upd_None_map_le)
  next
    case False
    then show ?thesis using 2 by (auto simp: bounded_table_def)
  qed
qed (auto simp: bounded_table_def)

lemma bounded_table_insert:
  assumes "bounded_table n order table" "table k = None" "evict_oldest n (order @ [k]) (table(k \<mapsto> v)) = (order', table')"
  shows "bounded_table n order' table'" "table' \<subseteq>\<^sub>m table(k \<mapsto> v)"
proof -
  have "dom (table(k \<mapsto> v)) = set (order @ [k])" "distinct (order @ [k])" using assms(1,2) by (auto simp: bounded_table_def)
  from evict_oldest_bounded [OF this assms(3)] show "bounded_table n order' table'" "table' \<subseteq>\<^sub>m table(k \<mapsto> v)" by simp_all
qed

lemma bounded_table_remove: "bounded_table n order table \<Longrightarrow> bounded_table n (remove1 k order) (table(k := None))"
  by (auto simp: bounded_table_def length_remove1)

lemma bounded_table_replace: "bounded_table n order table \<Longrightarrow> table k \<noteq> None \<Longrightarrow> bounded_table n order (table(k \<mapsto> v))"
  by (auto simp: bounded_table_def)

section \<open>Interleavings\<close>

text \<open>
  One section of some thread. Whoever opens an entry got it for the key of its own
  identifier and configuration; scopes, stores and the transport's world change at will.
\<close>

inductive thread_step :: "'w Host \<Rightarrow> 'w Resolver \<Rightarrow> 'w Resolver \<Rightarrow> bool" for h where
  Step_configure: "thread_step h s (EnsureConfigured h s)"
| Step_get: "GetOrCreate key s = (i, s') \<Longrightarrow> thread_step h s s'"
| Step_open: "i < length (rv_entries s) \<Longrightarrow> on_key (rv_entries s ! i) = OpenKey identifier e \<Longrightarrow> effective_wf h e \<Longrightarrow>
    thread_step h s (open_entry h i identifier e us s)"
| Step_take: "Take key s = (r, s') \<Longrightarrow> thread_step h s s'"
| Step_reader: "i < length (rv_entries s) \<Longrightarrow> take_reader i s = (r, s') \<Longrightarrow> thread_step h s s'"
| Step_forget: "thread_step h s (Forget key i s)"
| Step_remember: "RememberIdentity identifier meta policy s = (c, s') \<Longrightarrow> thread_step h s s'"
| Step_post: "thread_step h s (post ps s)"
| Step_scope: "thread_step h s (s\<lparr>rv_scopes := scopes\<rparr>)"
| Step_world: "thread_step h s (s\<lparr>rv_world := w, rv_blocks := b, rv_disk := d\<rparr>)"

definition thread_steps :: "'w Host \<Rightarrow> 'w Resolver \<Rightarrow> 'w Resolver \<Rightarrow> bool" where
  "thread_steps h = (thread_step h)\<^sup>*\<^sup>*"

definition opened_ok :: "'w Host \<Rightarrow> 'w Opened \<Rightarrow> bool" where
  "opened_ok h x \<longleftrightarrow> (\<forall>r. on_reader x = Some r \<longrightarrow> on_opened x \<and>
     (\<exists>identifier e t. on_key x = OpenKey identifier e \<and> effective_wf h e \<and> ho_factory h = Some t \<and> reader_wf identifier (ef_transport e) t r))"

definition table_inv :: "'w Resolver \<Rightarrow> bool" where
  "table_inv s \<longleftrightarrow> bounded_table kMaxRetainedOpens (rv_order s) (rv_table s) \<and>
     (\<forall>k i. rv_table s k = Some i \<longrightarrow> i < length (rv_entries s) \<and> on_key (rv_entries s ! i) = k)"

definition identity_inv :: "'w Resolver \<Rightarrow> bool" where
  "identity_inv s \<longleftrightarrow> bounded_table kMaxRememberedIdentities (rv_identityOrder s) (rv_identities s) \<and>
     dom (rv_identities s) \<subseteq> dom (rv_fingerprints s)"

definition entries_inv :: "'w Host \<Rightarrow> 'w Resolver \<Rightarrow> bool" where
  "entries_inv h s \<longleftrightarrow> (\<forall>i < length (rv_entries s). opened_ok h (rv_entries s ! i)) \<and> distinct (rv_handed s) \<and>
     (\<forall>i \<in> set (rv_handed s). i < length (rv_entries s) \<and> on_opened (rv_entries s ! i) \<and> on_reader (rv_entries s ! i) = None)"

definition resolver_inv :: "'w Host \<Rightarrow> 'w Resolver \<Rightarrow> bool" where
  "resolver_inv h s \<longleftrightarrow> table_inv s \<and> identity_inv s \<and> entries_inv h s \<and> (rv_configured s \<longrightarrow> effective_wf h (rv_base s))"

lemma Http_Open_reader_wf:
  assumes "Http_Open url opts factory us w = ((Some r, st), w')"
  shows "\<exists>t. factory = Some t \<and> reader_wf url opts t r"
  using assms
proof (cases rule: Http_Open_cases)
  case (opened t uri exchange k sink sz m)
  then show ?thesis using open_of_wf [OF opened(2-4)] by simp
qed simp

lemma Configure_frame:
  "rv_order (Configure h s) = rv_order s" "rv_table (Configure h s) = rv_table s" "rv_identityOrder (Configure h s) = rv_identityOrder s"
  "rv_identities (Configure h s) = rv_identities s" "rv_fingerprints (Configure h s) = rv_fingerprints s"
  "rv_entries (Configure h s) = rv_entries s" "rv_handed (Configure h s) = rv_handed s"
  "rv_base (Configure h s) = Effective_of h (fst (ConfigurationFrom (LookupIn (Snapshot (ho_getenv h)))))"
  "rv_world (Configure h s) = rv_world s"
  by (simp_all add: Configure_def post_def Let_def split_def)

lemma inv_configure: "resolver_inv h s \<Longrightarrow> resolver_inv h (EnsureConfigured h s)"
  by (simp add: EnsureConfigured_def resolver_inv_def table_inv_def identity_inv_def entries_inv_def Configure_frame Effective_of_wf)

lemma inv_get:
  assumes "resolver_inv h s" "GetOrCreate key s = (i, s')"
  shows "resolver_inv h s'" "i < length (rv_entries s')" "on_key (rv_entries s' ! i) = key"
proof -
  have "resolver_inv h s' \<and> i < length (rv_entries s') \<and> on_key (rv_entries s' ! i) = key"
  proof (cases "rv_table s key")
    case (Some j)
    then show ?thesis using assms by (auto simp: GetOrCreate_def resolver_inv_def table_inv_def)
  next
    case None
    let ?n = "length (rv_entries s)" and ?es = "rv_entries s @ [Opened_new key]"
    obtain order table where ev: "evict_oldest kMaxRetainedOpens (rv_order s @ [key]) ((rv_table s)(key \<mapsto> ?n)) = (order, table)" by fastforce
    have s': "i = ?n" "s' = s\<lparr>rv_entries := ?es, rv_table := table, rv_order := order\<rparr>"
      using assms(2) None ev by (auto simp: GetOrCreate_def)
    have inv: "table_inv s" "entries_inv h s" using assms(1) by (simp_all add: resolver_inv_def)
    have tab: "bounded_table kMaxRetainedOpens order table" "table \<subseteq>\<^sub>m (rv_table s)(key \<mapsto> ?n)"
      using bounded_table_insert [OF _ None ev] inv(1) by (simp_all add: table_inv_def)
    have new: "on_key (?es ! ?n) = key" "on_reader (?es ! ?n) = None" by (simp_all add: Opened_new_def)
    have "j < length ?es \<and> on_key (?es ! j) = k" if "table k = Some j" for k j
    proof (cases "k = key")
      case True
      then have "j = ?n" using tab(2) that by (force simp: map_le_def dom_def)
      then show ?thesis using new True by simp
    next
      case False
      then have "rv_table s k = Some j" using tab(2) that by (force simp: map_le_def dom_def)
      then have "j < ?n" "on_key (rv_entries s ! j) = k" using inv(1) unfolding table_inv_def by blast+
      then show ?thesis by (simp add: nth_append)
    qed
    then have "table_inv s'" using tab(1) by (simp add: s' table_inv_def)
    moreover have "entries_inv h s'" using inv(2) new(2) unfolding s' entries_inv_def
      by (auto simp: nth_append less_Suc_eq opened_ok_def)
    ultimately show ?thesis using assms(1) new(1) by (simp add: s' resolver_inv_def identity_inv_def)
  qed
  then show "resolver_inv h s'" "i < length (rv_entries s')" "on_key (rv_entries s' ! i) = key" by simp_all
qed

lemma inv_remove:
  "resolver_inv h s \<Longrightarrow> resolver_inv h (s\<lparr>rv_table := (rv_table s)(key := None), rv_order := remove1 key (rv_order s)\<rparr>)"
  by (auto simp: resolver_inv_def table_inv_def identity_inv_def entries_inv_def bounded_table_remove)

lemma inv_take: "resolver_inv h s \<Longrightarrow> Take key s = (r, s') \<Longrightarrow> resolver_inv h s'"
  using inv_remove [of h s key] by (auto simp: Take_def split: option.splits)

lemma inv_forget: "resolver_inv h s \<Longrightarrow> resolver_inv h (Forget key i s)"
  using inv_remove [of h s key] by (simp add: Forget_def)

text \<open>Replacing an entry by one with the same key that keeps what is said of entries.\<close>

lemma inv_entry:
  assumes "resolver_inv h s" "i < length (rv_entries s)" "on_key x = on_key (rv_entries s ! i)" "opened_ok h x"
    and "i \<in> set (rv_handed s) \<Longrightarrow> x = rv_entries s ! i"
  shows "resolver_inv h (s\<lparr>rv_entries := (rv_entries s)[i := x]\<rparr>)"
  using assms by (auto simp: resolver_inv_def table_inv_def identity_inv_def entries_inv_def nth_list_update)

lemma inv_frame:
  "resolver_inv h (s\<lparr>rv_world := w\<rparr>) \<longleftrightarrow> resolver_inv h s" "resolver_inv h (s\<lparr>rv_blocks := b\<rparr>) \<longleftrightarrow> resolver_inv h s"
  "resolver_inv h (s\<lparr>rv_disk := d\<rparr>) \<longleftrightarrow> resolver_inv h s" "resolver_inv h (s\<lparr>rv_scopes := sc\<rparr>) \<longleftrightarrow> resolver_inv h s"
  "resolver_inv h (post ps s) \<longleftrightarrow> resolver_inv h s"
  by (simp_all add: resolver_inv_def table_inv_def identity_inv_def entries_inv_def post_def)

lemma inv_open:
  assumes "resolver_inv h s" "i < length (rv_entries s)" "on_key (rv_entries s ! i) = OpenKey identifier e" "effective_wf h e"
  shows "resolver_inv h (open_entry h i identifier e us s)"
proof (cases "on_opened (rv_entries s ! i)")
  case False
  obtain ro st w where o: "Http_Open identifier (ef_transport e) (ho_factory h) us (rv_world s) = ((ro, st), w)" by (metis surj_pair)
  let ?x = "(rv_entries s ! i)\<lparr>on_opened := True, on_reader := ro, on_status := st\<rparr>"
  let ?y = "case ro of None \<Rightarrow> ?x | Some r \<Rightarrow> ?x\<lparr>on_metadata := hr_metadata r, on_succeeded := True\<rparr>"
  have "on_key ?y = on_key (rv_entries s ! i)" by (simp split: option.split)
  moreover have "opened_ok h ?y"
  proof (cases ro)
    case (Some r)
    then show ?thesis using Http_Open_reader_wf [OF o [unfolded Some]] assms(3,4) by (auto simp: opened_ok_def)
  qed (simp add: opened_ok_def)
  moreover have "i \<notin> set (rv_handed s)" using assms(1) False by (auto simp: resolver_inv_def entries_inv_def)
  ultimately have "resolver_inv h (s\<lparr>rv_entries := (rv_entries s)[i := ?y]\<rparr>)" using inv_entry [OF assms(1,2)] by blast
  then show ?thesis using False o inv_frame(1) [where s = "s\<lparr>rv_entries := (rv_entries s)[i := ?y]\<rparr>"] by (simp add: open_entry_def Let_def)
qed (use assms in \<open>simp add: open_entry_def Let_def\<close>)

lemma inv_reader:
  assumes "resolver_inv h s" "i < length (rv_entries s)" "take_reader i s = (r, s')"
  shows "resolver_inv h s'"
proof (cases "on_reader (rv_entries s ! i)")
  case (Some x)
  then have fresh: "i \<notin> set (rv_handed s)" "on_opened (rv_entries s ! i)"
    using assms(1,2) by (auto simp: resolver_inv_def entries_inv_def opened_ok_def)
  let ?s = "s\<lparr>rv_entries := (rv_entries s)[i := (rv_entries s ! i)\<lparr>on_reader := None\<rparr>]\<rparr>"
  have "resolver_inv h ?s" using inv_entry [OF assms(1,2)] fresh(1) by (simp add: opened_ok_def)
  moreover have "s' = ?s\<lparr>rv_handed := rv_handed ?s @ [i]\<rparr>" using assms(3) Some by (simp add: take_reader_def)
  ultimately show ?thesis using fresh assms(2) by (auto simp: resolver_inv_def table_inv_def identity_inv_def entries_inv_def)
qed (use assms in \<open>simp add: take_reader_def\<close>)

lemma remember_cases:
  assumes "RememberIdentity identifier meta policy s = (c, s')"
  obtains ids ord where
    "s' = s\<lparr>rv_fingerprints := (rv_fingerprints s)(identifier \<mapsto> judge_validator (am_validator meta) (rv_fingerprints s identifier)),
       rv_identities := ids, rv_identityOrder := ord\<rparr>"
    "c = fp_contradicted (judge_validator (am_validator meta) (rv_fingerprints s identifier))"
    "bounded_table kMaxRememberedIdentities (rv_identityOrder s) (rv_identities s) \<Longrightarrow>
     bounded_table kMaxRememberedIdentities ord ids \<and> dom ids \<subseteq> insert identifier (dom (rv_identities s))"
proof (cases "rv_identities s identifier")
  case (Some found)
  show thesis
    by (rule that [where ids = "rv_identities (snd (RememberIdentity identifier meta policy s))" and ord = "rv_identityOrder s"])
      (use assms Some in \<open>auto simp: RememberIdentity_def Let_def bounded_table_replace\<close>)
next
  case None
  let ?new = "(rv_identities s)(identifier \<mapsto> \<lparr>id_metadata = meta, id_reachedUnder = [policy]\<rparr>)"
  obtain ord ids where ev: "evict_oldest kMaxRememberedIdentities (rv_identityOrder s @ [identifier]) ?new = (ord, ids)" by fastforce
  show thesis
  proof (rule that [where ids = ids and ord = ord])
    assume "bounded_table kMaxRememberedIdentities (rv_identityOrder s) (rv_identities s)"
    note b = bounded_table_insert [OF this None ev]
    then show "bounded_table kMaxRememberedIdentities ord ids \<and> dom ids \<subseteq> insert identifier (dom (rv_identities s))"
      using map_le_implies_dom_le [OF b(2)] by simp
  qed (use assms None ev in \<open>simp_all add: RememberIdentity_def Let_def\<close>)
qed

lemma inv_remember:
  assumes "resolver_inv h s" "RememberIdentity identifier meta policy s = (c, s')"
  shows "resolver_inv h s'"
  using assms(2)
proof (cases rule: remember_cases)
  case (1 ids ord)
  have "bounded_table kMaxRememberedIdentities ord ids" "dom ids \<subseteq> insert identifier (dom (rv_identities s))"
    "dom (rv_identities s) \<subseteq> dom (rv_fingerprints s)"
    using 1(3) assms(1) by (simp_all add: resolver_inv_def identity_inv_def)
  then have "identity_inv s'" unfolding 1(1) identity_inv_def by auto
  then show ?thesis using assms(1) unfolding 1(1) resolver_inv_def by (simp add: table_inv_def entries_inv_def)
qed

lemma thread_step_inv: "thread_step h s s' \<Longrightarrow> resolver_inv h s \<Longrightarrow> resolver_inv h s'"
  by (induction rule: thread_step.induct)
    (auto simp: inv_frame intro: inv_configure inv_get inv_take inv_forget inv_open inv_reader inv_remember)

lemma thread_steps_inv: "thread_steps h s s' \<Longrightarrow> resolver_inv h s \<Longrightarrow> resolver_inv h s'"
  unfolding thread_steps_def by (induction rule: rtranclp_induct) (auto intro: thread_step_inv)

section \<open>Handlers are sequences of sections\<close>

lemma steps_refl [simp]: "thread_steps h s s"
  by (simp add: thread_steps_def)

lemma steps_trans [trans]: "thread_steps h s s' \<Longrightarrow> thread_steps h s' s'' \<Longrightarrow> thread_steps h s s''"
  by (simp add: thread_steps_def)

lemma steps_one: "thread_step h s s' \<Longrightarrow> thread_steps h s s'"
  by (simp add: thread_steps_def)

definition turns_ok :: "'w Host \<Rightarrow> 'w turns \<Rightarrow> bool" where
  "turns_ok h turn \<longleftrightarrow> (\<forall>n s. thread_steps h s (turn n s))"

lemma steps_turn: "turns_ok h turn \<Longrightarrow> thread_steps h s s' \<Longrightarrow> thread_steps h s (turn n s')"
  using steps_trans unfolding turns_ok_def by blast

lemma thread_step_keys:
  "thread_step h s s' \<Longrightarrow> i < length (rv_entries s) \<Longrightarrow>
   i < length (rv_entries s') \<and> on_key (rv_entries s' ! i) = on_key (rv_entries s ! i)"
proof (induction rule: thread_step.induct)
  case (Step_open j s idn e us)
  then show ?case
    by (auto simp: open_entry_def Let_def nth_list_update split: prod.splits option.splits)
next
  case (Step_remember idn meta policy s c s')
  from Step_remember(1) show ?case by (cases rule: remember_cases) (use Step_remember in auto)
qed (auto simp: EnsureConfigured_def Configure_frame GetOrCreate_def Take_def take_reader_def Forget_def post_def Let_def nth_append
    nth_list_update split: option.splits prod.splits if_splits)

lemma thread_steps_keys:
  assumes "thread_steps h s s'" "i < length (rv_entries s)"
  shows "i < length (rv_entries s') \<and> on_key (rv_entries s' ! i) = on_key (rv_entries s ! i)"
  using assms(1) unfolding thread_steps_def
  by (induction rule: rtranclp_induct) (use assms(2) thread_step_keys in \<open>auto dest: thread_step_keys\<close>)

lemma steps_effective:
  assumes "EffectiveConfiguration h c s = (e, s')"
  shows "thread_steps h s s'" "resolver_inv h s \<Longrightarrow> effective_wf h e"
proof -
  have s': "s' = EnsureConfigured h s" using assms by (simp add: EffectiveConfiguration_def Let_def)
  then show "thread_steps h s s'" by (simp add: steps_one Step_configure)
  have "rv_configured (EnsureConfigured h s)" by (simp add: EnsureConfigured_def)
  then show "effective_wf h e" if "resolver_inv h s"
    using inv_configure [OF that] assms
    by (auto simp: EffectiveConfiguration_def Let_def Effective_of_wf resolver_inv_def split: option.splits if_splits)
qed

text \<open>Getting an entry for a key and opening it, with the turns of others in between.\<close>

lemma steps_open:
  assumes "resolver_inv h s" "effective_wf h e" "turns_ok h turn" "GetOrCreate (OpenKey identifier e) s = (i, s1)"
  shows "thread_steps h s (open_entry h i identifier e us (turn n s1))" 
proof -
  note got = inv_get [OF assms(1,4)]
  have turn: "thread_steps h s1 (turn n s1)" using assms(3) by (simp add: turns_ok_def)
  have keys: "i < length (rv_entries (turn n s1))" "on_key (rv_entries (turn n s1) ! i) = OpenKey identifier e"
    using thread_steps_keys [OF turn got(2)] got(3) by simp_all
  have "thread_steps h s s1" by (rule steps_one, rule Step_get, rule assms(4))
  also have "thread_steps h s1 (turn n s1)" by (rule turn)
  also have "thread_steps h (turn n s1) (open_entry h i identifier e us (turn n s1))"
    by (rule steps_one, rule Step_open, rule keys(1), rule keys(2), rule assms(2))
  finally show ?thesis .
qed

lemma steps_remember: "thread_steps h s (snd (RememberIdentity identifier meta policy s))"
  by (rule steps_one, rule Step_remember) (rule prod.collapse [symmetric])

lemma steps_forget: "thread_steps h s (Forget key i s)"
  by (rule steps_one, rule Step_forget)

lemma steps_post: "thread_steps h s s' \<Longrightarrow> thread_steps h s (post ps s')"
  using steps_trans [OF _ steps_one [OF Step_post]] by blast

lemma ResolveOnce_steps:
  assumes "resolver_inv h s" "effective_wf h e" "turns_ok h turn"
  shows "thread_steps h s (snd (ResolveOnce h turn identifier (OpenKey identifier e) e us s))"
proof -
  obtain i s1 where get: "GetOrCreate (OpenKey identifier e) s = (i, s1)" by fastforce
  let ?s3 = "turn 3 (open_entry h i identifier e us (turn 2 s1))"
  have to3: "thread_steps h s ?s3" by (rule steps_turn [OF assms(3) steps_open [OF assms get]])
  then show ?thesis
    using steps_trans [OF to3 steps_remember] steps_trans [OF to3 steps_forget]
    by (simp add: ResolveOnce_def get Let_def steps_post)
qed

lemma Resolve_steps:
  assumes "resolver_inv h s" "turns_ok h turn"
  shows "thread_steps h s (snd (Resolve h turn c scope assetPath us s))"
proof (cases "CreateIdentifier assetPath [] = []")
  case False
  let ?id = "CreateIdentifier assetPath []"
  obtain e s0 where eff: "EffectiveConfiguration h c s = (e, s0)" by fastforce
  note e = steps_effective [OF eff]
  let ?s1 = "turn 0 s0" and ?k = "OpenKey ?id e"
  have to1: "thread_steps h s ?s1" by (rule steps_turn [OF assms(2) e(1)])
  have to2: "thread_steps h s (turn 1 ?s1)" by (rule steps_turn [OF assms(2) to1])
  obtain resolved s2 where once: "ResolveOnce h turn ?id ?k e us (turn 1 ?s1) = (resolved, s2)" by fastforce
  have to3: "thread_steps h s s2"
    using steps_trans [OF to2 ResolveOnce_steps [OF thread_steps_inv [OF to2 assms(1)] e(2) [OF assms(1)] assms(2), of ?id us]] once by simp
  have to4: "thread_steps h s ((turn 4 s2)\<lparr>rv_scopes := f\<rparr>)" for f
    using steps_trans [OF steps_turn [OF assms(2) to3] steps_one [OF Step_scope]] .
  show ?thesis using False to1 to3 to4 by (auto simp: Resolve_def Let_def eff once simp del: One_nat_def split: option.split)
qed (simp add: Resolve_def Let_def)

lemma take_key:
  assumes "resolver_inv h s" "Take key s = (Some i, s')"
  shows "i < length (rv_entries s')" "on_key (rv_entries s' ! i) = key"
  using assms by (auto simp: Take_def resolver_inv_def table_inv_def split: option.splits)

lemma steps_world: "thread_steps h s (s\<lparr>rv_world := w\<rparr>)" "thread_steps h s (s\<lparr>rv_blocks := b\<rparr>)"
  using Step_world [where h = h and s = s and w = w and b = "rv_blocks s" and d = "rv_disk s"]
    Step_world [where h = h and s = s and w = "rv_world s" and b = b and d = "rv_disk s"] by (simp_all add: steps_one)

lemma open_fresh_steps:
  assumes "open_fresh h identifier e us s = (ro, s')"
  shows "thread_steps h s s'" "ro = Some r \<Longrightarrow> \<exists>t. ho_factory h = Some t \<and> reader_wf identifier (ef_transport e) t r"
  using assms Http_Open_reader_wf steps_world(1) steps_post [OF steps_world(1)]
  by (auto simp: open_fresh_def split: prod.splits option.splits)

lemma wrap_reader_steps:
  assumes "wrap_reader r identifier e s = (res, s')"
  shows "thread_steps h s s'"
    "res = Some (obj, asset) \<Longrightarrow> (obj = Inl r \<or> (\<exists>impl. obj = Inr (r, impl))) \<and> ra_identifier asset = resolvedIdentifier (hr_metadata r)"
  using assms steps_post [OF steps_world(2)] steps_post [OF steps_refl]
  by (auto simp: wrap_reader_def WrapAsset_def Wrap_def HttpResolvedAsset_new_def ReportNewRetries_def Let_def
      split: prod.splits option.splits if_splits)

text \<open>
  \<open>OpenAsset\<close> in three parts: taking the retained reader or opening a fresh one, remembering,
  and wrapping.
\<close>

lemma OpenAsset_cases:
  assumes "resolver_inv h s" "turns_ok h turn" "OpenAsset h turn c path us s = (res, s')"
  obtains (none) "res = None" "thread_steps h s s'"
  | (some) e s0 r s3 where "CreateIdentifier path [] \<noteq> []" "EffectiveConfiguration h c s = (e, s0)" "effective_wf h e"
      "thread_steps h s s3" "\<exists>f t. ef_fingerprint f = ef_fingerprint e \<and> effective_wf h f \<and> ho_factory h = Some t \<and>
         reader_wf (CreateIdentifier path []) (ef_transport f) t r"
      "wrap_reader r (CreateIdentifier path []) e
         (turn 4 (snd (RememberIdentity (CreateIdentifier path []) (hr_metadata r) (ho_destinations (ef_transport e)) (turn 3 s3)))) = (res, s')"
proof (cases "CreateIdentifier path [] = []")
  case True
  then show thesis using assms(3) by (intro none) (simp_all add: OpenAsset_def Let_def)
next
  case False
  let ?id = "CreateIdentifier path []"
  obtain e s0 where eff: "EffectiveConfiguration h c s = (e, s0)" by fastforce
  note e = steps_effective [OF eff]
  obtain io s1 where take: "Take (OpenKey ?id e) (turn 0 s0) = (io, s1)" by fastforce
  obtain ro s2 where taken: "(case io of None \<Rightarrow> (None, s1) | Some i \<Rightarrow> take_reader i (turn 1 s1)) = (ro, s2)" by fastforce
  obtain ro' s3 where reader: "(case ro of None \<Rightarrow> open_fresh h ?id e us (turn 2 s2) | Some r \<Rightarrow> (Some r, s2)) = (ro', s3)" by fastforce
  have to0: "thread_steps h s (turn 0 s0)" by (rule steps_turn [OF assms(2) e(1)])
  have to1: "thread_steps h s s1" by (rule steps_trans [OF to0 steps_one [OF Step_take [OF take]]])
  have to1': "thread_steps h s (turn 1 s1)" by (rule steps_turn [OF assms(2) to1])
  have inv0: "resolver_inv h (turn 0 s0)" and inv1: "resolver_inv h (turn 1 s1)" using thread_steps_inv to0 to1' assms(1) by blast+
  have key: "i < length (rv_entries (turn 1 s1)) \<and> on_key (rv_entries (turn 1 s1) ! i) = OpenKey ?id e" if "io = Some i" for i
    using take_key [OF inv0, of "OpenKey ?id e" i s1] take that thread_steps_keys [of h s1 "turn 1 s1" i] assms(2)
    by (auto simp: turns_ok_def)
  have to2: "thread_steps h s s2"
    using taken to1 steps_trans [OF to1' steps_one [OF Step_reader]] key by (auto simp del: One_nat_def split: option.splits)
  have fits: "\<exists>f t. ef_fingerprint f = ef_fingerprint e \<and> effective_wf h f \<and> ho_factory h = Some t \<and> reader_wf ?id (ef_transport f) t r"
    if ro: "ro = Some r" for r
  proof -
    obtain i where i: "io = Some i" "on_reader (rv_entries (turn 1 s1) ! i) = Some r"
      using taken ro by (auto simp: take_reader_def Let_def simp del: One_nat_def split: option.splits)
    then obtain j f t where f: "OpenKey ?id e = OpenKey j f" "effective_wf h f" "ho_factory h = Some t" "reader_wf j (ef_transport f) t r"
      using inv1 key [OF i(1)] unfolding resolver_inv_def entries_inv_def opened_ok_def by metis
    then show ?thesis using OpenKey_inject [OF e(2) [OF assms(1)] f(2), of ?id j] by auto
  qed
  have to3: "thread_steps h s s3"
    using reader to2 steps_trans [OF steps_turn [OF assms(2) to2] open_fresh_steps(1)] by (auto split: option.splits)
  have res: "(case ro' of None \<Rightarrow> (None, s3) | Some r \<Rightarrow> wrap_reader r ?id e
       (turn 4 (snd (RememberIdentity ?id (hr_metadata r) (ho_destinations (ef_transport e)) (turn 3 s3))))) = (res, s')"
    using assms(3) False eff take taken reader by (cases ro') (simp_all add: OpenAsset_def Let_def del: One_nat_def)
  show thesis
  proof (cases ro')
    case None
    then show thesis using res to3 by (intro none) simp_all
  next
    case (Some r)
    have "\<exists>f t. ef_fingerprint f = ef_fingerprint e \<and> effective_wf h f \<and> ho_factory h = Some t \<and> reader_wf ?id (ef_transport f) t r"
      using reader Some fits open_fresh_steps(2) [of h ?id e us "turn 2 s2" ro' s3 r] e(2) [OF assms(1)] by (auto split: option.splits)
    then show thesis using some [OF False eff e(2) [OF assms(1)] to3] res Some by simp
  qed
qed

lemma OpenAsset_steps:
  assumes "resolver_inv h s" "turns_ok h turn"
  shows "thread_steps h s (snd (OpenAsset h turn c path us s))"
proof -
  obtain res s' where o: "OpenAsset h turn c path us s = (res, s')" by fastforce
  from assms o show ?thesis
  proof (cases rule: OpenAsset_cases)
    case (some e s0 r s3)
    from some(4) have "thread_steps h s (turn 4 (snd (RememberIdentity (CreateIdentifier path []) (hr_metadata r) (ho_destinations (ef_transport e)) (turn 3 s3))))"
      using steps_turn [OF assms(2)] steps_trans [OF _ steps_remember] by meson
    then show ?thesis using steps_trans [OF _ wrap_reader_steps(1) [OF some(6)]] o by simp
  qed (simp add: o)
qed

lemma IdentityFor_steps:
  assumes "resolver_inv h s" "effective_wf h e" "turns_ok h turn"
  shows "thread_steps h s (snd (IdentityFor h turn identifier mayOpen e us s))"
proof -
  have to1: "thread_steps h s (turn 1 s)" by (rule steps_turn [OF assms(3) steps_refl])
  obtain i s1 where get: "GetOrCreate (OpenKey identifier e) (turn 1 s) = (i, s1)" by fastforce
  let ?s3 = "turn 3 (open_entry h i identifier e us (turn 2 s1))"
  have to3: "thread_steps h s ?s3"
    by (rule steps_turn [OF assms(3) steps_trans [OF to1 steps_open [OF thread_steps_inv [OF to1 assms(1)] assms(2,3) get]]])
  then show ?thesis
    using steps_trans [OF to3 steps_remember] steps_trans [OF to3 steps_forget]
    by (simp add: IdentityFor_def get Let_def split_def del: One_nat_def split: option.split)
qed

lemma GetAssetInfo_steps:
  assumes "resolver_inv h s" "turns_ok h turn"
  shows "thread_steps h s (snd (GetAssetInfo h turn c assetPath resolvedPath us s))"
proof (cases "CreateIdentifier (if resolvedPath \<noteq> [] then resolvedPath else assetPath) [] = []")
  case False
  let ?id = "CreateIdentifier (if resolvedPath \<noteq> [] then resolvedPath else assetPath) []"
  obtain e s0 where eff: "EffectiveConfiguration h c s = (e, s0)" by fastforce
  note e = steps_effective [OF eff]
  have to0: "thread_steps h s (turn 0 s0)" by (rule steps_turn [OF assms(2) e(1)])
  have "thread_steps h s (snd (IdentityFor h turn ?id (resolvedPath \<noteq> []) e us (turn 0 s0)))"
    by (rule steps_trans [OF to0 IdentityFor_steps [OF thread_steps_inv [OF to0 assms(1)] e(2) [OF assms(1)] assms(2)]])
  then show ?thesis using False by (simp add: GetAssetInfo_def Let_def eff split_def del: if_image_distrib)
qed (simp add: GetAssetInfo_def Let_def)

section \<open>Republished assets\<close>

definition contradicted_at :: "string \<Rightarrow> 'w Resolver \<Rightarrow> bool" where
  "contradicted_at k s \<longleftrightarrow> (case rv_fingerprints s k of None \<Rightarrow> False | Some f \<Rightarrow> fp_seen f \<and> fp_contradicted f)"

text \<open>Once a validator was seen it stays the last one, or the identifier is contradicted.\<close>

definition seen_at :: "string \<Rightarrow> Validator \<Rightarrow> 'w Resolver \<Rightarrow> bool" where
  "seen_at k v s \<longleftrightarrow> (case rv_fingerprints s k of None \<Rightarrow> False | Some f \<Rightarrow> fp_seen f \<and> (fp_contradicted f \<or> fp_validator f = v))"

lemma judge_validator_facts:
  "fp_seen (judge_validator v f)" "fp_validator (judge_validator v f) = v"
  "f = Some g \<Longrightarrow> fp_seen g \<Longrightarrow> fp_contradicted (judge_validator v f) \<longleftrightarrow> fp_contradicted g \<or> fp_validator g \<noteq> v"
  by (auto simp: judge_validator_def Let_def split: option.splits)

lemma remember_fingerprints:
  assumes "RememberIdentity identifier meta policy s = (c, s')"
  shows "rv_fingerprints s' = (rv_fingerprints s)(identifier \<mapsto> judge_validator (am_validator meta) (rv_fingerprints s identifier))"
    "c = fp_contradicted (judge_validator (am_validator meta) (rv_fingerprints s identifier))"
  by (rule remember_cases [OF assms]; simp)+

lemma thread_step_fingerprints:
  assumes "thread_step h s s'"
  shows "rv_fingerprints s' = rv_fingerprints s \<or>
    (\<exists>k v. rv_fingerprints s' = (rv_fingerprints s)(k \<mapsto> judge_validator v (rv_fingerprints s k)))"
  using assms
proof cases
  case (Step_remember k meta policy c)
  then show ?thesis using remember_fingerprints(1) by blast
qed (auto simp: EnsureConfigured_def Configure_frame GetOrCreate_def Take_def take_reader_def Forget_def post_def open_entry_def Let_def
    split: option.splits prod.splits if_splits)

lemma thread_step_contradicted: "thread_step h s s' \<Longrightarrow> contradicted_at k s \<Longrightarrow> contradicted_at k s'"
  using thread_step_fingerprints [of h s s'] by (auto simp: contradicted_at_def judge_validator_facts split: option.splits if_splits)

lemma thread_step_seen: "thread_step h s s' \<Longrightarrow> seen_at k v s \<Longrightarrow> seen_at k v s'"
  using thread_step_fingerprints [of h s s'] by (auto simp: seen_at_def judge_validator_facts split: option.splits if_splits)

lemma thread_steps_contradicted: "thread_steps h s s' \<Longrightarrow> contradicted_at k s \<Longrightarrow> contradicted_at k s'"
  unfolding thread_steps_def by (induction rule: rtranclp_induct) (auto intro: thread_step_contradicted)

lemma thread_steps_seen: "thread_steps h s s' \<Longrightarrow> seen_at k v s \<Longrightarrow> seen_at k v s'"
  unfolding thread_steps_def by (induction rule: rtranclp_induct) (auto intro: thread_step_seen)

lemma remember_twice:
  assumes "RememberIdentity k m1 p1 s = (c1, s1)" "thread_steps h s1 s2" "RememberIdentity k m2 p2 s2 = (c2, s3)"
    and "am_validator m1 \<noteq> am_validator m2"
  shows "contradicted_at k s3"
proof -
  have "seen_at k (am_validator m1) s1" using remember_fingerprints(1) [OF assms(1)] by (simp add: seen_at_def judge_validator_facts)
  then have "seen_at k (am_validator m1) s2" by (rule thread_steps_seen [OF assms(2)])
  then show ?thesis using remember_fingerprints(1) [OF assms(3)] assms(4)
    by (auto simp: seen_at_def contradicted_at_def judge_validator_facts split: option.splits)
qed

lemma IdentityFor_contradicted:
  assumes "contradicted_at k s" "resolver_inv h s" "effective_wf h e" "turns_ok h turn"
    and "IdentityFor h turn k mayOpen e us s = (Some (meta, c), s')"
  shows c
proof (cases "KnownIdentity k (ho_destinations (ef_transport e)) s")
  case (Some known)
  then show ?thesis using assms(1,5)
    by (auto simp: IdentityFor_def KnownIdentity_def contradicted_at_def split: option.splits if_splits)
next
  case None
  have to1: "thread_steps h s (turn 1 s)" by (rule steps_turn [OF assms(4) steps_refl])
  obtain i s1 where get: "GetOrCreate (OpenKey k e) (turn 1 s) = (i, s1)" by fastforce
  let ?s2 = "open_entry h i k e us (turn 2 s1)"
  have "thread_steps h s (turn 3 ?s2)"
    by (rule steps_turn [OF assms(4) steps_trans [OF to1 steps_open [OF thread_steps_inv [OF to1 assms(2)] assms(3,4) get]]])
  then have "contradicted_at k (turn 3 ?s2)" using thread_steps_contradicted assms(1) by blast
  moreover obtain m where "RememberIdentity k m (ho_destinations (ef_transport e)) (turn 3 ?s2) = (c, s')"
    using assms(5) None get
    by (auto simp: IdentityFor_def Let_def simp del: One_nat_def split: if_splits prod.splits)
  ultimately show ?thesis
    using remember_fingerprints(2) by (fastforce simp: contradicted_at_def judge_validator_facts split: option.splits)
qed

lemma new_inv_resolver: "resolver_inv h (Resolver_new blocks disk w)"
  by (simp add: Resolver_new_def resolver_inv_def table_inv_def identity_inv_def entries_inv_def bounded_table_def)

text \<open>
  C5: an asset that was republished under the running process never gets a reusable identity
  again. Once two opens of one identifier, in whatever threads and however far apart, found
  different validators, asset info publishes no version for it and does not call it stable,
  whichever context asks and whatever happens in between.
\<close>

theorem republished_never_reusable:
  assumes "resolver_inv h s" "RememberIdentity k m1 p1 s = (c1, s1)" "thread_steps h s1 s2" "RememberIdentity k m2 p2 s2 = (c2, s3)"
    and "am_validator m1 \<noteq> am_validator m2" "thread_steps h s3 s4" "turns_ok h turn"
    and "CreateIdentifier (if resolvedPath \<noteq> [] then resolvedPath else assetPath) [] = k"
  shows "case GetAssetInfo h turn c assetPath resolvedPath us s4 of
    (info, s5) \<Rightarrow> ai_version info = [] \<and>
      (case ai_resolverInfo info of None \<Rightarrow> True | Some (url, bytes, token, stability) \<Rightarrow> stability \<noteq> IdentityStabilityName Stable)"
proof (cases "k = []")
  case True
  then show ?thesis using assms(8) by (simp add: GetAssetInfo_def Let_def info_of_def)
next
  case False
  have inv: "resolver_inv h s4"
    using assms(1-4,6) inv_remember thread_steps_inv by metis
  obtain e s0 where eff: "EffectiveConfiguration h c s4 = (e, s0)" by fastforce
  note e = steps_effective [OF eff]
  have to0: "thread_steps h s4 (turn 0 s0)" by (rule steps_turn [OF assms(7) e(1)])
  have con: "contradicted_at k (turn 0 s0)"
    using thread_steps_contradicted [OF steps_trans [OF assms(6) to0]] remember_twice [OF assms(2-5)] by blast
  obtain known s5 where known: "IdentityFor h turn k (resolvedPath \<noteq> []) e us (turn 0 s0) = (known, s5)" by fastforce
  have "known = None \<or> (\<exists>meta. known = Some (meta, True))"
  proof (cases known)
    case (Some x)
    then obtain meta flag where x: "known = Some (meta, flag)" by (cases x) simp
    have flag
      by (rule IdentityFor_contradicted [OF con thread_steps_inv [OF to0 inv] e(2) [OF inv] assms(7) known [unfolded x]])
    then show ?thesis using x by simp
  qed simp
  moreover have "\<not> pi_reusable (PublishIdentity meta True)" "pi_stability (PublishIdentity meta True) \<noteq> IdentityStabilityName Stable" for meta
    unfolding PublishIdentity_stable by (simp_all add: PublishIdentity_reusable)
  moreover have "GetAssetInfo h turn c assetPath resolvedPath us s4 = (info_of known, s5)"
    using False assms(8) known eff by (simp add: GetAssetInfo_def Let_def)
  ultimately show ?thesis by (elim disjE exE) (simp_all add: info_of_def Let_def)
qed

section \<open>A resolver over libcurl\<close>

definition sample_host :: "curl_world Host" where
  "sample_host = \<lparr>ho_getenv = (\<lambda>_. None), ho_factory = Some Curl_Perform, ho_address = (\<lambda>_. 0), ho_prepared = False\<rparr>"

definition sample_resolver :: "curl_world Resolver" where
  "sample_resolver = Resolver_new sample_store no_disk sample_curl"

definition sample_metadata :: "string \<Rightarrow> AssetMetadata" where
  "sample_metadata tag = AssetMetadata_empty\<lparr>resolvedIdentifier := ''http://h/a'',
     am_validator := Validator_none\<lparr>v_value := tag, v_kind := EntityTag, v_strength := Strong\<rparr>, am_stability := Stable\<rparr>"

lemma sample_identifier: "CreateIdentifier ''http://h/a'' [] = ''http://h/a''"
  by code_simp

lemma calm_turns: "turns_ok h (\<lambda>_ s. s)"
  by (simp add: turns_ok_def)

theorem republished_never_reusable_witness:
  "\<exists>c1 s1 c2 s3. RememberIdentity ''http://h/a'' (sample_metadata ''x'') DestinationPolicy_default sample_resolver = (c1, s1) \<and>
    RememberIdentity ''http://h/a'' (sample_metadata ''y'') DestinationPolicy_default s1 = (c2, s3) \<and>
    (case GetAssetInfo sample_host (\<lambda>_ s. s) None ''http://h/a'' [] 0 s3 of
      (info, s5) \<Rightarrow> ai_version info = [] \<and>
        (case ai_resolverInfo info of None \<Rightarrow> True | Some (url, bytes, token, stability) \<Rightarrow> stability \<noteq> IdentityStabilityName Stable))"
proof -
  obtain c1 s1 where 1: "RememberIdentity ''http://h/a'' (sample_metadata ''x'') DestinationPolicy_default sample_resolver = (c1, s1)" by fastforce
  obtain c2 s3 where 2: "RememberIdentity ''http://h/a'' (sample_metadata ''y'') DestinationPolicy_default s1 = (c2, s3)" by fastforce
  have inv: "resolver_inv sample_host sample_resolver" by (simp add: sample_resolver_def new_inv_resolver)
  have differ: "am_validator (sample_metadata ''x'') \<noteq> am_validator (sample_metadata ''y'')" by (simp add: sample_metadata_def Validator_none_def)
  have k: "CreateIdentifier (if [] \<noteq> ([] :: string) then [] else ''http://h/a'') [] = ''http://h/a''" by (simp add: sample_identifier)
  note info = republished_never_reusable [OF inv 1 steps_refl 2 differ steps_refl calm_turns k, of None 0]
  show ?thesis by (intro exI conjI, rule 1, rule 2, rule info)
qed

section \<open>Handlers, tables and retained readers\<close>



text \<open>
  C6: in every state the process can reach, at most 64 opens are retained and at most 512
  identities remembered, the eviction queues list exactly the keys of the tables, every
  retained entry was created under its own key, every remembered identity has a record to
  detect a republish with, and no retained reader was handed out twice.
\<close>

theorem resolver_tables:
  assumes "thread_steps h (Resolver_new blocks disk w) s"
  shows "dom (rv_table s) = set (rv_order s) \<and> distinct (rv_order s) \<and> length (rv_order s) \<le> 64 \<and>
    dom (rv_identities s) = set (rv_identityOrder s) \<and> distinct (rv_identityOrder s) \<and> length (rv_identityOrder s) \<le> 512 \<and>
    dom (rv_identities s) \<subseteq> dom (rv_fingerprints s) \<and>
    (\<forall>k i. rv_table s k = Some i \<longrightarrow> i < length (rv_entries s) \<and> on_key (rv_entries s ! i) = k) \<and> distinct (rv_handed s)"
  using thread_steps_inv [OF assms new_inv_resolver]
  unfolding resolver_inv_def table_inv_def identity_inv_def entries_inv_def bounded_table_def kMaxRetainedOpens_def
    kMaxRememberedIdentities_def by (elim conjE) (intro conjI; assumption)

theorem resolver_tables_witness:
  "rv_order (snd (GetOrCreate ''k'' sample_resolver)) = [''k''] \<and> dom (rv_table (snd (GetOrCreate ''k'' sample_resolver))) = {''k''} \<and>
   distinct (rv_handed (snd (GetOrCreate ''k'' sample_resolver)))"
proof -
  have reach: "thread_steps sample_host (Resolver_new sample_store no_disk sample_curl) (snd (GetOrCreate ''k'' sample_resolver))"
    unfolding sample_resolver_def by (rule steps_one, rule Step_get) (rule prod.collapse [symmetric])
  have order: "rv_order (snd (GetOrCreate ''k'' sample_resolver)) = [''k'']"
    by (simp add: GetOrCreate_def sample_resolver_def Resolver_new_def kMaxRetainedOpens_def)
  from resolver_tables [OF reach] show ?thesis unfolding order by (elim conjE) (intro conjI; simp)
qed

definition reader_of :: "'w asset_reader_object \<Rightarrow> 'w HttpReader" where
  "reader_of obj = (case obj of Inl r \<Rightarrow> r | Inr (r, impl) \<Rightarrow> r)"


lemma sample_effective:
  "ef_transport (fst (EffectiveConfiguration sample_host None sample_resolver)) = HttpOptions_default"
  "rv_world (snd (EffectiveConfiguration sample_host None sample_resolver)) = sample_curl"
  "rv_table (snd (EffectiveConfiguration sample_host None sample_resolver)) k = None"
proof -
  have "Snapshot (\<lambda>_. None) = []" by (simp add: Snapshot_def ConfiguredVariables_def)
  moreover have "fst (OptionsFrom (LookupIn [])) = HttpOptions_default"
    by (simp add: OptionsFrom_fst LookupIn_def ReadInto_def read_destinations_def HttpOptions_default_def)
  ultimately show "ef_transport (fst (EffectiveConfiguration sample_host None sample_resolver)) = HttpOptions_default"
    "rv_world (snd (EffectiveConfiguration sample_host None sample_resolver)) = sample_curl"
    "rv_table (snd (EffectiveConfiguration sample_host None sample_resolver)) k = None"
    by (simp_all add: EffectiveConfiguration_def Let_def EnsureConfigured_def sample_resolver_def Resolver_new_def sample_host_def
        Configure_frame Effective_of_def ConfigurationFrom_fst)
qed

lemma wrap_reader_some: "\<exists>obj asset s'. wrap_reader r identifier e s = (Some (obj, asset), s')"
  by (auto simp: wrap_reader_def WrapAsset_def Wrap_def Let_def split: prod.splits)


section \<open>One round trip\<close>

lemma evict_oldest_keeps_newest:
  "0 < n \<Longrightarrow> k \<notin> set order \<Longrightarrow> snd (evict_oldest n (order @ [k]) table) k = table k"
  by (induction order arbitrary: table) auto

lemma EffectiveConfiguration_again:
  assumes "EffectiveConfiguration h c s = (e, s0)" "rv_configured s'" "rv_base s' = rv_base s0" "rv_environment s' = rv_environment s0"
  shows "EffectiveConfiguration h c s' = (e, s')"
  using assms by (auto simp: EffectiveConfiguration_def Let_def EnsureConfigured_def split: option.splits)

text \<open>A successful resolve of an identifier that was not retained leaves its reader retained.\<close>

lemma Resolve_retains:
  assumes "CreateIdentifier path [] = path" "path \<noteq> []" "resolver_inv h s"
    and "rv_table s (OpenKey path (fst (EffectiveConfiguration h c s))) = None"
    and "Resolve h (\<lambda>_ s. s) c None path us s = (path, s1)"
  obtains e i r where "EffectiveConfiguration h c s1 = (e, s1)" "rv_table s1 (OpenKey path e) = Some i" "on_reader (rv_entries s1 ! i) = Some r"
proof -
  obtain e s0 where eff: "EffectiveConfiguration h c s = (e, s0)" by fastforce
  let ?k = "OpenKey path e" and ?i = "length (rv_entries s0)"
  have s0: "s0 = EnsureConfigured h s" using eff by (simp add: EffectiveConfiguration_def Let_def)
  have inv0: "resolver_inv h s0" unfolding s0 by (rule inv_configure [OF assms(3)])
  have free: "rv_table s0 ?k = None" "rv_configured s0" using assms(4) eff s0 by (simp_all add: EnsureConfigured_def Configure_frame)
  obtain i sg where get: "GetOrCreate ?k s0 = (i, sg)" by fastforce
  have "dom (rv_table s0) = set (rv_order s0)" using inv0 by (simp add: resolver_inv_def table_inv_def bounded_table_def)
  then have notin: "?k \<notin> set (rv_order s0)" using free(1) by (metis domIff)
  have sg: "rv_table sg ?k = Some i" "i < length (rv_entries sg)" "rv_entries sg ! i = Opened_new ?k" "rv_configured sg"
    "rv_base sg = rv_base s0" "rv_environment sg = rv_environment s0"
    using get free evict_oldest_keeps_newest [OF _ notin, of kMaxRetainedOpens "(rv_table s0)(?k \<mapsto> ?i)"]
    by (auto simp: GetOrCreate_def Let_def kMaxRetainedOpens_def split: prod.splits)
  obtain ro st w where o: "Http_Open path (ef_transport e) (ho_factory h) us (rv_world sg) = ((ro, st), w)" by (metis surj_pair)
  have once: "ResolveOnce h (\<lambda>_ s. s) path ?k e us s0 = (path, s1)"
    using assms(1,2,5) eff by (auto simp: Resolve_def Let_def split: prod.splits)
  obtain r where r: "ro = Some r"
    using once o assms(2) get sg(2,3) by (cases ro) (auto simp: ResolveOnce_def open_entry_def Let_def Opened_new_def split: if_splits)
  let ?x = "(Opened_new ?k)\<lparr>on_opened := True, on_reader := Some r, on_status := st, on_metadata := hr_metadata r, on_succeeded := True\<rparr>"
  let ?so = "sg\<lparr>rv_entries := (rv_entries sg)[i := ?x], rv_world := w\<rparr>"
  have "s1 = snd (RememberIdentity path (hr_metadata r) (ho_destinations (ef_transport e)) ?so)"
    using once o r get sg(2,3) by (simp add: ResolveOnce_def open_entry_def Let_def Opened_new_def)
  then have "RememberIdentity path (hr_metadata r) (ho_destinations (ef_transport e)) ?so =
      (fst (RememberIdentity path (hr_metadata r) (ho_destinations (ef_transport e)) ?so), s1)" by simp
  then obtain ids ord fs where s1: "s1 = ?so\<lparr>rv_fingerprints := fs, rv_identities := ids, rv_identityOrder := ord\<rparr>"
    by (cases rule: remember_cases) blast
  show thesis
  proof (rule that)
    show "EffectiveConfiguration h c s1 = (e, s1)" by (rule EffectiveConfiguration_again [OF eff]) (simp_all add: s1 sg)
    show "rv_table s1 ?k = Some i" "on_reader (rv_entries s1 ! i) = Some r" using sg by (simp_all add: s1)
  qed
qed



section \<open>What asset info may tell\<close>

text \<open>
  C9: asset info without a resolved path asks nobody and tells nothing it should not. The
  call changes nothing itself, so no request is made and nothing is posted beyond the first
  use's configuration; and it answers only when the caller's own destination policy permits
  every class of address permitted by some policy under which the asset was reached.
\<close>

theorem asset_info_asks_nobody:
  "case GetAssetInfo h turn c assetPath [] us s of (info, s') \<Rightarrow>
    (s' = s \<or> s' = turn 0 (EnsureConfigured h s)) \<and>
    (ai_resolverInfo info = None \<or>
     (\<exists>found q. rv_identities s' (CreateIdentifier assetPath []) = Some found \<and> q \<in> set (id_reachedUnder found) \<and>
        {a. Permits q a} \<subseteq> {a. Permits (ho_destinations (ef_transport (fst (EffectiveConfiguration h c s)))) a}))"
proof -
  let ?k = "CreateIdentifier assetPath []" and ?p = "ho_destinations (ef_transport (fst (EffectiveConfiguration h c s)))"
  have covers: "{a. Permits q a} \<subseteq> {a. Permits p a}" if "Covers p q" for p q
  proof
    fix a assume "a \<in> {a. Permits q a}"
    then show "a \<in> {a. Permits p a}" using that by (cases a) (auto simp: Covers_def)
  qed
  have s0: "snd (EffectiveConfiguration h c s) = EnsureConfigured h s" by (simp add: EffectiveConfiguration_def Let_def)
  have known: "\<exists>found q. rv_identities z ?k = Some found \<and> q \<in> set (id_reachedUnder found) \<and> {a. Permits q a} \<subseteq> {a. Permits ?p a}"
    if "KnownIdentity ?k ?p z = Some x" for x z
    using that covers by (auto simp: KnownIdentity_def list_ex_iff split: option.splits if_splits)
  show ?thesis
  proof (cases "?k = []")
    case False
    let ?z = "turn 0 (EnsureConfigured h s)"
    have "GetAssetInfo h turn c assetPath [] us s = (info_of (KnownIdentity ?k ?p ?z), ?z)"
      using False s0 by (simp add: GetAssetInfo_def IdentityFor_def Let_def split_def split: option.split)
    then show ?thesis using known [of ?z] by (cases "KnownIdentity ?k ?p ?z") (auto simp: info_of_def)
  qed (simp add: GetAssetInfo_def Let_def info_of_def)
qed

section \<open>Keys of retained opens\<close>

text \<open>
  C10: the key of a retained open is exact. Under any two environments and contexts, two keys
  are equal only for the same identifier and the same transport options.
\<close>

theorem retained_key_exact:
  "OpenKey i (Effective_of h (fst (ConfigurationFrom l))) = OpenKey j (Effective_of h (fst (ConfigurationFrom m))) \<longleftrightarrow>
     i = j \<and> (fst (OptionsFrom l) :: 'w HttpOptions) = fst (OptionsFrom m)"
proof -
  have "ef_fingerprint (Effective_of h (fst (ConfigurationFrom l))) = ef_fingerprint (Effective_of h (fst (ConfigurationFrom m))) \<longleftrightarrow>
      (fst (OptionsFrom l) :: 'w HttpOptions) = fst (OptionsFrom m)"
    by (auto simp: Effective_of_def ConfigurationFrom_fst TransportFingerprint_iff OptionsFrom_fst DestinationPolicy_eq_def)
  then show ?thesis using OpenKey_inject [OF Effective_of_wf Effective_of_wf] by blast
qed

text \<open>
  An identifier may hold a line break, which the key uses as its separator: the query of
  an identifier is kept as it was written.
\<close>

theorem identifier_holds_newline: "CHR 0x0A \<in> set (CreateIdentifier (''http://h/a?'' @ [CHR 0x0A]) [])"
  by code_simp

end
