(* ===== verification/Spec2Isabelle.thy ===== *)
theory Spec2Isabelle
  imports Resolver
begin

text \<open>
  \<^bold>\<open>A verification development for usd-http-resolver.\<close> The program reads remote and local
  assets at random offsets and serves them to OpenUSD: a resolver plugin names assets and
  opens them, an HTTP backend reads ranges of one revision of an asset, a cache keeps blocks
  in memory and on disk, and a common library defines the read contract, diagnostics and
  metrics. The theories follow the components and the order of the code inside them.

  \<^bold>\<open>Parts and theories.\<close>

  \<^item> \<open>libs/usd-asset-io\<close>: \<open>Diagnostics\<close> (\<open>Diagnostics.cpp\<close>: statuses, rendering, elision of
    secrets), \<open>RangeMath\<close> (\<open>RangeMath.cpp\<close>: a request against the size, on 64-bit words),
    \<open>Validator\<close> (\<open>Validator.cpp\<close>), \<open>Metrics\<close> (\<open>Metrics.cpp\<close>: histograms, counters, registry) and
    \<open>AssetReader\<close> (\<open>AssetReader.h\<close>: the read contract as the locale \<open>asset_reader\<close>).
  \<^item> \<open>libs/usd-asset-cache\<close>: \<open>BlockPlan\<close>, \<open>CacheOptions\<close>, \<open>CacheKey\<close>, \<open>BlockCache\<close> with
    \<open>CacheHistory\<close> (\<open>BlockCache.cpp\<close>: the striped store, each operation one step under its
    lock, and histories of operations), \<open>Sha256\<close>, \<open>DiskFormat\<close>, \<open>DiskStore\<close> and \<open>DiskCorrect\<close>
    (\<open>DiskBlockStore.cpp\<close>: entry format, store, load, sweep), and \<open>CachedReader\<close>,
    \<open>CachedCorrect\<close>, \<open>CachedLoops\<close>, \<open>CachedContract\<close>, \<open>CacheStack\<close>, \<open>StackCorrect\<close>
    (\<open>CachedAssetReader.cpp\<close>: opening, the cached read path with its loops, and the stack of
    reader, block store and persistent store among other readers).
  \<^item> \<open>libs/usd-asset-local\<close>: \<open>LocalReader\<close> (\<open>LocalAssetReader.cpp\<close> and the POSIX branch of
    \<open>PlatformFile.cpp\<close>).
  \<^item> \<open>libs/usd-asset-http\<close>: \<open>Uri\<close> (\<open>Uri.cpp\<close>), \<open>Destination\<close> (\<open>Destination.cpp\<close>), \<open>Transport\<close>
    (\<open>Transport.cpp\<close>, the locale of what a transport promises), \<open>Framing\<close> (\<open>Framing.cpp\<close>),
    \<open>HttpExchange\<close> and \<open>HttpReader\<close> (\<open>HttpAssetReader.cpp\<close>: redirects and retries, then Open and
    Read), \<open>CurlTransport\<close> (\<open>CurlTransport.cpp\<close>) and \<open>HttpStack\<close> (the reader over libcurl under
    the cache).
  \<^item> \<open>plugins/http-resolver\<close>: \<open>Identifier\<close> (\<open>Identifier.cpp\<close>), \<open>Configuration\<close>
    (\<open>Configuration.cpp\<close>), \<open>ResolvedAsset\<close> (\<open>Diagnostics.cpp\<close>, \<open>Report.cpp\<close>, \<open>Identity.cpp\<close>,
    \<open>ResolvedAsset.cpp\<close>) and \<open>Resolver\<close> (\<open>HttpResolver.cpp\<close>, \<open>Context.cpp\<close>).
  \<^item> \<open>Prelude\<close> holds the word types, decimal numbers, searching, trimming and slicing that the
    components share.

  \<^bold>\<open>How the code is represented.\<close> Structs are records and enumerations are datatypes with the
  source's constructors. Byte counts and counters are 64-bit words; strings are character
  lists; \<open>int\<close> settings that the code bounds are integers. State is passed explicitly. What the
  operating system, libcurl, the clock, the environment, OpenUSD and the interceptor answer is
  an argument of the operation or an event consumed by it, so every theorem holds for all
  answers, or for all answers that satisfy the hypotheses it names. A section under a lock is
  one operation; between two of them other threads or processes take a turn, which is an
  argument (\<open>turn\<close> in \<open>Resolver\<close>, the lists of foreign operations in \<open>CacheStack\<close>, the events of
  \<open>LocalReader\<close>). Shared objects that the code holds by pointer are indices into a list
  (\<open>rv_entries\<close>). Two fields record history the code does not keep: the key an entry of the
  resolver was created under and the entries whose reader was handed out.

  \<^bold>\<open>What the lemmas show.\<close>

  \<^item> The read contract goes through the whole stack: \<open>LocalReader\<close>, \<open>HttpReader\<close> over any
    transport that keeps its promise, \<open>CurlTransport\<close> as such a transport, and the cached reader
    over any reader are interpretations of the locale \<open>asset_reader\<close>; a successful read returns
    exactly the bytes of the opened revision, under any interference by other readers.
  \<^item> The cached read returns when other readers settle their blocks, and leaves none of its own
    blocks pending. The block store keeps budgets, separates identities and lets one reader
    fetch a block; the disk store answers only with what was stored under the same key, detects
    damage and keeps its budget.
  \<^item> Requests go only to permitted addresses, never fall back from \<open>https\<close> to \<open>http\<close>, carry
    intercepted headers only to the opened origin, and their number is bounded.
  \<^item> Identifiers are normal forms, idempotent where the host has no stray colon, and equal to
    the backend's identity text; both programs for dot segments agree with RFC 3986.
  \<^item> Every configuration is inside its limits, a context cannot change shared settings, and its
    canonical string is a fixed point.
  \<^item> The resolver's handlers are sequences of locked sections; in every reachable state its
    tables are bounded and consistent, readers are handed out once and only to callers with
    equal options, and an identity that was contradicted is never published as reusable.

  \<^bold>\<open>Bounds and fuel.\<close> Three loops over words run on fuel: \<open>RoundDown_loop\<close> has 64 turns, one for
  each bit of the word it doubles; \<open>ChooseShardCount_loop\<close> has 7, because it doubles from 1 and
  stops at 64; \<open>sha_zeros\<close> has 64, because padding stays inside one block. For each it is proved
  that the loop condition is false of the result. The hop, attempt and read loops of the HTTP
  reader have termination proofs on the budgets of the options and on the bytes still missing.
  The cached read may wait for another reader for as long as that reader takes, so the read
  path is an option, and that it returns is a theorem under the assumption that others settle
  the blocks they acquired. All other loops are structural or have a termination proof.

  \<^bold>\<open>Not modelled.\<close> The Windows branch of the platform layer, libcurl and OpenUSD themselves, the
  thread-local scope stack behind \<open>_BeginCacheScope\<close> and \<open>_EndCacheScope\<close> (the current scope is
  an argument of \<open>Resolve\<close>), the conversion of contexts to Python, the standard library's
  hashes, the floating-point ratios and the stream output of \<open>Metrics\<close>, test support, and build
  and packaging files: they are code outside the repository, alternatives for another platform,
  or text output without further behaviour.
\<close>

end
